(* ===== verification/Prelude.thy ===== *)
theory Prelude
  imports Main "HOL-Library.Word" "HOL-Library.Monad_Syntax"
begin

text \<open>
  Shared vocabulary of the development: the named collections the component proofs use, the
  widths of the C++ integer types, a small model of the byte-level operations of the C standard
  library that the sources call (\<open>strlen\<close>, \<open>strncpy\<close>, \<open>strncmp\<close>, \<open>memcpy\<close>,
  \<open>snprintf\<close>, the \<open>%u\<close> and \<open>%0Nd\<close> conversions), and the generic lemmas on lists and
  words.

  Memory is modelled by byte lists. A character array of \<open>n\<close> bytes is a list of length
  \<open>n\<close>; a \<open>const char*\<close> is the list of the bytes from the pointer to the end of the array
  it points into, terminator included, and a pointer that may be null is an \<open>option\<close> of
  that. A read or write outside the array has undefined behaviour in C++: every operation that
  touches memory returns an \<open>option\<close>, and \<open>None\<close> stands for undefined behaviour. A theorem
  that an operation returns \<open>Some\<close> therefore contains its memory safety.
\<close>

unbundle bit_operations_syntax

named_theorems mem_defs \<open>definitions of the byte-level operations\<close>
named_theorems wf_intros \<open>preservation of well-formedness by the operations\<close>

subsection \<open>Machine integers and bytes\<close>

type_synonym u8 = "8 word"
type_synonym u16 = "16 word"
type_synonym u32 = "32 word"
type_synonym u64 = "64 word"

type_synonym bytes = "char list"
type_synonym c_ptr = "bytes option"

abbreviation NUL :: char where "NUL \<equiv> CHR 0x00"

text \<open>A string literal: its characters and the terminator the compiler appends.\<close>

definition c_lit :: "string \<Rightarrow> bytes" where
  [mem_defs]: "c_lit s = s @ [NUL]"

text \<open>The characters of a C string: everything before the first terminator.\<close>

definition c_str :: "bytes \<Rightarrow> string" where
  "c_str m = takeWhile (\<lambda>c. c \<noteq> NUL) m"

text \<open>A byte array that holds a terminator, the precondition of every C string function.\<close>

definition terminated :: "bytes \<Rightarrow> bool" where
  "terminated m \<longleftrightarrow> NUL \<in> set m"

definition strlen :: "bytes \<Rightarrow> nat option" where
  "strlen m = (if NUL \<in> set m then Some (length (takeWhile (\<lambda>c. c \<noteq> NUL) m)) else None)"

text \<open>\<open>memcpy(dst + off, src, n)\<close>: \<open>n\<close> bytes must be readable and writable.\<close>

definition memcpy :: "bytes \<Rightarrow> nat \<Rightarrow> bytes \<Rightarrow> nat \<Rightarrow> bytes option" where
  "memcpy dst off src n =
     (if off + n \<le> length dst \<and> n \<le> length src
      then Some (take off dst @ take n src @ drop (off + n) dst) else None)"

text \<open>\<open>dst[i] = c\<close>.\<close>

definition store_byte :: "bytes \<Rightarrow> nat \<Rightarrow> char \<Rightarrow> bytes option" where
  "store_byte dst i c = (if i < length dst then Some (dst[i := c]) else None)"

text \<open>
  \<open>strncpy(dst, src, n)\<close>: at most \<open>n\<close> bytes of the source string, padded with
  terminators to exactly \<open>n\<close> bytes. The source must be readable up to its terminator or for
  \<open>n\<close> bytes.
\<close>

definition strncpy :: "bytes \<Rightarrow> bytes \<Rightarrow> nat \<Rightarrow> bytes option" where
  "strncpy dst src n =
     (if n \<le> length dst \<and> (NUL \<in> set src \<or> n \<le> length src)
      then let s = take n (takeWhile (\<lambda>c. c \<noteq> NUL) src)
           in Some (s @ replicate (n - length s) NUL @ drop n dst)
      else None)"

text \<open>\<open>strncmp(a, b, n) == 0\<close>.\<close>

fun strncmp_eq :: "bytes \<Rightarrow> bytes \<Rightarrow> nat \<Rightarrow> bool option" where
  "strncmp_eq a b 0 = Some True"
| "strncmp_eq (x # xs) (y # ys) (Suc n) =
     (if x \<noteq> y then Some False
      else if x = NUL then Some True else strncmp_eq xs ys n)"
| "strncmp_eq _ _ (Suc n) = None"

text \<open>
  \<open>snprintf(dst, n, ...)\<close> whose complete formatted text is \<open>txt\<close>: with a positive
  \<open>n\<close> the first \<open>n - 1\<close> characters and a terminator are stored; the result is the
  length of the complete text.
\<close>

definition snprintf :: "bytes \<Rightarrow> nat \<Rightarrow> string \<Rightarrow> (bytes \<times> nat) option" where
  "snprintf dst n txt =
     (if n = 0 then Some (dst, length txt)
      else if n \<le> length dst
      then let s = take (n - 1) txt
           in Some (s @ [NUL] @ drop (Suc (length s)) dst, length txt)
      else None)"

subsection \<open>Decimal conversions\<close>

definition digit_char :: "nat \<Rightarrow> char" where
  "digit_char d = char_of (48 + d)"

fun dec_digits :: "nat \<Rightarrow> string" where
  "dec_digits n = (if n < 10 then [digit_char n] else dec_digits (n div 10) @ [digit_char (n mod 10)])"

declare dec_digits.simps [simp del]

text \<open>\<open>%0Nu\<close> and \<open>%0Nd\<close>: at least \<open>w\<close> characters, zero padded, the sign first.\<close>

definition pad0 :: "nat \<Rightarrow> string \<Rightarrow> string" where
  "pad0 w s = replicate (w - length s) CHR ''0'' @ s"

definition fmt_0u :: "nat \<Rightarrow> nat \<Rightarrow> string" where
  "fmt_0u w n = pad0 w (dec_digits n)"

definition fmt_0d :: "nat \<Rightarrow> int \<Rightarrow> string" where
  "fmt_0d w i = (if i < 0 then CHR ''-'' # pad0 (w - 1) (dec_digits (nat (- i)))
                 else pad0 w (dec_digits (nat i)))"

text \<open>Reading a decimal numeral back, the reference for the round trips.\<close>

definition digit_val :: "char \<Rightarrow> nat" where
  "digit_val c = of_char c - 48"

definition read_dec :: "string \<Rightarrow> nat" where
  "read_dec s = foldl (\<lambda>acc c. 10 * acc + digit_val c) 0 s"

lemma digit_val_digit_char [simp]: "d < 10 \<Longrightarrow> digit_val (digit_char d) = d"
  by (simp add: digit_val_def digit_char_def)

lemma read_dec_snoc: "read_dec (s @ [c]) = 10 * read_dec s + digit_val c"
  by (simp add: read_dec_def)

lemma read_dec_digits [simp]: "read_dec (dec_digits n) = n"
proof (induction n rule: dec_digits.induct)
  case (1 n)
  show ?case
  proof (cases "n < 10")
    case True
    then show ?thesis by (simp add: dec_digits.simps [of n] read_dec_def)
  next
    case False
    with "1.IH" have "read_dec (dec_digits (n div 10)) = n div 10" by simp
    with False show ?thesis by (simp add: dec_digits.simps [of n] read_dec_snoc)
  qed
qed

lemma read_dec_pad0 [simp]: "read_dec (pad0 w s) = read_dec s"
proof -
  have "foldl (\<lambda>acc c. 10 * acc + digit_val c) 0 (replicate k CHR ''0'') = 0" for k
    by (induction k) (simp_all add: digit_val_def)
  then show ?thesis by (simp add: pad0_def read_dec_def)
qed

lemma dec_digits_nonempty [simp]: "dec_digits n \<noteq> []"
  by (subst dec_digits.simps) simp

lemma digit_char_NUL: "d < 10 \<Longrightarrow> digit_char d \<noteq> NUL"
proof
  assume "d < 10" "digit_char d = NUL"
  then have "(of_char (digit_char d) :: nat) = of_char NUL" by simp
  with \<open>d < 10\<close> show False by (simp add: digit_char_def)
qed

lemma dec_digits_NUL: "NUL \<notin> set (dec_digits n)"
proof (induction n rule: dec_digits.induct)
  case (1 n)
  then show ?case using digit_char_NUL [of n] digit_char_NUL [of "n mod 10"]
    by (auto simp: dec_digits.simps [of n])
qed

lemma dec_digits_length: "n < 10 ^ k \<Longrightarrow> 0 < k \<Longrightarrow> length (dec_digits n) \<le> k"
proof (induction k arbitrary: n)
  case 0
  then show ?case by simp
next
  case (Suc k)
  show ?case
  proof (cases "n < 10")
    case True
    then show ?thesis by (simp add: dec_digits.simps [of n])
  next
    case False
    with Suc.prems have "0 < k" by (cases k) auto
    moreover from Suc.prems have "n div 10 < 10 ^ k" by (simp add: less_mult_imp_div_less mult.commute)
    ultimately have "length (dec_digits (n div 10)) \<le> k" by (rule Suc.IH [rotated])
    with False show ?thesis by (simp add: dec_digits.simps [of n])
  qed
qed

lemma pad0_length: "length (pad0 w s) = max w (length s)"
  by (simp add: pad0_def)

text \<open>The rules that evaluate a conversion of a literal number.\<close>

lemma digit_char_literals:
  "digit_char 0 = CHR ''0''" "digit_char 1 = CHR ''1''" "digit_char 2 = CHR ''2''" "digit_char 3 = CHR ''3''"
  "digit_char 4 = CHR ''4''" "digit_char 5 = CHR ''5''" "digit_char 6 = CHR ''6''" "digit_char 7 = CHR ''7''"
  "digit_char 8 = CHR ''8''" "digit_char 9 = CHR ''9''" "digit_char (Suc 0) = CHR ''1''"
  by code_simp+

lemmas dec_eval = dec_digits.simps fmt_0u_def fmt_0d_def pad0_def digit_char_literals

subsection \<open>Laws of the byte-level operations\<close>

lemma c_str_append_NUL [simp]: "c_str (s @ NUL # t) = c_str s"
  by (induction s) (simp_all add: c_str_def)

lemma c_str_id [simp]: "NUL \<notin> set s \<Longrightarrow> c_str s = s"
  unfolding c_str_def by (subst takeWhile_eq_all_conv) auto

lemma NUL_notin_c_str [simp]: "NUL \<notin> set (c_str m)"
  by (auto simp: c_str_def dest: set_takeWhileD)

lemma c_str_c_lit: "NUL \<notin> set s \<Longrightarrow> c_str (c_lit s) = s"
  by (simp add: c_lit_def)

lemma terminated_c_lit [simp]: "terminated (c_lit s)"
  by (simp add: terminated_def c_lit_def)

lemma strlen_terminated: "terminated m \<Longrightarrow> strlen m = Some (length (c_str m))"
  by (simp add: strlen_def terminated_def c_str_def)

lemma strlen_eq_None: "strlen m = None \<longleftrightarrow> \<not> terminated m"
  by (simp add: strlen_def terminated_def)

lemma c_str_length_less: "terminated m \<Longrightarrow> length (c_str m) < length m"
  unfolding terminated_def c_str_def by (induction m) auto

lemma take_length_c_str [simp]: "take (length (c_str m)) m = c_str m"
  unfolding c_str_def by (metis takeWhile_eq_take)

lemma nth_terminated: "i < length m \<Longrightarrow> m ! i = NUL \<Longrightarrow> terminated m"
  unfolding terminated_def by (metis nth_mem)

lemma memcpy_Some:
  "off + n \<le> length dst \<Longrightarrow> n \<le> length src \<Longrightarrow>
   memcpy dst off src n = Some (take off dst @ take n src @ drop (off + n) dst)"
  by (simp add: memcpy_def)

lemma store_byte_Some: "i < length dst \<Longrightarrow> store_byte dst i c = Some (dst[i := c])"
  by (simp add: store_byte_def)

text \<open>
  What a formatting call of size \<open>n\<close> leaves in a buffer: the text \<open>out\<close>, shorter than
  \<open>n\<close>, its terminator, and the bytes from \<open>n\<close> on as they were.
\<close>

definition holds_text :: "nat \<Rightarrow> bytes \<Rightarrow> string \<Rightarrow> bytes \<Rightarrow> bool" where
  "holds_text n old out buf \<longleftrightarrow> length buf = length old \<and> length out < n \<and>
     take (length out) buf = out \<and> buf ! length out = NUL \<and> drop n buf = drop n old"

lemma snprintf_holds:
  assumes "0 < n" "n \<le> length buf"
  shows "\<exists>buf'. snprintf buf n txt = Some (buf', length txt) \<and> holds_text n buf (take (n - 1) txt) buf'"
proof -
  let ?s = "take (n - 1) txt"
  let ?b = "?s @ [NUL] @ drop (Suc (length ?s)) buf"
  have le: "Suc (length ?s) \<le> n" using assms(1) by (cases n) auto
  then have "length ?b = length buf" using assms by simp
  moreover have "drop n ?b = drop n buf" using le by (simp add: drop_Cons' del: length_take)
  ultimately have "length ?b = length buf" "drop n ?b = drop n buf" by blast+
  with le assms show ?thesis
    by (intro exI [of _ ?b]) (simp add: snprintf_def Let_def holds_text_def nth_append min_def)
qed

lemma holds_text_take: "holds_text n old out buf \<Longrightarrow> k = length out \<Longrightarrow> take k buf = out"
  by (simp add: holds_text_def)

lemma holds_text_c_str:
  assumes "holds_text n old out buf" "n \<le> length old" "NUL \<notin> set out"
  shows "terminated buf" "c_str buf = out"
proof -
  have l: "length out < length buf" "buf ! length out = NUL" "take (length out) buf = out"
    using assms(1,2) by (auto simp: holds_text_def)
  then show "terminated buf" by (intro nth_terminated [of "length out"])
  have "buf = out @ NUL # drop (Suc (length out)) buf" using id_take_nth_drop [OF l(1)] l(2,3) by simp
  then have "c_str buf = c_str out" using c_str_append_NUL [of out "drop (Suc (length out)) buf"] by simp
  with assms(3) show "c_str buf = out" by simp
qed

lemma unat_of_nat_small: "n < 2 ^ LENGTH('w) \<Longrightarrow> unat (of_nat n :: 'w::len word) = n"
  by (simp add: unat_of_nat)

lemma unat_slot_mask:
  "unat ((ucast (pos :: u32) :: u64) AND (of_nat (2 ^ k) - 1)) = unat pos mod 2 ^ k"
proof -
  have "(of_nat (2 ^ k) - 1 :: u64) = mask k"
    by (simp add: mask_eq_exp_minus_1)
  then have "unat ((ucast pos :: u64) AND (of_nat (2 ^ k) - 1)) = unat (take_bit k (ucast pos :: u64))"
    by (simp add: take_bit_eq_mask)
  also have "\<dots> = take_bit k (unat (ucast pos :: u64))"
    by (rule unsigned_take_bit_eq)
  also have "\<dots> = unat pos mod 2 ^ k"
    using unsigned_less [of pos, where ?'a = nat]
    by (simp add: unsigned_ucast_eq take_bit_eq_mod)
  finally show ?thesis .
qed

end
