(* ===== verification/Log_Level.thy ===== *)
theory Log_Level
  imports Prelude
begin

text \<open>
  The build configuration (\<open>platform.hpp\<close>) and the severity levels (\<open>log_level.hpp\<close>).
  Every configuration macro is guarded by \<open>#ifndef\<close>, so its value is a parameter of the build:
  the record \<open>config\<close> holds them and \<open>platform_config\<close> gives the defaults for the two
  build modes. The levels are a datatype with the enumerators of the source, ordered by their
  underlying values. The trailing \<open>return "UNKNOWN"\<close> and \<open>return '?'\<close> of the two naming
  functions are reached only by values outside the enumeration, which the program never makes;
  they have no counterpart here.
\<close>

subsection \<open>Build configuration\<close>

record config =
  BR_LOG_EMBEDDED :: bool
  BR_LOG_HAS_THREAD :: bool
  BR_LOG_RING_SIZE :: nat
  BR_LOG_MAX_MSG_LEN :: nat
  BR_LOG_MAX_TAGS :: nat
  BR_LOG_MAX_TAG_KEY_LEN :: nat
  BR_LOG_MAX_TAG_VAL_LEN :: nat

definition platform_config :: "bool \<Rightarrow> config" where
  "platform_config embedded =
     \<lparr> BR_LOG_EMBEDDED = embedded,
       BR_LOG_HAS_THREAD = (\<not> embedded),
       BR_LOG_RING_SIZE = (if embedded then 256 else 8192),
       BR_LOG_MAX_MSG_LEN = (if embedded then 128 else 384),
       BR_LOG_MAX_TAGS = 8,
       BR_LOG_MAX_TAG_KEY_LEN = 32,
       BR_LOG_MAX_TAG_VAL_LEN = 64 \<rparr>"

text \<open>
  What the code needs of the configuration: a ring of a power of two of at least two slots whose
  positions fit 32 bits, non-empty character arrays, a message length that fits
  \<open>uint16_t\<close> and a tag count that fits \<open>uint8_t\<close>.
\<close>

definition valid_config :: "config \<Rightarrow> bool" where
  "valid_config cfg \<longleftrightarrow>
     (\<exists>k\<in>{1..31}. BR_LOG_RING_SIZE cfg = 2 ^ k) \<and>
     0 < BR_LOG_MAX_MSG_LEN cfg \<and> BR_LOG_MAX_MSG_LEN cfg \<le> 2 ^ 16 \<and>
     BR_LOG_MAX_TAGS cfg < 2 ^ 8 \<and>
     0 < BR_LOG_MAX_TAG_KEY_LEN cfg \<and> 0 < BR_LOG_MAX_TAG_VAL_LEN cfg"

lemma valid_platform_config: "valid_config (platform_config embedded)"
proof -
  have "\<exists>k\<in>{1..31}. (256::nat) = 2 ^ k" by (rule bexI [of _ 8]) simp_all
  moreover have "\<exists>k\<in>{1..31}. (8192::nat) = 2 ^ k" by (rule bexI [of _ 13]) simp_all
  ultimately show ?thesis by (simp add: valid_config_def platform_config_def)
qed

lemma valid_configD:
  assumes "valid_config cfg"
  shows "0 < BR_LOG_MAX_MSG_LEN cfg" "BR_LOG_MAX_MSG_LEN cfg \<le> 2 ^ 16" "BR_LOG_MAX_TAGS cfg < 2 ^ 8"
    "0 < BR_LOG_MAX_TAG_KEY_LEN cfg" "0 < BR_LOG_MAX_TAG_VAL_LEN cfg"
  using assms by (auto simp: valid_config_def)

subsection \<open>Severity levels\<close>

datatype LogLevel = TRACE | DEBUG | INFO | WARN | ERROR | FATAL | OFF

fun level_value :: "LogLevel \<Rightarrow> nat" where
  "level_value TRACE = 0"
| "level_value DEBUG = 1"
| "level_value INFO = 2"
| "level_value WARN = 3"
| "level_value ERROR = 4"
| "level_value FATAL = 5"
| "level_value OFF = 6"

lemma level_value_inject [simp]: "level_value a = level_value b \<longleftrightarrow> a = b"
  by (cases a; cases b) simp_all

lemma level_value_le: "level_value l \<le> 6"
  by (cases l) simp_all

instantiation LogLevel :: linorder
begin

definition less_eq_LogLevel :: "LogLevel \<Rightarrow> LogLevel \<Rightarrow> bool" where
  "less_eq_LogLevel a b \<longleftrightarrow> level_value a \<le> level_value b"

definition less_LogLevel :: "LogLevel \<Rightarrow> LogLevel \<Rightarrow> bool" where
  "less_LogLevel a b \<longleftrightarrow> level_value a < level_value b"

instance
  by standard (auto simp: less_eq_LogLevel_def less_LogLevel_def)

end

fun to_string :: "LogLevel \<Rightarrow> string" where
  "to_string TRACE = ''TRACE''"
| "to_string DEBUG = ''DEBUG''"
| "to_string INFO = ''INFO''"
| "to_string WARN = ''WARN''"
| "to_string ERROR = ''ERROR''"
| "to_string FATAL = ''FATAL''"
| "to_string OFF = ''OFF''"

fun to_short_char :: "LogLevel \<Rightarrow> char" where
  "to_short_char TRACE = CHR ''T''"
| "to_short_char DEBUG = CHR ''D''"
| "to_short_char INFO = CHR ''I''"
| "to_short_char WARN = CHR ''W''"
| "to_short_char ERROR = CHR ''E''"
| "to_short_char FATAL = CHR ''F''"
| "to_short_char OFF = CHR ''O''"

text \<open>The default of \<open>BR_LOG_ACTIVE_LEVEL\<close>: \<open>INFO\<close> under \<open>NDEBUG\<close>, else \<open>TRACE\<close>.\<close>

definition default_active_level :: "bool \<Rightarrow> nat" where
  "default_active_level ndebug = (if ndebug then 2 else 0)"

lemma to_string_short: "hd (to_string l) = to_short_char l"
  by (cases l) simp_all

lemma to_string_inject: "to_string a = to_string b \<longleftrightarrow> a = b"
  by (cases a; cases b) simp_all

lemma NUL_notin_to_string [simp]: "NUL \<notin> set (to_string l)"
  by (cases l) simp_all

end
