(* ===== verification/Fixed_Vector.thy ===== *)
theory Fixed_Vector
  imports Prelude
begin

text \<open>
  \<open>FixedVector<T, Capacity>\<close> of \<open>fixed_vector.hpp\<close>: an array of \<open>Capacity\<close> elements and
  a count. The template parameter is the length of the array. \<open>operator[]\<close> has no bounds check,
  so an access outside the array is \<open>None\<close>. The locale \<open>bounded_stack\<close> is the contract the
  clients of the container rely on.
\<close>

record 'a FixedVector =
  fv_data :: "'a list"
  fv_size :: nat

definition GetCapacity :: "'a FixedVector \<Rightarrow> nat" where
  "GetCapacity v = length (fv_data v)"

definition PushBack :: "'a FixedVector \<Rightarrow> 'a \<Rightarrow> bool \<times> 'a FixedVector" where
  "PushBack v item =
     (if GetCapacity v \<le> fv_size v then (False, v)
      else (True, v\<lparr>fv_data := (fv_data v)[fv_size v := item], fv_size := Suc (fv_size v)\<rparr>))"

definition PopBack :: "'a FixedVector \<Rightarrow> bool \<times> 'a FixedVector" where
  "PopBack v = (if fv_size v = 0 then (False, v) else (True, v\<lparr>fv_size := fv_size v - 1\<rparr>))"

definition fv_get :: "'a FixedVector \<Rightarrow> nat \<Rightarrow> 'a option" where
  "fv_get v i = (if i < length (fv_data v) then Some (fv_data v ! i) else None)"

definition fv_set :: "'a FixedVector \<Rightarrow> nat \<Rightarrow> 'a \<Rightarrow> 'a FixedVector option" where
  "fv_set v i x = (if i < length (fv_data v) then Some (v\<lparr>fv_data := (fv_data v)[i := x]\<rparr>) else None)"

definition Size :: "'a FixedVector \<Rightarrow> nat" where
  "Size v = fv_size v"

definition Empty :: "'a FixedVector \<Rightarrow> bool" where
  "Empty v \<longleftrightarrow> fv_size v = 0"

definition Full :: "'a FixedVector \<Rightarrow> bool" where
  "Full v \<longleftrightarrow> fv_size v = GetCapacity v"

definition Clear :: "'a FixedVector \<Rightarrow> 'a FixedVector" where
  "Clear v = v\<lparr>fv_size := 0\<rparr>"

text \<open>The elements a range-for over \<open>begin()\<close> to \<open>end()\<close> visits, in order.\<close>

definition fv_list :: "'a FixedVector \<Rightarrow> 'a list" where
  "fv_list v = take (fv_size v) (fv_data v)"

definition fv_wf :: "nat \<Rightarrow> 'a FixedVector \<Rightarrow> bool" where
  "fv_wf cap v \<longleftrightarrow> length (fv_data v) = cap \<and> fv_size v \<le> cap"

text \<open>A freshly constructed vector; the array holds whatever its storage held.\<close>

definition fv_init :: "'a list \<Rightarrow> 'a FixedVector" where
  "fv_init junk = \<lparr>fv_data = junk, fv_size = 0\<rparr>"

subsection \<open>The contract of a bounded stack\<close>

locale bounded_stack =
  fixes cap :: nat
    and wf :: "'v \<Rightarrow> bool"
    and elems :: "'v \<Rightarrow> 'a list"
    and push :: "'v \<Rightarrow> 'a \<Rightarrow> bool \<times> 'v"
    and pop :: "'v \<Rightarrow> bool \<times> 'v"
    and get :: "'v \<Rightarrow> nat \<Rightarrow> 'a option"
    and set_at :: "'v \<Rightarrow> nat \<Rightarrow> 'a \<Rightarrow> 'v option"
  assumes elems_bound: "wf v \<Longrightarrow> length (elems v) \<le> cap"
    and push_ok: "wf v \<Longrightarrow> length (elems v) < cap \<Longrightarrow>
          \<exists>v'. push v x = (True, v') \<and> wf v' \<and> elems v' = elems v @ [x]"
    and push_full: "wf v \<Longrightarrow> length (elems v) = cap \<Longrightarrow> push v x = (False, v)"
    and pop_ok: "wf v \<Longrightarrow> elems v \<noteq> [] \<Longrightarrow>
          \<exists>v'. pop v = (True, v') \<and> wf v' \<and> elems v' = butlast (elems v)"
    and pop_empty: "wf v \<Longrightarrow> elems v = [] \<Longrightarrow> pop v = (False, v)"
    and get_ok: "wf v \<Longrightarrow> i < length (elems v) \<Longrightarrow> get v i = Some (elems v ! i)"
    and set_ok: "wf v \<Longrightarrow> i < length (elems v) \<Longrightarrow>
          \<exists>v'. set_at v i x = Some v' \<and> wf v' \<and> elems v' = (elems v)[i := x]"
begin

text \<open>Every push result in one equation.\<close>

lemma push_elems:
  assumes "wf v"
  shows "wf (snd (push v x))"
    and "elems (snd (push v x)) = (if length (elems v) < cap then elems v @ [x] else elems v)"
    and "fst (push v x) = (length (elems v) < cap)"
proof -
  consider "length (elems v) < cap" | "length (elems v) = cap"
    using elems_bound [OF assms] by linarith
  then have "wf (snd (push v x)) \<and>
      elems (snd (push v x)) = (if length (elems v) < cap then elems v @ [x] else elems v) \<and>
      fst (push v x) = (length (elems v) < cap)"
  proof cases
    case 1
    with push_ok [OF assms 1, of x] show ?thesis by auto
  next
    case 2
    with push_full [OF assms 2, of x] assms show ?thesis by simp
  qed
  then show "wf (snd (push v x))"
    and "elems (snd (push v x)) = (if length (elems v) < cap then elems v @ [x] else elems v)"
    and "fst (push v x) = (length (elems v) < cap)"
    by auto
qed

lemma pop_elems:
  assumes "wf v"
  shows "wf (snd (pop v))" and "elems (snd (pop v)) = butlast (elems v)"
proof -
  have "wf (snd (pop v)) \<and> elems (snd (pop v)) = butlast (elems v)"
  proof (cases "elems v = []")
    case True
    with pop_empty [OF assms True] assms show ?thesis by simp
  next
    case False
    with pop_ok [OF assms False] show ?thesis by auto
  qed
  then show "wf (snd (pop v))" and "elems (snd (pop v)) = butlast (elems v)" by auto
qed

text \<open>A push that found room is undone by a pop.\<close>

lemma pop_push:
  assumes "wf v" and "length (elems v) < cap"
  shows "elems (snd (pop (snd (push v x)))) = elems v"
  using pop_elems(2) [OF push_elems(1) [OF assms(1)], of x] push_elems(2) [OF assms(1), of x] assms(2)
  by simp

end

subsection \<open>The array implements the contract\<close>

lemma fv_list_length: "fv_wf cap v \<Longrightarrow> length (fv_list v) = fv_size v"
  by (simp add: fv_wf_def fv_list_def)

interpretation fv: bounded_stack cap "fv_wf cap" fv_list PushBack PopBack fv_get fv_set
proof unfold_locales
  fix v :: "'a FixedVector" and x :: 'a and i :: nat
  assume wf: "fv_wf cap v"
  note defs = fv_wf_def fv_list_def PushBack_def PopBack_def GetCapacity_def fv_get_def fv_set_def
  from wf show "length (fv_list v) \<le> cap" by (simp add: fv_list_length) (simp add: fv_wf_def)
  show "\<exists>v'. PushBack v x = (True, v') \<and> fv_wf cap v' \<and> fv_list v' = fv_list v @ [x]"
    if "length (fv_list v) < cap"
    using wf that by (auto simp: defs take_Suc_conv_app_nth)
  show "PushBack v x = (False, v)" if "length (fv_list v) = cap"
    using wf that by (auto simp: defs)
  show "\<exists>v'. PopBack v = (True, v') \<and> fv_wf cap v' \<and> fv_list v' = butlast (fv_list v)"
    if "fv_list v \<noteq> []"
    using wf that by (auto simp: defs butlast_take)
  show "PopBack v = (False, v)" if "fv_list v = []"
    using wf that by (auto simp: defs)
  show "fv_get v i = Some (fv_list v ! i)" if "i < length (fv_list v)"
    using wf that by (auto simp: defs)
  show "\<exists>v'. fv_set v i x = Some v' \<and> fv_wf cap v' \<and> fv_list v' = (fv_list v)[i := x]"
    if "i < length (fv_list v)"
    using wf that by (auto simp: defs take_update_swap)
qed

lemma fv_set_list:
  "fv_wf cap v \<Longrightarrow> i < length (fv_list v) \<Longrightarrow> fv_set v i x = Some v' \<Longrightarrow>
   fv_wf cap v' \<and> fv_list v' = (fv_list v)[i := x]"
  using fv.set_ok [of cap v i x] by auto

lemma fv_wf_Size: "fv_wf cap v \<Longrightarrow> Size v = length (fv_list v)"
  by (simp add: Size_def fv_list_length)

lemma fv_wf_Empty: "fv_wf cap v \<Longrightarrow> Empty v = (fv_list v = [])"
  by (auto simp: Empty_def fv_list_def fv_wf_def)

lemma fv_wf_init [wf_intros]: "length junk = cap \<Longrightarrow> fv_wf cap (fv_init junk)"
  by (simp add: fv_wf_def fv_init_def)

lemma fv_wf_Clear [wf_intros]: "fv_wf cap v \<Longrightarrow> fv_wf cap (Clear v)"
  by (simp add: fv_wf_def Clear_def)

lemma fv_list_init [simp]: "fv_list (fv_init junk) = []"
  by (simp add: fv_list_def fv_init_def)

lemma fv_list_Clear [simp]: "fv_list (Clear v) = []"
  by (simp add: fv_list_def Clear_def)

end
