(* ===== verification/Log_Entry.thy ===== *)
theory Log_Entry
  imports Log_Level
begin

text \<open>
  The log record (\<open>log_entry.hpp\<close>) and the source location (\<open>source_location.hpp\<close>).
  Character arrays are byte lists of the declared length, \<open>const char*\<close> members are pointers
  that may be null, integers have the declared width. \<open>wf_entry\<close> states what the formatters
  and sinks may rely on: arrays of the declared lengths, terminated strings, a tag count within
  the tag array and a message length within the message array.
\<close>

subsection \<open>Log tags and log entries\<close>

record LogTag =
  tag_key :: bytes
  tag_value :: bytes

record LogEntry =
  timestamp_ns :: u64
  wall_clock_ns :: u64
  level :: LogLevel
  file_path :: c_ptr
  file_name :: c_ptr
  function_name :: c_ptr
  pretty_function :: c_ptr
  line :: u32
  column :: u32
  thread_id :: u32
  process_id :: u32
  thread_name :: bytes
  tag_count :: u8
  tags :: "LogTag list"
  sequence_id :: u64
  msg_len :: u16
  msg :: bytes

text \<open>\<open>LogTag tag{}\<close> and \<open>LogEntry entry{}\<close>: every byte zero, every pointer null.\<close>

definition zero_tag :: "config \<Rightarrow> LogTag" where
  "zero_tag cfg =
     \<lparr>tag_key = replicate (BR_LOG_MAX_TAG_KEY_LEN cfg) NUL,
      tag_value = replicate (BR_LOG_MAX_TAG_VAL_LEN cfg) NUL\<rparr>"

definition zero_entry :: "config \<Rightarrow> LogEntry" where
  "zero_entry cfg =
     \<lparr>timestamp_ns = 0, wall_clock_ns = 0, level = TRACE,
      file_path = None, file_name = None, function_name = None, pretty_function = None,
      line = 0, column = 0, thread_id = 0, process_id = 0,
      thread_name = replicate 32 NUL,
      tag_count = 0, tags = replicate (BR_LOG_MAX_TAGS cfg) (zero_tag cfg),
      sequence_id = 0, msg_len = 0, msg = replicate (BR_LOG_MAX_MSG_LEN cfg) NUL\<rparr>"

subsection \<open>Well-formedness\<close>

definition wf_tag :: "config \<Rightarrow> LogTag \<Rightarrow> bool" where
  "wf_tag cfg t \<longleftrightarrow>
     length (tag_key t) = BR_LOG_MAX_TAG_KEY_LEN cfg \<and> terminated (tag_key t) \<and>
     length (tag_value t) = BR_LOG_MAX_TAG_VAL_LEN cfg \<and> terminated (tag_value t)"

definition wf_ptr :: "c_ptr \<Rightarrow> bool" where
  "wf_ptr p \<longleftrightarrow> (case p of None \<Rightarrow> True | Some m \<Rightarrow> terminated m)"

text \<open>Everything but the message: what \<open>LogImpl\<close> has established before it formats.\<close>

definition wf_entry_head :: "config \<Rightarrow> LogEntry \<Rightarrow> bool" where
  "wf_entry_head cfg e \<longleftrightarrow>
     wf_ptr (file_path e) \<and> wf_ptr (file_name e) \<and>
     wf_ptr (function_name e) \<and> wf_ptr (pretty_function e) \<and>
     length (thread_name e) = 32 \<and> terminated (thread_name e) \<and>
     length (tags e) = BR_LOG_MAX_TAGS cfg \<and> list_all (wf_tag cfg) (tags e) \<and>
     unat (tag_count e) \<le> BR_LOG_MAX_TAGS cfg \<and>
     length (msg e) = BR_LOG_MAX_MSG_LEN cfg"

definition wf_entry :: "config \<Rightarrow> LogEntry \<Rightarrow> bool" where
  "wf_entry cfg e \<longleftrightarrow> wf_entry_head cfg e \<and> unat (msg_len e) < BR_LOG_MAX_MSG_LEN cfg"

lemma wf_zero_tag [wf_intros]: "valid_config cfg \<Longrightarrow> wf_tag cfg (zero_tag cfg)"
  by (simp add: wf_tag_def zero_tag_def terminated_def valid_configD)

lemma wf_zero_entry [wf_intros]: "valid_config cfg \<Longrightarrow> wf_entry cfg (zero_entry cfg)"
  by (simp add: wf_entry_def wf_entry_head_def zero_entry_def wf_ptr_def terminated_def
      list_all_iff wf_zero_tag valid_configD)

text \<open>The tags the entry carries, and their text.\<close>

definition entry_tags :: "LogEntry \<Rightarrow> LogTag list" where
  "entry_tags e = take (unat (tag_count e)) (tags e)"

definition tag_text :: "LogTag \<Rightarrow> string \<times> string" where
  "tag_text t = (c_str (tag_key t), c_str (tag_value t))"

text \<open>The message text, the first \<open>msg_len\<close> bytes of the array.\<close>

definition entry_msg :: "LogEntry \<Rightarrow> string" where
  "entry_msg e = take (unat (msg_len e)) (msg e)"

definition ptr_text :: "c_ptr \<Rightarrow> string" where
  "ptr_text p = (case p of None \<Rightarrow> [] | Some m \<Rightarrow> c_str m)"

subsection \<open>Source locations\<close>

record SourceLocation =
  loc_file_path :: c_ptr
  loc_file_name :: c_ptr
  loc_function_name :: c_ptr
  loc_pretty_function :: c_ptr
  loc_line :: u32
  loc_column :: u32

definition is_separator :: "char \<Rightarrow> bool" where
  "is_separator c \<longleftrightarrow> c = CHR ''/'' \<or> c = CHR 0x5C"

text \<open>The loop of \<open>ExtractFilename\<close>: \<open>p\<close> runs to the terminator, \<open>name\<close> trails it.\<close>

fun ExtractFilename_loop :: "bytes \<Rightarrow> bytes \<Rightarrow> bytes option" where
  "ExtractFilename_loop name [] = None"
| "ExtractFilename_loop name (c # p) =
     (if c = NUL then Some name
      else if is_separator c then ExtractFilename_loop p p
      else ExtractFilename_loop name p)"

definition ExtractFilename :: "bytes \<Rightarrow> bytes option" where
  "ExtractFilename path = ExtractFilename_loop path path"

text \<open>
  \<open>BR_LOG_CURRENT_LOCATION()\<close> before C++20: the file macro, its file name, the two function
  names, the line and a zero column.
\<close>

definition current_location :: "bytes \<Rightarrow> bytes \<Rightarrow> bytes \<Rightarrow> u32 \<Rightarrow> SourceLocation option" where
  "current_location f fn pretty ln =
     do { name \<leftarrow> ExtractFilename f;
          Some \<lparr>loc_file_path = Some f, loc_file_name = Some name, loc_function_name = Some fn,
                loc_pretty_function = Some pretty, loc_line = ln, loc_column = 0\<rparr> }"

text \<open>
  The same macro from C++20 on, given what \<open>std::source_location::current()\<close> reports: the one function name
  serves for both fields, and there is a column.
\<close>

definition current_location_cxx20 :: "bytes \<Rightarrow> bytes \<Rightarrow> u32 \<Rightarrow> u32 \<Rightarrow> SourceLocation option" where
  "current_location_cxx20 f fn ln col =
     do { name \<leftarrow> ExtractFilename f;
          Some \<lparr>loc_file_path = Some f, loc_file_name = Some name, loc_function_name = Some fn,
                loc_pretty_function = Some fn, loc_line = ln, loc_column = col\<rparr> }"

text \<open>The reference: the part of a path after its last separator.\<close>

definition basename :: "string \<Rightarrow> string" where
  "basename s = rev (takeWhile (\<lambda>c. \<not> is_separator c) (rev s))"

lemma basename_id: "\<not> (\<exists>d\<in>set s. is_separator d) \<Longrightarrow> basename s = s"
  by (simp add: basename_def takeWhile_eq_all_conv [THEN iffD2])

lemma basename_Cons:
  "basename (c # s) = (if (\<exists>d\<in>set s. is_separator d) \<or> is_separator c then basename s else c # s)"
  by (auto simp: basename_def takeWhile_append takeWhile_eq_all_conv [THEN iffD2])

lemma is_separator_NUL [simp]: "\<not> is_separator NUL"
  by (simp add: is_separator_def)

lemma c_str_Cons: "c_str (c # m) = (if c = NUL then [] else c # c_str m)"
  by (simp add: c_str_def)

lemma terminated_Cons [simp]: "terminated (c # m) \<longleftrightarrow> c = NUL \<or> terminated m"
  by (auto simp: terminated_def)

lemma ExtractFilename_loop_correct:
  "terminated p \<Longrightarrow>
   \<exists>r. ExtractFilename_loop name p = Some r \<and>
       (if \<exists>d\<in>set (c_str p). is_separator d
        then terminated r \<and> c_str r = basename (c_str p) else r = name)"
proof (induction p arbitrary: name)
  case Nil
  then show ?case by (simp add: terminated_def)
next
  case (Cons c p)
  show ?case
  proof (cases "c = NUL")
    case True
    then show ?thesis by (simp add: c_str_Cons)
  next
    case False
    with Cons.prems have t: "terminated p" by simp
    show ?thesis
    proof (cases "is_separator c")
      case True
      obtain r where r: "ExtractFilename_loop p p = Some r"
        "if \<exists>d\<in>set (c_str p). is_separator d
         then terminated r \<and> c_str r = basename (c_str p) else r = p"
        using Cons.IH [OF t, of p] by blast
      with False t basename_id [of "c_str p"] show ?thesis
        by (auto simp: True c_str_Cons basename_Cons split: if_splits)
    next
      case no_sep: False
      with Cons.IH [OF t, of name] False show ?thesis
        by (auto simp: c_str_Cons basename_Cons split: if_splits)
    qed
  qed
qed

lemma ExtractFilename_correct:
  assumes "terminated path"
  shows "\<exists>r. ExtractFilename path = Some r \<and> terminated r \<and> c_str r = basename (c_str path)"
  using ExtractFilename_loop_correct [OF assms, of path] assms basename_id [of "c_str path"]
  by (auto simp: ExtractFilename_def split: if_splits)

lemma basename_no_separator: "c \<in> set (basename s) \<Longrightarrow> \<not> is_separator c"
  by (auto simp: basename_def dest: set_takeWhileD)

lemma locations_name_the_file:
  assumes "terminated f" "terminated fn" "terminated pretty"
  shows "\<exists>l. current_location f fn pretty ln = Some l \<and> ptr_text (loc_file_path l) = c_str f \<and>
      ptr_text (loc_file_name l) = basename (c_str f) \<and> wf_ptr (loc_file_name l)"
    and "\<exists>l. current_location_cxx20 f fn ln col = Some l \<and> ptr_text (loc_file_path l) = c_str f \<and>
      ptr_text (loc_file_name l) = basename (c_str f) \<and> wf_ptr (loc_file_name l)"
  using ExtractFilename_correct [OF assms(1)]
  by (auto simp: current_location_def current_location_cxx20_def ptr_text_def wf_ptr_def)

end
