(* ===== verification/Ring_Buffer.thy ===== *)
theory Ring_Buffer
  imports Prelude
begin

text \<open>
  \<open>MPSCRingBuffer<T, Capacity>\<close> of \<open>ring_buffer.hpp\<close>, as one thread at a time sees it: each
  operation runs to its end before the next begins. Interleavings of the atomic operations are
  the subject of \<open>Ring_Concurrent\<close>. Positions and slot sequence numbers are 32-bit words and
  wrap; the template parameter \<open>Capacity\<close> is the length of the slot array. The bytes of a slot
  that was never written are an arbitrary argument of the constructor.

  The loop of \<open>TryPush\<close> may run forever (see \<open>TryPush_full_wrapped\<close>): it is a
  \<open>partial_function\<close> whose value is \<open>None\<close> when it does not return.
\<close>

subsection \<open>State and operations\<close>

record 'a Slot =
  sequence :: u32
  slot_data :: 'a

record 'a MPSCRingBuffer =
  buffer :: "'a Slot list"
  write_pos :: u32
  read_pos :: u32

definition Capacity :: "'a MPSCRingBuffer \<Rightarrow> nat" where
  "Capacity rb = length (buffer rb)"

text \<open>\<open>pos & (Capacity - 1)\<close>, computed in \<open>size_t\<close>.\<close>

definition slot_index :: "nat \<Rightarrow> u32 \<Rightarrow> nat" where
  "slot_index cap pos = unat ((ucast pos :: u64) AND (of_nat cap - 1))"

definition slot_at :: "'a MPSCRingBuffer \<Rightarrow> u32 \<Rightarrow> 'a Slot" where
  "slot_at rb pos = buffer rb ! slot_index (Capacity rb) pos"

definition set_slot :: "'a MPSCRingBuffer \<Rightarrow> u32 \<Rightarrow> 'a Slot \<Rightarrow> 'a MPSCRingBuffer" where
  "set_slot rb pos s = rb\<lparr>buffer := (buffer rb)[slot_index (Capacity rb) pos := s]\<rparr>"

definition MPSCRingBuffer_init :: "'a list \<Rightarrow> 'a MPSCRingBuffer" where
  "MPSCRingBuffer_init junk =
     \<lparr>buffer = map (\<lambda>i. \<lparr>sequence = of_nat i, slot_data = junk ! i\<rparr>) [0..<length junk],
      write_pos = 0, read_pos = 0\<rparr>"

partial_function (option) TryPush_loop ::
  "'a MPSCRingBuffer \<Rightarrow> 'a \<Rightarrow> u32 \<Rightarrow> (bool \<times> 'a MPSCRingBuffer) option" where
  "TryPush_loop rb item pos =
     (let seq = sequence (slot_at rb pos) in
      if seq = pos then
        (if write_pos rb = pos then
           Some (True, set_slot (rb\<lparr>write_pos := pos + 1\<rparr>) pos
                         \<lparr>sequence = pos + 1, slot_data = item\<rparr>)
         else TryPush_loop rb item (write_pos rb))
      else if seq < pos then Some (False, rb)
      else TryPush_loop rb item (write_pos rb))"

definition TryPush :: "'a MPSCRingBuffer \<Rightarrow> 'a \<Rightarrow> (bool \<times> 'a MPSCRingBuffer) option" where
  "TryPush rb item = TryPush_loop rb item (write_pos rb)"

text \<open>The out-parameter and the result of \<open>TryPop\<close> as one \<open>option\<close>.\<close>

definition TryPop :: "'a MPSCRingBuffer \<Rightarrow> 'a option \<times> 'a MPSCRingBuffer" where
  "TryPop rb =
     (let slot = slot_at rb (read_pos rb) in
      if sequence slot = read_pos rb + 1
      then (Some (slot_data slot),
            (set_slot rb (read_pos rb) (slot\<lparr>sequence := read_pos rb + of_nat (Capacity rb)\<rparr>))
              \<lparr>read_pos := read_pos rb + 1\<rparr>)
      else (None, rb))"

definition ring_Empty :: "'a MPSCRingBuffer \<Rightarrow> bool" where
  "ring_Empty rb \<longleftrightarrow> sequence (slot_at rb (read_pos rb)) \<noteq> read_pos rb + 1"

subsection \<open>Well-formedness and contents\<close>

text \<open>
  The entries between the two positions, oldest first; and the meaning of the sequence numbers:
  the \<open>j\<close>-th slot from the read position carries its own position when it is free and one more
  when it holds an entry.
\<close>

definition ring_size :: "'a MPSCRingBuffer \<Rightarrow> nat" where
  "ring_size rb = unat (write_pos rb - read_pos rb)"

definition ring_list :: "'a MPSCRingBuffer \<Rightarrow> 'a list" where
  "ring_list rb = map (\<lambda>j. slot_data (slot_at rb (read_pos rb + of_nat j))) [0..<ring_size rb]"

definition slot_seq_ok :: "'a MPSCRingBuffer \<Rightarrow> nat \<Rightarrow> bool" where
  "slot_seq_ok rb j \<longleftrightarrow>
     sequence (slot_at rb (read_pos rb + of_nat j)) =
       read_pos rb + of_nat j + (if j < ring_size rb then 1 else 0)"

definition capacity_ok :: "nat \<Rightarrow> bool" where
  "capacity_ok cap \<longleftrightarrow> (\<exists>k\<in>{1..31}. cap = 2 ^ k)"

definition ring_wf :: "'a MPSCRingBuffer \<Rightarrow> bool" where
  "ring_wf rb \<longleftrightarrow> capacity_ok (Capacity rb) \<and> ring_size rb \<le> Capacity rb \<and>
     (\<forall>j<Capacity rb. slot_seq_ok rb j)"

subsection \<open>Slot arithmetic\<close>

lemma capacity_okD:
  assumes "capacity_ok cap"
  shows "2 \<le> cap" and "cap \<le> 2 ^ 31" and "cap dvd 2 ^ 32"
proof -
  from assms obtain k where k: "1 \<le> k" "k \<le> 31" "cap = 2 ^ k"
    by (auto simp: capacity_ok_def)
  have "(2::nat) ^ 1 \<le> 2 ^ k" using k(1) by (rule power_increasing) simp
  with k(3) show "2 \<le> cap" by simp
  have "(2::nat) ^ k \<le> 2 ^ 31" using k(2) by (rule power_increasing) simp
  with k(3) show "cap \<le> 2 ^ 31" by simp
  show "cap dvd 2 ^ 32" unfolding k(3) using k(2) by (intro le_imp_power_dvd) simp
qed

lemma slot_index_mod: "capacity_ok cap \<Longrightarrow> slot_index cap pos = unat pos mod cap"
  by (auto simp: capacity_ok_def slot_index_def unat_slot_mask [simplified])

lemma slot_index_less: "capacity_ok cap \<Longrightarrow> slot_index cap pos < cap"
  using capacity_okD(1) by (fastforce simp: slot_index_mod)

lemma unat_add_of_nat: "unat ((p :: u32) + of_nat j) = (unat p + j) mod 2 ^ 32"
  by (simp add: unat_word_ariths unat_of_nat mod_add_right_eq)

lemma slot_index_add:
  assumes "capacity_ok cap"
  shows "slot_index cap (p + of_nat j) = (unat p + j) mod cap"
  using capacity_okD(3) [OF assms] by (simp add: slot_index_mod [OF assms] unat_add_of_nat mod_mod_cancel)

lemma mod_add_inj:
  assumes "i < cap" "j < cap" "(a + i) mod cap = (a + j) mod (cap :: nat)"
  shows "i = j"
proof -
  obtain q r where "a + i + cap * q = a + j + cap * r"
    using assms(3) unfolding nat_mod_eq_iff by blast
  then have "i + cap * q = j + cap * r" by simp
  then have "i mod cap = j mod cap" unfolding nat_mod_eq_iff by blast
  with assms(1,2) show ?thesis by simp
qed

lemma of_nat_u32_inj: "i < 2 ^ 32 \<Longrightarrow> j < 2 ^ 32 \<Longrightarrow> (of_nat i :: u32) = of_nat j \<Longrightarrow> i = j"
  by (drule arg_cong [where f = unat]) (simp add: unat_of_nat)

lemma Capacity_set_slot [simp]: "Capacity (set_slot rb p s) = Capacity rb"
  by (simp add: Capacity_def set_slot_def)

lemma Capacity_update [simp]:
  "Capacity (rb\<lparr>write_pos := w\<rparr>) = Capacity rb" "Capacity (rb\<lparr>read_pos := r\<rparr>) = Capacity rb"
  by (simp_all add: Capacity_def)

lemma set_slot_fields [simp]:
  "write_pos (set_slot rb p s) = write_pos rb" "read_pos (set_slot rb p s) = read_pos rb"
  by (simp_all add: set_slot_def)

lemma slot_at_update [simp]:
  "slot_at (rb\<lparr>write_pos := w\<rparr>) p = slot_at rb p" "slot_at (rb\<lparr>read_pos := r\<rparr>) p = slot_at rb p"
  by (simp_all add: slot_at_def Capacity_def)

lemma slot_at_set_slot:
  "capacity_ok (Capacity rb) \<Longrightarrow>
   slot_at (set_slot rb p s) q =
     (if slot_index (Capacity rb) p = slot_index (Capacity rb) q then s else slot_at rb q)"
  using slot_index_less [of "Capacity rb" p]
  by (simp add: slot_at_def set_slot_def Capacity_def)

text \<open>Positions at different distances below the capacity use different slots.\<close>

lemma slot_index_add_eq:
  assumes "capacity_ok cap" "i < cap" "j < cap"
  shows "slot_index cap (p + of_nat i) = slot_index cap (p + of_nat j) \<longleftrightarrow> i = j"
  using mod_add_inj [OF assms(2,3)] by (auto simp: slot_index_add [OF assms(1)])

lemma slot_index_wrap:
  assumes "capacity_ok cap"
  shows "slot_index cap (p + of_nat cap) = slot_index cap p"
  using slot_index_add [OF assms, of p cap] slot_index_mod [OF assms, of p] by simp

lemma ring_wfD:
  assumes "ring_wf rb"
  shows "capacity_ok (Capacity rb)" and "ring_size rb \<le> Capacity rb"
    and "j < Capacity rb \<Longrightarrow> sequence (slot_at rb (read_pos rb + of_nat j)) =
           read_pos rb + of_nat j + (if j < ring_size rb then 1 else 0)"
  using assms by (auto simp: ring_wf_def slot_seq_ok_def)

lemma ring_size_less: "ring_wf rb \<Longrightarrow> ring_size rb < 2 ^ 32"
  using ring_wfD(2) capacity_okD(2) [OF ring_wfD(1)] by fastforce

lemma write_pos_eq: "write_pos rb = read_pos rb + of_nat (ring_size rb)"
  by (simp add: ring_size_def)

lemma length_ring_list [simp]: "length (ring_list rb) = ring_size rb"
  by (simp add: ring_list_def)

subsection \<open>The contract of a bounded first-in first-out queue\<close>

locale bounded_fifo =
  fixes wf :: "'q \<Rightarrow> bool"
    and cap :: "'q \<Rightarrow> nat"
    and contents :: "'q \<Rightarrow> 'a list"
    and push :: "'q \<Rightarrow> 'a \<Rightarrow> (bool \<times> 'q) option"
    and pop :: "'q \<Rightarrow> 'a option \<times> 'q"
  assumes contents_bound: "wf q \<Longrightarrow> length (contents q) \<le> cap q"
    and push_room: "wf q \<Longrightarrow> length (contents q) < cap q \<Longrightarrow>
          \<exists>q'. push q x = Some (True, q') \<and> wf q' \<and> cap q' = cap q \<and> contents q' = contents q @ [x]"
    and push_full: "wf q \<Longrightarrow> length (contents q) = cap q \<Longrightarrow> push q x = Some r \<Longrightarrow> r = (False, q)"
    and pop_Cons: "wf q \<Longrightarrow> contents q = x # xs \<Longrightarrow>
          \<exists>q'. pop q = (Some x, q') \<and> wf q' \<and> cap q' = cap q \<and> contents q' = xs"
    and pop_Nil: "wf q \<Longrightarrow> contents q = [] \<Longrightarrow> pop q = (None, q)"
begin

lemma pop_cases:
  assumes "wf q"
  shows "fst (pop q) = (case contents q of [] \<Rightarrow> None | x # _ \<Rightarrow> Some x)"
    and "wf (snd (pop q))" and "cap (snd (pop q)) = cap q"
    and "contents (snd (pop q)) = tl (contents q)"
proof -
  have "fst (pop q) = (case contents q of [] \<Rightarrow> None | x # _ \<Rightarrow> Some x) \<and> wf (snd (pop q)) \<and>
        cap (snd (pop q)) = cap q \<and> contents (snd (pop q)) = tl (contents q)"
  proof (cases "contents q")
    case Nil
    with pop_Nil [OF assms] assms show ?thesis by simp
  next
    case (Cons x xs)
    with pop_Cons [OF assms Cons] show ?thesis by auto
  qed
  then show "fst (pop q) = (case contents q of [] \<Rightarrow> None | x # _ \<Rightarrow> Some x)"
    and "wf (snd (pop q))" and "cap (snd (pop q)) = cap q"
    and "contents (snd (pop q)) = tl (contents q)"
    by auto
qed

lemma push_result:
  assumes "wf q" and "push q x = Some (ok, q')"
  shows "wf q'" and "cap q' = cap q" and "ok \<longleftrightarrow> length (contents q) < cap q"
    and "contents q' = (if ok then contents q @ [x] else contents q)"
proof -
  consider "length (contents q) < cap q" | "length (contents q) = cap q"
    using contents_bound [OF assms(1)] by linarith
  then have "wf q' \<and> cap q' = cap q \<and> (ok \<longleftrightarrow> length (contents q) < cap q) \<and>
      contents q' = (if ok then contents q @ [x] else contents q)"
  proof cases
    case 1
    with push_room [OF assms(1) 1, of x] assms(2) show ?thesis by auto
  next
    case 2
    with push_full [OF assms(1) 2 assms(2)] assms(1) show ?thesis by auto
  qed
  then show "wf q'" and "cap q' = cap q" and "ok \<longleftrightarrow> length (contents q) < cap q"
    and "contents q' = (if ok then contents q @ [x] else contents q)"
    by auto
qed

end

subsection \<open>The ring implements the contract\<close>

lemma ring_nth: "j < ring_size rb \<Longrightarrow> ring_list rb ! j = slot_data (slot_at rb (read_pos rb + of_nat j))"
  by (simp add: ring_list_def)

lemma TryPop_empty:
  assumes "ring_wf rb" and "ring_size rb = 0"
  shows "TryPop rb = (None, rb)"
proof -
  have "0 < Capacity rb" using capacity_okD(1) [OF ring_wfD(1) [OF assms(1)]] by simp
  from ring_wfD(3) [OF assms(1) this] assms(2) show ?thesis
    by (simp add: TryPop_def)
qed

lemma TryPop_seq:
  assumes "ring_wf rb" and "0 < ring_size rb"
  shows "sequence (slot_at rb (read_pos rb)) = read_pos rb + 1"
proof -
  have "0 < Capacity rb" using capacity_okD(1) [OF ring_wfD(1) [OF assms(1)]] by simp
  from ring_wfD(3) [OF assms(1) this] assms(2) show ?thesis by simp
qed

lemma ring_size_pop:
  assumes "ring_wf rb" and "0 < ring_size rb"
  shows "unat (write_pos rb - (read_pos rb + 1)) = ring_size rb - 1"
proof -
  have "write_pos rb - (read_pos rb + 1) = of_nat (ring_size rb - 1)"
    using assms(2) by (simp add: write_pos_eq [of rb] of_nat_diff)
  with ring_size_less [OF assms(1)] show ?thesis by (simp add: unat_of_nat)
qed

lemma TryPop_nonempty:
  assumes wf: "ring_wf rb" and ne: "0 < ring_size rb"
  shows "\<exists>rb'. TryPop rb = (Some (hd (ring_list rb)), rb') \<and> ring_wf rb' \<and>
           Capacity rb' = Capacity rb \<and> ring_list rb' = tl (ring_list rb)"
proof -
  let ?C = "Capacity rb" and ?r = "read_pos rb"
  let ?s = "(slot_at rb ?r)\<lparr>sequence := ?r + of_nat ?C\<rparr>"
  define rb' where "rb' = (set_slot rb ?r ?s)\<lparr>read_pos := ?r + 1\<rparr>"
  note cap = ring_wfD(1) [OF wf]
  have C2: "2 \<le> ?C" using capacity_okD(1) [OF cap] .
  have size': "ring_size rb' = ring_size rb - 1"
    using ring_size_pop [OF wf ne] by (simp add: ring_size_def rb'_def)
  have at: "slot_at rb' p = (if slot_index ?C ?r = slot_index ?C p then ?s else slot_at rb p)" for p
    by (simp add: rb'_def slot_at_set_slot [OF cap])
  have old: "slot_at rb' (?r + 1 + of_nat j) = slot_at rb (?r + of_nat (Suc j))" if "Suc j < ?C" for j
    using slot_index_add_eq [OF cap, of 0 "Suc j" ?r] that
    by (simp add: at add.assoc)
  have wrap: "slot_at rb' (?r + 1 + of_nat (?C - 1)) = ?s"
    using slot_index_wrap [OF cap, of ?r] C2 by (simp add: at of_nat_diff)
  have hd: "hd (ring_list rb) = slot_data (slot_at rb ?r)"
    using ring_nth [of 0 rb] ne by (simp add: hd_conv_nth flip: length_greater_0_conv)
  have "slot_seq_ok rb' j" if "j < ?C" for j
  proof (cases "Suc j < ?C")
    case True
    with ring_wfD(3) [OF wf True] old [OF True] size' show ?thesis
      by (auto simp: slot_seq_ok_def rb'_def add.assoc)
  next
    case False
    with that have "j = ?C - 1" by simp
    with wrap size' C2 ring_wfD(2) [OF wf] show ?thesis
      by (simp add: slot_seq_ok_def rb'_def of_nat_diff)
  qed
  with size' cap ring_wfD(2) [OF wf] have "ring_wf rb'"
    by (simp add: ring_wf_def) (simp add: rb'_def)
  moreover have "ring_list rb' = tl (ring_list rb)"
  proof (rule nth_equalityI)
    show "length (ring_list rb') = length (tl (ring_list rb))" by (simp add: size')
  next
    fix j assume "j < length (ring_list rb')"
    then have "Suc j < ring_size rb" "Suc j < ?C" using size' ring_wfD(2) [OF wf] by auto
    with old [of j] size' show "ring_list rb' ! j = tl (ring_list rb) ! j"
      by (simp add: ring_nth nth_tl) (simp add: rb'_def)
  qed
  ultimately show ?thesis
    using TryPop_seq [OF wf ne] hd by (auto simp: TryPop_def rb'_def Let_def)
qed

lemma TryPush_seq_room:
  assumes "ring_wf rb" and "ring_size rb < Capacity rb"
  shows "sequence (slot_at rb (write_pos rb)) = write_pos rb"
  using ring_wfD(3) [OF assms] by (simp add: write_pos_eq [of rb])

lemma TryPush_seq_full:
  assumes "ring_wf rb" and "ring_size rb = Capacity rb"
  shows "sequence (slot_at rb (write_pos rb)) = write_pos rb - of_nat (Capacity rb - 1)"
proof -
  note cap = ring_wfD(1) [OF assms(1)]
  have C: "0 < Capacity rb" using capacity_okD(1) [OF cap] by simp
  have "slot_at rb (write_pos rb) = slot_at rb (read_pos rb)"
    using slot_index_wrap [OF cap] assms(2) by (simp add: slot_at_def write_pos_eq [of rb])
  with TryPop_seq [OF assms(1)] assms(2) C show ?thesis
    by (simp add: write_pos_eq [of rb] of_nat_diff)
qed

lemma ring_size_push:
  assumes "ring_wf rb" and "ring_size rb < Capacity rb"
  shows "unat (write_pos rb + 1 - read_pos rb) = Suc (ring_size rb)"
proof -
  have "write_pos rb + 1 - read_pos rb = of_nat (Suc (ring_size rb))"
    by (simp add: write_pos_eq [of rb])
  moreover have "Suc (ring_size rb) < 2 ^ 32"
    using assms(2) capacity_okD(2) [OF ring_wfD(1) [OF assms(1)]] by simp
  ultimately show ?thesis by (simp add: unat_of_nat del: of_nat_Suc)
qed

lemma TryPush_room:
  assumes wf: "ring_wf rb" and room: "ring_size rb < Capacity rb"
  shows "\<exists>rb'. TryPush rb x = Some (True, rb') \<and> ring_wf rb' \<and> Capacity rb' = Capacity rb \<and>
           ring_list rb' = ring_list rb @ [x]"
proof -
  let ?C = "Capacity rb" and ?w = "write_pos rb" and ?r = "read_pos rb" and ?n = "ring_size rb"
  let ?s = "\<lparr>sequence = ?w + 1, slot_data = x\<rparr>"
  define rb' where "rb' = set_slot (rb\<lparr>write_pos := ?w + 1\<rparr>) ?w ?s"
  note cap = ring_wfD(1) [OF wf]
  have run: "TryPush rb x = Some (True, rb')"
    using TryPush_seq_room [OF wf room]
    by (simp add: TryPush_def TryPush_loop.simps [of rb x ?w] rb'_def Let_def)
  have size': "ring_size rb' = Suc ?n"
    using ring_size_push [OF wf room] by (simp add: ring_size_def rb'_def)
  have at: "slot_at rb' (?r + of_nat j) = (if j = ?n then ?s else slot_at rb (?r + of_nat j))"
    if "j < ?C" for j
    using slot_index_add_eq [OF cap room that, of ?r] slot_at_set_slot [of "rb\<lparr>write_pos := ?w + 1\<rparr>"] cap
    by (auto simp: rb'_def write_pos_eq [of rb])
  have fields [simp]: "read_pos rb' = ?r" "Capacity rb' = ?C" by (simp_all add: rb'_def)
  have "slot_seq_ok rb' j" if "j < ?C" for j
    using ring_wfD(3) [OF wf that] at [OF that] size' by (auto simp: slot_seq_ok_def write_pos_eq [of rb])
  with size' cap room have "ring_wf rb'" by (simp add: ring_wf_def)
  moreover have "ring_list rb' = ring_list rb @ [x]"
  proof (rule nth_equalityI)
    show "length (ring_list rb') = length (ring_list rb @ [x])" by (simp add: size')
  next
    fix j assume "j < length (ring_list rb')"
    with size' room have "j \<le> ?n" "j < ?C" by auto
    with at [of j] size' show "ring_list rb' ! j = (ring_list rb @ [x]) ! j"
      by (auto simp: ring_nth nth_append)
  qed
  ultimately show ?thesis using run by auto
qed

text \<open>
  On a full ring the slot at the write position still carries the number of the previous lap. The
  unsigned comparison sees it as smaller, and the push reports failure, unless the write position
  has just wrapped: then the stale number is the larger one and the loop reloads the same position
  for ever.
\<close>

lemma full_seq_less:
  assumes "capacity_ok cap"
  shows "(w :: u32) - of_nat (cap - 1) < w \<longleftrightarrow> cap - 1 \<le> unat w"
    and "w - of_nat (cap - 1) \<noteq> w"
proof -
  let ?d = "of_nat (cap - 1) :: u32"
  have d: "unat ?d = cap - 1" and pos: "0 < cap - 1"
    using capacity_okD(1,2) [OF assms] by (simp_all add: unat_of_nat del: of_nat_diff)
  show "w - ?d \<noteq> w" using d pos by auto
  show "w - ?d < w \<longleftrightarrow> cap - 1 \<le> unat w"
  proof (cases "?d \<le> w")
    case True
    then have "unat (w - ?d) = unat w - unat ?d" by (rule unat_sub)
    with True d pos show ?thesis by (simp add: word_less_nat_alt word_le_nat_alt)
  next
    case False
    then have "unat (w - ?d) = unat w + 2 ^ 32 - unat ?d"
      by (simp add: unat_sub_if_size word_size word_le_nat_alt)
    with False d pos show ?thesis
      using unsigned_less [of ?d, where ?'a = nat] by (simp add: word_less_nat_alt word_le_nat_alt)
  qed
qed

lemma TryPush_full:
  assumes "ring_wf rb" and "ring_size rb = Capacity rb" and "Capacity rb - 1 \<le> unat (write_pos rb)"
  shows "TryPush rb x = Some (False, rb)"
  using TryPush_seq_full [OF assms(1,2)] full_seq_less [OF ring_wfD(1) [OF assms(1)]] assms(3)
  by (simp add: TryPush_def TryPush_loop.simps [of rb x "write_pos rb"] Let_def)

lemma TryPush_loop_diverges:
  assumes ne: "sequence (slot_at rb (write_pos rb)) \<noteq> write_pos rb"
    and ge: "\<not> sequence (slot_at rb (write_pos rb)) < write_pos rb"
  shows "TryPush_loop rb x (write_pos rb) = None"
proof (rule ccontr)
  assume "TryPush_loop rb x (write_pos rb) \<noteq> None"
  then obtain r where ret: "TryPush_loop rb x (write_pos rb) = Some r" by blast
  have "rb = rb \<longrightarrow> write_pos rb = write_pos rb \<longrightarrow> False"
  proof (rule TryPush_loop.raw_induct [where P = "\<lambda>b i p r. b = rb \<longrightarrow> p = write_pos rb \<longrightarrow> False", OF _ ret])
    fix f b i p r
    assume IH: "\<And>b i p r. f b i p = Some r \<Longrightarrow> b = rb \<longrightarrow> p = write_pos rb \<longrightarrow> False"
      and eq: "(let seq = sequence (slot_at b p) in
        if seq = p then
          (if write_pos b = p then
             Some (True, set_slot (b\<lparr>write_pos := p + 1\<rparr>) p \<lparr>sequence = p + 1, slot_data = i\<rparr>)
           else f b i (write_pos b))
        else if seq < p then Some (False, b) else f b i (write_pos b)) = Some r"
    show "b = rb \<longrightarrow> p = write_pos rb \<longrightarrow> False"
      using eq ne ge IH [of b i "write_pos b" r] by (auto simp: Let_def split: if_splits)
  qed
  then show False by simp
qed

lemma TryPush_full_wrapped:
  assumes "ring_wf rb" and "ring_size rb = Capacity rb" and "unat (write_pos rb) < Capacity rb - 1"
  shows "TryPush rb x = None"
  unfolding TryPush_def
  using TryPush_seq_full [OF assms(1,2)] full_seq_less [OF ring_wfD(1) [OF assms(1)]] assms(3)
  by (intro TryPush_loop_diverges) auto

interpretation rbq: bounded_fifo ring_wf Capacity ring_list TryPush TryPop
proof unfold_locales
  fix q :: "'a MPSCRingBuffer" and x :: 'a and xs and r
  assume wf: "ring_wf q"
  from ring_wfD(2) [OF wf] show "length (ring_list q) \<le> Capacity q" by simp
  show "\<exists>q'. TryPush q x = Some (True, q') \<and> ring_wf q' \<and> Capacity q' = Capacity q \<and>
      ring_list q' = ring_list q @ [x]" if "length (ring_list q) < Capacity q"
    using TryPush_room [OF wf] that by simp
  show "r = (False, q)" if "length (ring_list q) = Capacity q" "TryPush q x = Some r"
    using that TryPush_full [OF wf, of x] TryPush_full_wrapped [OF wf, of x]
    by (cases "Capacity q - 1 \<le> unat (write_pos q)") auto
  show "\<exists>q'. TryPop q = (Some x, q') \<and> ring_wf q' \<and> Capacity q' = Capacity q \<and> ring_list q' = xs"
    if "ring_list q = x # xs"
    using TryPop_nonempty [OF wf] that length_ring_list [of q] by auto
  show "TryPop q = (None, q)" if "ring_list q = []"
    using TryPop_empty [OF wf] that length_ring_list [of q] by simp
qed

subsection \<open>Construction, emptiness\<close>

lemma slot_at_init:
  assumes "capacity_ok (length junk)" "j < length junk"
  shows "slot_at (MPSCRingBuffer_init junk) (of_nat j) = \<lparr>sequence = of_nat j, slot_data = junk ! j\<rparr>"
  using slot_index_add [OF assms(1), of 0 j] assms(2)
  by (simp add: slot_at_def MPSCRingBuffer_init_def Capacity_def)

lemma ring_wf_init [wf_intros]:
  assumes "capacity_ok (length junk)"
  shows "ring_wf (MPSCRingBuffer_init junk)"
  using assms slot_at_init [OF assms]
  by (simp add: ring_wf_def slot_seq_ok_def ring_size_def)
     (simp add: MPSCRingBuffer_init_def Capacity_def)

lemma ring_list_init [simp]: "ring_list (MPSCRingBuffer_init junk) = []"
  by (simp add: ring_list_def ring_size_def MPSCRingBuffer_init_def)

lemma Capacity_init [simp]: "Capacity (MPSCRingBuffer_init junk) = length junk"
  by (simp add: Capacity_def MPSCRingBuffer_init_def)

lemma ring_Empty_iff: "ring_wf rb \<Longrightarrow> ring_Empty rb \<longleftrightarrow> ring_list rb = []"
  using TryPop_seq [of rb] ring_wfD(3) [of rb 0] capacity_okD(1) [OF ring_wfD(1), of rb]
  by (cases "ring_size rb = 0") (auto simp: ring_Empty_def simp flip: length_0_conv)

subsection \<open>Sequences of operations: refinement of a bounded list queue\<close>

datatype 'a ring_op = Push 'a | Pop

datatype 'a ring_out = Pushed bool | Popped "'a option"

fun ring_run :: "'a MPSCRingBuffer \<Rightarrow> 'a ring_op list \<Rightarrow> ('a ring_out list \<times> 'a MPSCRingBuffer) option" where
  "ring_run rb [] = Some ([], rb)"
| "ring_run rb (Push x # ops) =
     do { (ok, rb1) \<leftarrow> TryPush rb x; (outs, rb2) \<leftarrow> ring_run rb1 ops; Some (Pushed ok # outs, rb2) }"
| "ring_run rb (Pop # ops) =
     do { (outs, rb2) \<leftarrow> ring_run (snd (TryPop rb)) ops; Some (Popped (fst (TryPop rb)) # outs, rb2) }"

text \<open>The specification: a list of at most \<open>cap\<close> entries.\<close>

fun fifo_run :: "nat \<Rightarrow> 'a list \<Rightarrow> 'a ring_op list \<Rightarrow> 'a ring_out list \<times> 'a list" where
  "fifo_run cap q [] = ([], q)"
| "fifo_run cap q (Push x # ops) =
     (let ok = length q < cap; (outs, q2) = fifo_run cap (if ok then q @ [x] else q) ops
      in (Pushed ok # outs, q2))"
| "fifo_run cap q (Pop # ops) =
     (let (outs, q2) = fifo_run cap (tl q) ops
      in (Popped (case q of [] \<Rightarrow> None | x # _ \<Rightarrow> Some x) # outs, q2))"

text \<open>Before the positions wrap for the first time, the read position does not pass the write position.\<close>

definition unwrapped :: "'a MPSCRingBuffer \<Rightarrow> bool" where
  "unwrapped rb \<longleftrightarrow> read_pos rb \<le> write_pos rb"

lemma unwrapped_size: "unwrapped rb \<Longrightarrow> ring_size rb \<le> unat (write_pos rb)"
  by (simp add: unwrapped_def ring_size_def unat_sub)

lemma write_pos_TryPush: "TryPush rb x = Some (ok, rb') \<Longrightarrow> ring_wf rb \<Longrightarrow>
    write_pos rb' = (if ok then write_pos rb + 1 else write_pos rb) \<and> read_pos rb' = read_pos rb"
  using TryPush_seq_room [of rb] rbq.push_full [of rb x "(ok, rb')"] ring_wfD(2) [of rb]
  by (cases "ring_size rb < Capacity rb")
     (auto simp: TryPush_def TryPush_loop.simps [of rb x "write_pos rb"] Let_def)

lemma unwrapped_TryPush:
  assumes "ring_wf rb" "unwrapped rb" "TryPush rb x = Some (ok, rb')" "unat (write_pos rb) + 1 < 2 ^ 32"
  shows "unwrapped rb'" and "unat (write_pos rb') \<le> unat (write_pos rb) + 1"
proof -
  have "unat (write_pos rb + 1) = unat (write_pos rb) + 1"
    using assms(4) by (simp add: unat_word_ariths)
  with write_pos_TryPush [OF assms(3,1)] assms(2)
  show "unwrapped rb'" and "unat (write_pos rb') \<le> unat (write_pos rb) + 1"
    by (auto simp: unwrapped_def word_le_nat_alt)
qed

lemma unwrapped_TryPop:
  assumes "ring_wf rb" "unwrapped rb"
  shows "unwrapped (snd (TryPop rb))" and "write_pos (snd (TryPop rb)) = write_pos rb"
proof -
  show w: "write_pos (snd (TryPop rb)) = write_pos rb" by (simp add: TryPop_def Let_def)
  show "unwrapped (snd (TryPop rb))"
  proof (cases "ring_size rb = 0")
    case True
    with TryPop_empty [OF assms(1)] assms(2) show ?thesis by simp
  next
    case False
    then have lt: "unat (read_pos rb) < unat (write_pos rb)"
      using unwrapped_size [OF assms(2)] assms(2)
      by (simp add: ring_size_def unwrapped_def unat_sub word_le_nat_alt)
    then have "unat (read_pos rb + 1) = unat (read_pos rb) + 1"
      using unsigned_less [of "write_pos rb", where ?'a = nat] by (simp add: unat_word_ariths)
    with lt w TryPop_seq [OF assms(1)] False show ?thesis
      by (simp add: TryPop_def Let_def unwrapped_def word_le_nat_alt)
  qed
qed

lemma TryPush_unwrapped_returns:
  assumes "ring_wf rb" "unwrapped rb"
  shows "\<exists>r. TryPush rb x = Some r"
proof (cases "ring_size rb < Capacity rb")
  case True
  then show ?thesis using TryPush_room [OF assms(1)] by blast
next
  case False
  with ring_wfD(2) [OF assms(1)] have "ring_size rb = Capacity rb" by simp
  with TryPush_full [OF assms(1)] unwrapped_size [OF assms(2)] show ?thesis by auto
qed

lemma ring_run_fifo:
  assumes "ring_wf rb" "unwrapped rb" "unat (write_pos rb) + length ops < 2 ^ 32"
  shows "map_option (\<lambda>(outs, rb'). (outs, ring_list rb')) (ring_run rb ops) =
           Some (fifo_run (Capacity rb) (ring_list rb) ops)"
  using assms
proof (induction ops arbitrary: rb)
  case Nil
  then show ?case by simp
next
  case (Cons op ops)
  show ?case
  proof (cases op)
    case (Push x)
    obtain ok rb1 where run: "TryPush rb x = Some (ok, rb1)"
      using TryPush_unwrapped_returns [OF Cons.prems(1,2), of x] by auto
    note res = rbq.push_result [OF Cons.prems(1) run]
    note unw = unwrapped_TryPush [OF Cons.prems(1,2) run]
    have "map_option (\<lambda>(outs, rb'). (outs, ring_list rb')) (ring_run rb1 ops) =
        Some (fifo_run (Capacity rb1) (ring_list rb1) ops)"
      using Cons.prems(3) unw by (intro Cons.IH res(1)) auto
    with Push run res show ?thesis
      by (auto simp: Let_def split: prod.splits)
  next
    case Pop
    note res = rbq.pop_cases [OF Cons.prems(1)]
    note unw = unwrapped_TryPop [OF Cons.prems(1,2)]
    have "map_option (\<lambda>(outs, rb'). (outs, ring_list rb')) (ring_run (snd (TryPop rb)) ops) =
        Some (fifo_run (Capacity rb) (tl (ring_list rb)) ops)"
      using Cons.IH [OF res(2) unw(1)] Cons.prems(3) res(3,4) unw(2) by simp
    with Pop res(1) show ?thesis
      by (auto split: prod.splits)
  qed
qed

subsection \<open>Properties\<close>


lemma capacity_ok_2: "capacity_ok 2"
  unfolding capacity_ok_def by (rule bexI [of _ 1]) simp_all


text \<open>
  C20: what a push does on a well-formed ring at any position, wrapped or not. With room it appends the
  entry. On a full ring it returns false and changes nothing, except in the \<open>Capacity - 1\<close> positions
  after the 32-bit write position has wrapped, where the loop does not return until a consumer makes room.
\<close>

theorem TryPush_every_branch:
  assumes "ring_wf rb"
  shows "if length (ring_list rb) < Capacity rb
         then \<exists>rb'. TryPush rb x = Some (True, rb') \<and> ring_wf rb' \<and> ring_list rb' = ring_list rb @ [x]
         else TryPush rb x = (if Capacity rb - 1 \<le> unat (write_pos rb) then Some (False, rb) else None)"
  using TryPush_room [OF assms, of x] TryPush_full [OF assms, of x] TryPush_full_wrapped [OF assms, of x]
    ring_wfD(2) [OF assms]
  by auto

definition wrapped_ring :: "nat MPSCRingBuffer" where
  "wrapped_ring = \<lparr>buffer = [\<lparr>sequence = 0xFFFFFFFF, slot_data = 5\<rparr>, \<lparr>sequence = 0, slot_data = 6\<rparr>],
                   write_pos = 0, read_pos = 0xFFFFFFFE\<rparr>"

lemma wrapped_ring_wf: "ring_wf wrapped_ring" "ring_list wrapped_ring = [5, 6]" "Capacity wrapped_ring = 2"
  by (simp_all add: ring_wf_def wrapped_ring_def Capacity_def capacity_ok_2 numeral_2_eq_2 [symmetric]
      ring_size_def ring_list_def slot_seq_ok_def slot_at_def slot_index_def less_2_cases_iff upt_rec)

theorem TryPush_every_branch_witness: "TryPush wrapped_ring 7 = None"
  using TryPush_every_branch [OF wrapped_ring_wf(1), of 7]
  by (simp add: wrapped_ring_wf(2,3)) (simp add: wrapped_ring_def)

text \<open>
  What a pop does on a well-formed ring at any position, wrapped or not: it returns the oldest entry
  and removes exactly that one, or reports emptiness and changes nothing; \<open>Empty()\<close> predicts which.
\<close>

lemma TryPop_every_branch:
  assumes "ring_wf rb"
  shows "case ring_list rb of
           [] \<Rightarrow> ring_Empty rb \<and> TryPop rb = (None, rb)
         | x # xs \<Rightarrow> \<not> ring_Empty rb \<and>
             (\<exists>rb'. TryPop rb = (Some x, rb') \<and> ring_wf rb' \<and> Capacity rb' = Capacity rb \<and> ring_list rb' = xs)"
  using rbq.pop_Cons [OF assms] rbq.pop_Nil [OF assms] ring_Empty_iff [OF assms]
  by (auto split: list.split)

lemma TryPop_every_branch_witness:
  "\<exists>rb'. TryPop wrapped_ring = (Some 5, rb') \<and> ring_wf rb' \<and> Capacity rb' = 2 \<and> ring_list rb' = [6]"
  using TryPop_every_branch [OF wrapped_ring_wf(1)] by (simp add: wrapped_ring_wf(2,3))

end
