(* ===== verification/Ring_Concurrent.thy ===== *)
theory Ring_Concurrent
  imports Ring_Buffer
begin

text \<open>
  The ring buffer under concurrency: any number of producer threads inside \<open>TryPush\<close> and one
  consumer inside \<open>TryPop\<close>, interleaved at every access to shared memory. Each rule of
  \<open>mpsc_step\<close> is one such access of the two methods, with the thread's local variables in its
  program counter; the compare-exchange is the weak one and may fail spuriously. Every load returns the
  latest value; \<open>Ring_Memory_Order\<close> keeps the invariant of this theory and lets loads be as stale as the
  memory orders of the source allow.

  Two history variables record what happened: \<open>claimed\<close> lists the entries in the order of the
  successful compare-exchanges, \<open>popped\<close> the entries \<open>TryPop\<close> returned. The invariant
  \<open>mpsc_inv\<close> is proved for runs that claim fewer than \<open>2 ^ 32\<close> positions, so that a position
  determines its entry.
\<close>

subsection \<open>Threads and steps\<close>

text \<open>
  A producer is outside \<open>TryPush\<close>, at the head of the loop with its local \<open>pos\<close>, past the
  load of the slot's sequence number, past the compare-exchange, or past the copy of the entry.
\<close>

datatype 'a producer =
    PIdle
  | PLoop 'a u32
  | PSeq 'a u32 u32
  | PClaimed 'a u32
  | PWritten 'a u32

text \<open>
  The consumer is outside \<open>TryPop\<close>, past the successful test of the sequence number, past the
  copy of the entry, or past the store that frees the slot.
\<close>

datatype 'a consumer =
    CIdle
  | CMatched
  | CCopied 'a
  | CReleased 'a

record 'a mpsc =
  ring :: "'a MPSCRingBuffer"
  prod :: "nat \<Rightarrow> 'a producer"
  cons :: "'a consumer"
  claimed :: "'a list"
  popped :: "'a list"

definition mpsc_init :: "'a list \<Rightarrow> 'a mpsc" where
  "mpsc_init junk = \<lparr>ring = MPSCRingBuffer_init junk, prod = (\<lambda>_. PIdle), cons = CIdle,
                     claimed = [], popped = []\<rparr>"

text \<open>The accesses that change shared memory, each followed by the thread's move to its next point.\<close>

definition goto :: "'a mpsc \<Rightarrow> nat \<Rightarrow> 'a producer \<Rightarrow> 'a mpsc" where
  "goto s t p = s\<lparr>prod := (prod s)(t := p)\<rparr>"

definition claim_pos :: "'a mpsc \<Rightarrow> nat \<Rightarrow> 'a \<Rightarrow> u32 \<Rightarrow> 'a mpsc" where
  "claim_pos s t x pos =
     s\<lparr>ring := (ring s)\<lparr>write_pos := pos + 1\<rparr>, claimed := claimed s @ [x],
       prod := (prod s)(t := PClaimed x pos)\<rparr>"

definition write_slot :: "'a mpsc \<Rightarrow> nat \<Rightarrow> 'a \<Rightarrow> u32 \<Rightarrow> 'a mpsc" where
  "write_slot s t x pos =
     s\<lparr>ring := set_slot (ring s) pos ((slot_at (ring s) pos)\<lparr>slot_data := x\<rparr>),
       prod := (prod s)(t := PWritten x pos)\<rparr>"

definition publish_slot :: "'a mpsc \<Rightarrow> nat \<Rightarrow> u32 \<Rightarrow> 'a mpsc" where
  "publish_slot s t pos =
     s\<lparr>ring := set_slot (ring s) pos ((slot_at (ring s) pos)\<lparr>sequence := pos + 1\<rparr>),
       prod := (prod s)(t := PIdle)\<rparr>"

definition release_slot :: "'a mpsc \<Rightarrow> 'a \<Rightarrow> 'a mpsc" where
  "release_slot s x =
     (let r = read_pos (ring s) in
      s\<lparr>ring := set_slot (ring s) r ((slot_at (ring s) r)\<lparr>sequence := r + of_nat (Capacity (ring s))\<rparr>),
        cons := CReleased x\<rparr>)"

definition advance_read :: "'a mpsc \<Rightarrow> 'a \<Rightarrow> 'a mpsc" where
  "advance_read s x =
     s\<lparr>ring := (ring s)\<lparr>read_pos := read_pos (ring s) + 1\<rparr>, cons := CIdle, popped := popped s @ [x]\<rparr>"

inductive mpsc_step :: "'a mpsc \<Rightarrow> 'a mpsc \<Rightarrow> bool" where
  load_pos: "prod s t = PIdle \<Longrightarrow> mpsc_step s (goto s t (PLoop x (write_pos (ring s))))"
| load_seq: "prod s t = PLoop x pos \<Longrightarrow>
     mpsc_step s (goto s t (PSeq x pos (sequence (slot_at (ring s) pos))))"
| cas_success: "prod s t = PSeq x pos pos \<Longrightarrow> write_pos (ring s) = pos \<Longrightarrow>
     mpsc_step s (claim_pos s t x pos)"
| cas_failure: "prod s t = PSeq x pos pos \<Longrightarrow>
     mpsc_step s (goto s t (PLoop x (write_pos (ring s))))"
| push_false: "prod s t = PSeq x pos seq \<Longrightarrow> seq \<noteq> pos \<Longrightarrow> seq < pos \<Longrightarrow>
     mpsc_step s (goto s t PIdle)"
| reload_pos: "prod s t = PSeq x pos seq \<Longrightarrow> seq \<noteq> pos \<Longrightarrow> \<not> seq < pos \<Longrightarrow>
     mpsc_step s (goto s t (PLoop x (write_pos (ring s))))"
| write_data: "prod s t = PClaimed x pos \<Longrightarrow> mpsc_step s (write_slot s t x pos)"
| publish: "prod s t = PWritten x pos \<Longrightarrow> mpsc_step s (publish_slot s t pos)"
| pop_match: "cons s = CIdle \<Longrightarrow> sequence (slot_at (ring s) (read_pos (ring s))) = read_pos (ring s) + 1 \<Longrightarrow>
     mpsc_step s (s\<lparr>cons := CMatched\<rparr>)"
| pop_false: "cons s = CIdle \<Longrightarrow> sequence (slot_at (ring s) (read_pos (ring s))) \<noteq> read_pos (ring s) + 1 \<Longrightarrow>
     mpsc_step s s"
| copy_data: "cons s = CMatched \<Longrightarrow>
     mpsc_step s (s\<lparr>cons := CCopied (slot_data (slot_at (ring s) (read_pos (ring s))))\<rparr>)"
| release: "cons s = CCopied x \<Longrightarrow> mpsc_step s (release_slot s x)"
| advance: "cons s = CReleased x \<Longrightarrow> mpsc_step s (advance_read s x)"

inductive mpsc_reachable :: "'a list \<Rightarrow> 'a mpsc \<Rightarrow> bool" for junk where
  start: "mpsc_reachable junk (mpsc_init junk)"
| step: "mpsc_reachable junk s \<Longrightarrow> mpsc_step s s' \<Longrightarrow> mpsc_reachable junk s'"

subsection \<open>The invariant\<close>

text \<open>How many positions the consumer has given back.\<close>

definition released :: "'a mpsc \<Rightarrow> nat" where
  "released s = length (popped s) + (case cons s of CReleased _ \<Rightarrow> 1 | _ \<Rightarrow> 0)"

text \<open>The position a producer owns between its compare-exchange and its publication.\<close>

fun owned :: "'a producer \<Rightarrow> (nat \<times> 'a \<times> bool) option" where
  "owned (PClaimed x pos) = Some (unat pos, x, False)"
| "owned (PWritten x pos) = Some (unat pos, x, True)"
| "owned _ = None"

abbreviation slotn :: "'a mpsc \<Rightarrow> nat \<Rightarrow> 'a Slot" where
  "slotn s p \<equiv> slot_at (ring s) (of_nat p)"

definition has_owner :: "'a mpsc \<Rightarrow> nat \<Rightarrow> 'a \<Rightarrow> bool" where
  "has_owner s p x \<longleftrightarrow> (\<exists>t w. owned (prod s t) = Some (p, x, w))"

definition inv_pos :: "'a mpsc \<Rightarrow> bool" where
  "inv_pos s \<longleftrightarrow> capacity_ok (Capacity (ring s)) \<and>
     write_pos (ring s) = of_nat (length (claimed s)) \<and> read_pos (ring s) = of_nat (length (popped s)) \<and>
     released s \<le> length (claimed s) \<and> length (claimed s) \<le> released s + Capacity (ring s) \<and>
     popped s = take (length (popped s)) (claimed s)"

definition slot_ok :: "'a mpsc \<Rightarrow> nat \<Rightarrow> bool" where
  "slot_ok s p \<longleftrightarrow>
     (if length (claimed s) \<le> p then sequence (slotn s p) = of_nat p
      else sequence (slotn s p) = of_nat p + 1 \<and> slot_data (slotn s p) = claimed s ! p \<or>
           sequence (slotn s p) = of_nat p \<and> has_owner s p (claimed s ! p))"

definition inv_slots :: "'a mpsc \<Rightarrow> bool" where
  "inv_slots s \<longleftrightarrow> (\<forall>p. released s \<le> p \<longrightarrow> p < released s + Capacity (ring s) \<longrightarrow> slot_ok s p)"

definition owned_ok :: "'a mpsc \<Rightarrow> nat \<Rightarrow> 'a \<Rightarrow> bool \<Rightarrow> bool" where
  "owned_ok s p x w \<longleftrightarrow> released s \<le> p \<and> p < length (claimed s) \<and> x = claimed s ! p \<and>
     sequence (slotn s p) = of_nat p \<and> (w \<longrightarrow> slot_data (slotn s p) = x)"

definition inv_owned :: "'a mpsc \<Rightarrow> bool" where
  "inv_owned s \<longleftrightarrow>
     (\<forall>t p x w. owned (prod s t) = Some (p, x, w) \<longrightarrow> owned_ok s p x w) \<and>
     (\<forall>t t' p x w x' w'. owned (prod s t) = Some (p, x, w) \<longrightarrow>
        owned (prod s t') = Some (p, x', w') \<longrightarrow> t = t')"

fun local_ok :: "'a mpsc \<Rightarrow> 'a producer \<Rightarrow> bool" where
  "local_ok s (PLoop x pos) = (unat pos \<le> length (claimed s))"
| "local_ok s (PSeq x pos seq) = (unat pos \<le> length (claimed s) \<and>
     (seq = pos \<longrightarrow> unat pos = length (claimed s) \<longrightarrow> unat pos < released s + Capacity (ring s)))"
| "local_ok s _ = True"

definition inv_local :: "'a mpsc \<Rightarrow> bool" where
  "inv_local s \<longleftrightarrow> (\<forall>t. local_ok s (prod s t))"

definition matched :: "'a mpsc \<Rightarrow> bool" where
  "matched s \<longleftrightarrow> length (popped s) < length (claimed s) \<and>
     sequence (slotn s (length (popped s))) = of_nat (length (popped s)) + 1"

fun cons_ok :: "'a mpsc \<Rightarrow> 'a consumer \<Rightarrow> bool" where
  "cons_ok s CIdle = True"
| "cons_ok s CMatched = matched s"
| "cons_ok s (CCopied x) = (matched s \<and> x = claimed s ! length (popped s))"
| "cons_ok s (CReleased x) = (x = claimed s ! length (popped s))"

definition inv_cons :: "'a mpsc \<Rightarrow> bool" where
  "inv_cons s \<longleftrightarrow> cons_ok s (cons s)"

definition mpsc_inv :: "'a mpsc \<Rightarrow> bool" where
  "mpsc_inv s \<longleftrightarrow> inv_pos s \<and> inv_slots s \<and> inv_owned s \<and> inv_local s \<and> inv_cons s"

lemmas inv_defs = inv_pos_def inv_slots_def inv_owned_def inv_local_def inv_cons_def

subsection \<open>Slot arithmetic on positions\<close>

lemma slot_index_of_nat: "capacity_ok cap \<Longrightarrow> slot_index cap (of_nat p) = p mod cap"
  using slot_index_add [of cap 0 p] by simp

lemma slotn_set_slot:
  "capacity_ok (Capacity rb) \<Longrightarrow>
   slot_at (set_slot rb (of_nat p) v) (of_nat q) =
     (if p mod Capacity rb = q mod Capacity rb then v else slot_at rb (of_nat q))"
  by (simp add: slot_at_set_slot slot_index_of_nat)

lemma window_inj:
  assumes "a \<le> p" "p < a + c" "a \<le> q" "q < a + (c :: nat)"
  shows "p mod c = q mod c \<longleftrightarrow> p = q"
proof
  assume "p mod c = q mod c"
  then have "p - a = q - a" using mod_add_inj [of "p - a" c "q - a" a] assms by simp
  with assms(1,3) show "p = q" by simp
qed simp

lemma window_exists:
  assumes "0 < c"
  shows "\<exists>q. a \<le> q \<and> q < a + c \<and> q mod c = p mod (c :: nat)"
proof -
  let ?q = "a + (p + c * a - a) mod c"
  have "a \<le> p + c * a" using assms by (cases c) auto
  then have "?q mod c = p mod c" by (simp add: mod_add_right_eq)
  with assms show ?thesis by (intro exI [of _ ?q]) simp
qed

lemma of_nat_unat_u32 [simp]: "of_nat (unat (w :: u32)) = w"
  by simp

lemma unat_of_nat_u32: "n < 2 ^ 32 \<Longrightarrow> unat (of_nat n :: u32) = n"
  by (simp add: unat_of_nat)

text \<open>What the slot of a position shows, whichever position of the window lives in it.\<close>

lemma next_slot_free_or_full:
  assumes "mpsc_inv s" and n: "n = length (claimed s)" and "n < 2 ^ 32"
  shows "if n < released s + Capacity (ring s) then sequence (slotn s n) = of_nat n
         else n = released s + Capacity (ring s) \<and>
              (sequence (slotn s n) = of_nat (released s) \<or> sequence (slotn s n) = of_nat (released s) + 1)"
proof (cases "n < released s + Capacity (ring s)")
  case True
  with assms have "slot_ok s n" by (auto simp: mpsc_inv_def inv_slots_def inv_pos_def)
  with True n show ?thesis by (simp add: slot_ok_def)
next
  case False
  let ?R = "released s" and ?C = "Capacity (ring s)"
  from assms have cap: "capacity_ok ?C" and le: "n \<le> ?R + ?C" by (auto simp: mpsc_inv_def inv_pos_def)
  with False have full: "n = ?R + ?C" by simp
  have C2: "2 \<le> ?C" using capacity_okD(1) [OF cap] .
  then have "slot_ok s ?R" using assms(1) by (simp add: mpsc_inv_def inv_slots_def)
  moreover have "slotn s n = slotn s ?R"
    by (simp add: slot_at_def slot_index_of_nat [OF cap] full del: of_nat_add)
  ultimately show ?thesis using full n C2 False by (auto simp: slot_ok_def)
qed

subsection \<open>Fields after a step\<close>

lemma goto_fields [simp]:
  "ring (goto s t p) = ring s" "cons (goto s t p) = cons s" "claimed (goto s t p) = claimed s"
  "popped (goto s t p) = popped s" "prod (goto s t p) = (prod s)(t := p)" "released (goto s t p) = released s"
  by (simp_all add: goto_def released_def)

lemma claim_pos_fields [simp]:
  "ring (claim_pos s t x pos) = (ring s)\<lparr>write_pos := pos + 1\<rparr>" "cons (claim_pos s t x pos) = cons s"
  "claimed (claim_pos s t x pos) = claimed s @ [x]" "popped (claim_pos s t x pos) = popped s"
  "prod (claim_pos s t x pos) = (prod s)(t := PClaimed x pos)" "released (claim_pos s t x pos) = released s"
  by (simp_all add: claim_pos_def released_def)

lemma write_slot_fields [simp]:
  "ring (write_slot s t x pos) = set_slot (ring s) pos ((slot_at (ring s) pos)\<lparr>slot_data := x\<rparr>)"
  "cons (write_slot s t x pos) = cons s" "claimed (write_slot s t x pos) = claimed s"
  "popped (write_slot s t x pos) = popped s" "prod (write_slot s t x pos) = (prod s)(t := PWritten x pos)"
  "released (write_slot s t x pos) = released s"
  by (simp_all add: write_slot_def released_def)

lemma publish_slot_fields [simp]:
  "ring (publish_slot s t pos) = set_slot (ring s) pos ((slot_at (ring s) pos)\<lparr>sequence := pos + 1\<rparr>)"
  "cons (publish_slot s t pos) = cons s" "claimed (publish_slot s t pos) = claimed s"
  "popped (publish_slot s t pos) = popped s" "prod (publish_slot s t pos) = (prod s)(t := PIdle)"
  "released (publish_slot s t pos) = released s"
  by (simp_all add: publish_slot_def released_def)

subsection \<open>Steps that touch only local variables\<close>

lemma mpsc_invD:
  assumes "mpsc_inv s"
  shows "inv_pos s" "inv_slots s" "inv_owned s" "inv_local s" "inv_cons s"
  using assms by (auto simp: mpsc_inv_def)

lemma mpsc_inv_goto:
  assumes "mpsc_inv s" and "owned (prod s t) = None" and "owned p = None" and "local_ok s p"
  shows "mpsc_inv (goto s t p)"
proof -
  have own: "owned (((prod s)(t := p)) u) = owned (prod s u)" for u
    using assms(2,3) by simp
  have loc: "local_ok (goto s t p) q = local_ok s q" for q
    by (cases q) simp_all
  have "cons_ok (goto s t p) c = cons_ok s c" for c
    by (cases c) (simp_all add: matched_def)
  with assms(1) have "inv_pos (goto s t p)" "inv_cons (goto s t p)"
    by (simp_all add: mpsc_inv_def inv_pos_def inv_cons_def)
  moreover have "slot_ok (goto s t p) q = slot_ok s q" for q
    by (simp add: slot_ok_def has_owner_def own del: fun_upd_apply)
  with assms(1) have "inv_slots (goto s t p)"
    by (simp add: mpsc_inv_def inv_slots_def)
  moreover have "inv_owned (goto s t p)"
    using assms(1) by (simp add: mpsc_inv_def inv_owned_def owned_ok_def own del: fun_upd_apply)
  moreover have "inv_local (goto s t p)"
    using assms(1,4) by (simp add: mpsc_inv_def inv_local_def loc)
  ultimately show ?thesis by (simp add: mpsc_inv_def)
qed

lemma local_ok_write_pos:
  assumes "mpsc_inv s" and "length (claimed s) < 2 ^ 32"
  shows "local_ok s (PLoop x (write_pos (ring s)))"
  using assms by (simp add: mpsc_inv_def inv_pos_def unat_of_nat_u32)

lemma local_ok_load_seq:
  assumes inv: "mpsc_inv s" and b: "length (claimed s) < 2 ^ 32" and pc: "prod s t = PLoop x pos"
  shows "local_ok s (PSeq x pos (sequence (slot_at (ring s) pos)))"
proof -
  let ?N = "length (claimed s)" and ?R = "released s" and ?C = "Capacity (ring s)"
  from inv pc have le: "unat pos \<le> ?N" by (metis inv_local_def local_ok.simps(1) mpsc_inv_def)
  have "unat pos < ?R + ?C" if eq: "sequence (slot_at (ring s) pos) = pos" and top: "unat pos = ?N"
  proof (rule ccontr)
    assume "\<not> unat pos < ?R + ?C"
    moreover have pos: "of_nat ?N = pos" using top by (metis of_nat_unat_u32)
    ultimately have full: "?N = ?R + ?C" and "pos = of_nat ?R \<or> pos = of_nat (?R + 1)"
      using next_slot_free_or_full [OF inv refl b] top eq by auto
    moreover have "2 \<le> ?C" using inv capacity_okD(1) by (auto simp: mpsc_inv_def inv_pos_def)
    ultimately have "unat pos = ?R \<or> unat pos = ?R + 1" and "?R + 1 < ?N"
      using b unat_of_nat_u32 [of ?R] unat_of_nat_u32 [of "?R + 1"] by auto
    with top show False by simp
  qed
  with le show ?thesis by simp
qed

subsection \<open>The compare-exchange\<close>

text \<open>A successful compare-exchange claims a free slot.\<close>

lemma cas_facts:
  assumes inv: "mpsc_inv s" and b: "Suc (length (claimed s)) < 2 ^ 32"
    and pc: "prod s t = PSeq x pos pos" and w: "write_pos (ring s) = pos"
  shows "pos = of_nat (length (claimed s))" "unat pos = length (claimed s)"
    and "length (claimed s) < released s + Capacity (ring s)"
    and "sequence (slotn s (length (claimed s))) = of_nat (length (claimed s))"
proof -
  show pos: "pos = of_nat (length (claimed s))"
    using mpsc_invD(1) [OF inv] w by (simp add: inv_pos_def)
  then show N: "unat pos = length (claimed s)" using b by (simp add: unat_of_nat_u32)
  show room: "length (claimed s) < released s + Capacity (ring s)"
    using mpsc_invD(4) [OF inv] pc N by (metis inv_local_def local_ok.simps(2))
  show "sequence (slotn s (length (claimed s))) = of_nat (length (claimed s))"
    using next_slot_free_or_full [OF inv refl] room b by simp
qed

lemma cas_owned:
  assumes "prod s t = PSeq x pos pos" and "unat pos = n"
  shows "owned (prod (claim_pos s t x pos) u) = (if u = t then Some (n, x, False) else owned (prod s u))"
  using assms by simp

lemma has_owner_cas:
  assumes "prod s t = PSeq x pos pos" and "unat pos = n"
  shows "has_owner (claim_pos s t x pos) p y \<longleftrightarrow> has_owner s p y \<or> p = n \<and> y = x"
  unfolding has_owner_def cas_owned [OF assms] using assms(1) by auto (metis option.distinct(1) owned.simps(5))

lemma cas_inv_slots:
  assumes inv: "mpsc_inv s" and b: "Suc (length (claimed s)) < 2 ^ 32"
    and pc: "prod s t = PSeq x pos pos" and w: "write_pos (ring s) = pos"
  shows "inv_slots (claim_pos s t x pos)"
  unfolding inv_slots_def
proof (intro allI impI)
  let ?s' = "claim_pos s t x pos" and ?N = "length (claimed s)"
  note facts = cas_facts [OF inv b pc w]
  note own = has_owner_cas [OF pc facts(2)]
  fix p assume "released ?s' \<le> p" "p < released ?s' + Capacity (ring ?s')"
  then have ok: "slot_ok s p" using mpsc_invD(2) [OF inv] by (simp add: inv_slots_def)
  consider "p = ?N" | "p < ?N" | "?N < p" by linarith
  then show "slot_ok ?s' p"
  proof cases
    case 1
    with facts(4) show ?thesis by (simp add: slot_ok_def own)
  next
    case 2
    with ok show ?thesis by (auto simp: slot_ok_def nth_append own)
  next
    case 3
    with ok show ?thesis by (simp add: slot_ok_def)
  qed
qed

lemma cas_inv_owned:
  assumes inv: "mpsc_inv s" and b: "Suc (length (claimed s)) < 2 ^ 32"
    and pc: "prod s t = PSeq x pos pos" and w: "write_pos (ring s) = pos"
  shows "inv_owned (claim_pos s t x pos)"
proof -
  let ?s' = "claim_pos s t x pos" and ?N = "length (claimed s)"
  note facts = cas_facts [OF inv b pc w]
  note own = cas_owned [OF pc facts(2)]
  from mpsc_invD(1) [OF inv] have "released s \<le> ?N" by (simp add: inv_pos_def)
  then have new: "owned_ok ?s' ?N x False" using facts(4) by (simp add: owned_ok_def)
  have old: "owned_ok ?s' p y v \<and> p < ?N" if "owned (prod s u) = Some (p, y, v)" for u p y v
    using mpsc_invD(3) [OF inv] that by (fastforce simp: inv_owned_def owned_ok_def nth_append)
  from old new mpsc_invD(3) [OF inv] show ?thesis
    unfolding inv_owned_def own by (auto split: if_splits)
qed

lemma cons_not_idle:
  assumes "mpsc_inv s" and "cons s \<noteq> CIdle"
  shows "length (popped s) < length (claimed s)"
  using assms by (cases "cons s") (auto simp: mpsc_inv_def inv_cons_def matched_def inv_pos_def released_def)

lemma mpsc_inv_cas_success:
  assumes inv: "mpsc_inv s" and b: "Suc (length (claimed s)) < 2 ^ 32"
    and pc: "prod s t = PSeq x pos pos" and w: "write_pos (ring s) = pos"
  shows "mpsc_inv (claim_pos s t x pos)"
proof -
  let ?s' = "claim_pos s t x pos"
  note facts = cas_facts [OF inv b pc w]
  have "length (popped s) \<le> length (claimed s)"
    using mpsc_invD(1) [OF inv] by (auto simp: inv_pos_def released_def)
  with mpsc_invD(1) [OF inv] facts(3) have "inv_pos ?s'" by (simp add: inv_pos_def facts(1))
  moreover have "local_ok ?s' q" if "local_ok s q" for q using that by (cases q) auto
  then have "inv_local ?s'" using mpsc_invD(4) [OF inv] by (simp add: inv_local_def)
  moreover have "inv_cons ?s'"
    using mpsc_invD(5) [OF inv] cons_not_idle [OF inv]
    by (cases "cons s") (auto simp: inv_cons_def matched_def nth_append)
  ultimately show ?thesis
    using cas_inv_slots [OF assms] cas_inv_owned [OF assms] by (simp add: mpsc_inv_def)
qed

subsection \<open>Writing and publishing an owned slot\<close>

lemma slotn_window:
  assumes "inv_pos s"
    and "released s \<le> p" "p < released s + Capacity (ring s)"
    and "released s \<le> q" "q < released s + Capacity (ring s)"
  shows "slot_at (set_slot (ring s) (of_nat p) v) (of_nat q) = (if p = q then v else slotn s q)"
  using assms window_inj [OF assms(2-5)] by (simp add: inv_pos_def slotn_set_slot)

text \<open>A producer that owns a position may rewrite the slot: nobody else is looking at it.\<close>

lemma owner_facts:
  assumes inv: "mpsc_inv s" and own: "owned (prod s t) = Some (p, x, w)"
  shows "owned_ok s p x w" and "p < released s + Capacity (ring s)"
    and "owned (prod s u) = Some (p, y, v) \<Longrightarrow> u = t"
  using mpsc_invD(1,3) [OF inv] own by (force simp: inv_owned_def owned_ok_def inv_pos_def)+

lemma matched_released:
  assumes "mpsc_inv s" and "cons s = CMatched \<or> (\<exists>x. cons s = CCopied x)"
  shows "released s = length (popped s)" and "matched s"
    and "length (popped s) < released s + Capacity (ring s)"
  using assms capacity_okD(1) [of "Capacity (ring s)"]
  by (auto simp: released_def mpsc_inv_def inv_cons_def inv_pos_def)

definition owner_step :: "'a mpsc \<Rightarrow> nat \<Rightarrow> nat \<Rightarrow> 'a Slot \<Rightarrow> 'a producer \<Rightarrow> 'a mpsc" where
  "owner_step s t p v pc = s\<lparr>ring := set_slot (ring s) (of_nat p) v, prod := (prod s)(t := pc)\<rparr>"

lemma owner_step_fields [simp]:
  "ring (owner_step s t p v pc) = set_slot (ring s) (of_nat p) v" "cons (owner_step s t p v pc) = cons s"
  "claimed (owner_step s t p v pc) = claimed s" "popped (owner_step s t p v pc) = popped s"
  "prod (owner_step s t p v pc) = (prod s)(t := pc)" "released (owner_step s t p v pc) = released s"
  by (simp_all add: owner_step_def released_def)

text \<open>The new slot either stays unpublished in the owner's hands or is published with the claimed entry.\<close>

definition owner_update_ok :: "nat \<Rightarrow> 'a \<Rightarrow> 'a Slot \<Rightarrow> 'a producer \<Rightarrow> bool" where
  "owner_update_ok p x v pc \<longleftrightarrow> slot_data v = x \<and>
     (owned pc = Some (p, x, True) \<and> sequence v = of_nat p \<or> owned pc = None \<and> sequence v = of_nat p + 1)"

lemma owner_step_slots:
  assumes inv: "mpsc_inv s" and own: "owned (prod s t) = Some (p, x, w)" and upd: "owner_update_ok p x v pc"
  shows "inv_slots (owner_step s t p v pc)"
  unfolding inv_slots_def
proof (intro allI impI)
  let ?s' = "owner_step s t p v pc"
  note facts = owner_facts [OF inv own]
  have win: "released s \<le> p" "p < released s + Capacity (ring s)" using facts by (auto simp: owned_ok_def)
  fix q assume "released ?s' \<le> q" "q < released ?s' + Capacity (ring ?s')"
  then have q: "released s \<le> q" "q < released s + Capacity (ring s)" by simp_all
  have slot: "slotn ?s' q = (if p = q then v else slotn s q)"
    using slotn_window [OF mpsc_invD(1) [OF inv] win q] by simp
  show "slot_ok ?s' q"
  proof (cases "q = p")
    case True
    have "has_owner ?s' p x" if "owned pc = Some (p, x, True)"
      using that by (auto simp: has_owner_def)
    with True slot upd facts(1) show ?thesis by (auto simp: slot_ok_def owner_update_ok_def owned_ok_def)
  next
    case False
    have "has_owner ?s' q y" if "has_owner s q y" for y
      using that own False by (auto simp: has_owner_def) (metis option.inject prod.inject)
    moreover have "slot_ok s q" using mpsc_invD(2) [OF inv] q by (simp add: inv_slots_def)
    ultimately show ?thesis using False slot by (auto simp: slot_ok_def)
  qed
qed

lemma owner_step_owned:
  assumes inv: "mpsc_inv s" and own: "owned (prod s t) = Some (p, x, w)" and upd: "owner_update_ok p x v pc"
  shows "inv_owned (owner_step s t p v pc)"
proof -
  let ?s' = "owner_step s t p v pc"
  note facts = owner_facts [OF inv own] and slot = slotn_window [OF mpsc_invD(1) [OF inv]]
  have win: "released s \<le> p" "p < released s + Capacity (ring s)" using facts by (auto simp: owned_ok_def)
  have new: "q = p \<and> owned_ok ?s' q y b" if "owned pc = Some (q, y, b)" for q y b
    using that upd facts(1) slot [OF win win] by (auto simp: owner_update_ok_def owned_ok_def)
  have old: "q \<noteq> p \<and> owned_ok ?s' q y b" if "owned (prod s u) = Some (q, y, b)" "u \<noteq> t" for u q y b
  proof -
    from that facts(3) have "q \<noteq> p" by blast
    with owner_facts [OF inv that(1)] slot [OF win, of q v] show ?thesis by (auto simp: owned_ok_def)
  qed
  have "owned_ok ?s' q y b" if "owned (prod ?s' u) = Some (q, y, b)" for u q y b
    using that new old by (cases "u = t") auto
  moreover have "u = u'"
    if "owned (prod ?s' u) = Some (q, y, b)" "owned (prod ?s' u') = Some (q, y', b')" for u u' q y b y' b'
    using that new old mpsc_invD(3) [OF inv] by (cases "u = t"; cases "u' = t") (auto simp: inv_owned_def)
  ultimately show ?thesis unfolding inv_owned_def by blast
qed

lemma owner_step_cons:
  assumes inv: "mpsc_inv s" and own: "owned (prod s t) = Some (p, x, w)"
  shows "inv_cons (owner_step s t p v pc)"
proof (cases "cons s = CMatched \<or> (\<exists>y. cons s = CCopied y)")
  case True
  note facts = owner_facts [OF inv own] and m = matched_released [OF inv True]
  have "p \<noteq> length (popped s)" using facts(1) m(2) by (auto simp: owned_ok_def matched_def)
  then have "slotn (owner_step s t p v pc) (length (popped s)) = slotn s (length (popped s))"
    using slotn_window [OF mpsc_invD(1) [OF inv], of p "length (popped s)" v] facts(1,2) m
    by (auto simp: owned_ok_def)
  with True mpsc_invD(5) [OF inv] show ?thesis by (auto simp: inv_cons_def matched_def)
next
  case False
  with mpsc_invD(5) [OF inv] show ?thesis by (cases "cons s") (auto simp: inv_cons_def)
qed

lemma mpsc_inv_owner_step:
  assumes inv: "mpsc_inv s" and own: "owned (prod s t) = Some (p, x, w)" and upd: "owner_update_ok p x v pc"
    and loc: "\<And>s. local_ok s pc"
  shows "mpsc_inv (owner_step s t p v pc)"
proof -
  have "local_ok (owner_step s t p v pc) q = local_ok s q" for q by (cases q) simp_all
  with loc mpsc_invD(4) [OF inv] have "inv_local (owner_step s t p v pc)" by (simp add: inv_local_def)
  moreover have "inv_pos (owner_step s t p v pc)" using mpsc_invD(1) [OF inv] by (simp add: inv_pos_def)
  ultimately show ?thesis
    using owner_step_slots [OF inv own upd] owner_step_owned [OF inv own upd] owner_step_cons [OF inv own]
    by (simp add: mpsc_inv_def)
qed

lemma mpsc_inv_write:
  assumes inv: "mpsc_inv s" and pc: "prod s t = PClaimed x pos"
  shows "mpsc_inv (write_slot s t x pos)"
proof -
  have own: "owned (prod s t) = Some (unat pos, x, False)" using pc by simp
  have eq: "write_slot s t x pos = owner_step s t (unat pos) ((slotn s (unat pos))\<lparr>slot_data := x\<rparr>) (PWritten x pos)"
    by (simp add: write_slot_def owner_step_def)
  show ?thesis unfolding eq
    using owner_facts(1) [OF inv own]
    by (intro mpsc_inv_owner_step [OF inv own]) (simp_all add: owner_update_ok_def owned_ok_def)
qed

lemma mpsc_inv_publish:
  assumes inv: "mpsc_inv s" and pc: "prod s t = PWritten x pos"
  shows "mpsc_inv (publish_slot s t pos)"
proof -
  have own: "owned (prod s t) = Some (unat pos, x, True)" using pc by simp
  have eq: "publish_slot s t pos = owner_step s t (unat pos) ((slotn s (unat pos))\<lparr>sequence := pos + 1\<rparr>) PIdle"
    by (simp add: publish_slot_def owner_step_def)
  show ?thesis unfolding eq
    using owner_facts(1) [OF inv own]
    by (intro mpsc_inv_owner_step [OF inv own]) (simp_all add: owner_update_ok_def owned_ok_def)
qed

subsection \<open>The consumer\<close>

lemma read_slot:
  assumes "mpsc_inv s"
  shows "slot_at (ring s) (read_pos (ring s)) = slotn s (length (popped s))"
  using mpsc_invD(1) [OF assms] by (simp add: inv_pos_def)

lemma mpsc_inv_cons_update:
  assumes inv: "mpsc_inv s" and c: "cons_ok s c"
    and idle: "\<And>x. cons s \<noteq> CReleased x" "\<And>x. c \<noteq> CReleased x"
  shows "mpsc_inv (s\<lparr>cons := c\<rparr>)"
proof -
  let ?s' = "s\<lparr>cons := c\<rparr>"
  have rel: "released ?s' = released s" using idle by (cases "cons s"; cases c) (auto simp: released_def)
  have "cons_ok ?s' d = cons_ok s d" for d by (cases d) (simp_all add: matched_def)
  moreover have "local_ok ?s' q = local_ok s q" for q by (cases q) (simp_all add: rel)
  moreover have "slot_ok ?s' q = slot_ok s q" for q by (simp add: slot_ok_def has_owner_def)
  moreover have "owned_ok ?s' q y b = owned_ok s q y b" for q y b by (simp add: owned_ok_def rel)
  ultimately show ?thesis using inv c
    by (simp add: mpsc_inv_def inv_pos_def inv_slots_def inv_owned_def inv_local_def inv_cons_def rel)
qed

lemma mpsc_inv_pop_match:
  assumes inv: "mpsc_inv s" and b: "length (claimed s) < 2 ^ 32" and pc: "cons s = CIdle"
    and seq: "sequence (slot_at (ring s) (read_pos (ring s))) = read_pos (ring s) + 1"
  shows "mpsc_inv (s\<lparr>cons := CMatched\<rparr>)"
proof -
  let ?r = "length (popped s)"
  note P = mpsc_invD(1) [OF inv]
  have rel: "released s = ?r" using pc by (simp add: released_def)
  have "2 \<le> Capacity (ring s)" using P capacity_okD(1) by (auto simp: inv_pos_def)
  then have ok: "slot_ok s ?r" using mpsc_invD(2) [OF inv] rel by (simp add: inv_slots_def)
  have s1: "sequence (slotn s ?r) = of_nat ?r + 1" using seq read_slot [OF inv] P by (simp add: inv_pos_def)
  have "?r < length (claimed s)" using ok s1 by (auto simp: slot_ok_def split: if_splits)
  with s1 have "matched s" by (simp add: matched_def)
  then show ?thesis by (intro mpsc_inv_cons_update [OF inv]) (simp_all add: pc)
qed

text \<open>What the consumer copies out of a matched slot is the entry claimed at that position.\<close>

lemma matched_data:
  assumes inv: "mpsc_inv s" and "cons s = CMatched"
  shows "slot_data (slotn s (length (popped s))) = claimed s ! length (popped s)"
proof -
  have m: "released s = length (popped s)" "matched s" "length (popped s) < released s + Capacity (ring s)"
    using matched_released [OF inv] assms(2) by simp_all
  then have "slot_ok s (length (popped s))" using mpsc_invD(2) [OF inv] by (simp add: inv_slots_def)
  with m(2) show ?thesis by (auto simp: slot_ok_def matched_def)
qed

lemma mpsc_inv_copy:
  assumes inv: "mpsc_inv s" and pc: "cons s = CMatched"
  shows "mpsc_inv (s\<lparr>cons := CCopied (slot_data (slot_at (ring s) (read_pos (ring s))))\<rparr>)"
  using mpsc_invD(5) [OF inv] matched_data [OF assms] pc
  by (intro mpsc_inv_cons_update [OF inv]) (simp_all add: read_slot [OF inv] inv_cons_def)

lemma release_slot_fields [simp]:
  "cons (release_slot s x) = CReleased x" "claimed (release_slot s x) = claimed s"
  "popped (release_slot s x) = popped s" "prod (release_slot s x) = prod s"
  "released (release_slot s x) = Suc (length (popped s))"
  "write_pos (ring (release_slot s x)) = write_pos (ring s)" "read_pos (ring (release_slot s x)) = read_pos (ring s)"
  "Capacity (ring (release_slot s x)) = Capacity (ring s)"
  by (simp_all add: release_slot_def released_def Let_def)

lemma slotn_release:
  assumes inv: "mpsc_inv s" and pc: "cons s = CCopied x"
    and q: "length (popped s) < q" "q \<le> length (popped s) + Capacity (ring s)"
  shows "slotn (release_slot s x) q =
    (if q = length (popped s) + Capacity (ring s)
     then (slotn s (length (popped s)))\<lparr>sequence := of_nat q\<rparr> else slotn s q)"
proof -
  let ?r = "length (popped s)" and ?C = "Capacity (ring s)"
  have cap: "capacity_ok ?C" and r: "read_pos (ring s) = of_nat ?r"
    using mpsc_invD(1) [OF inv] by (simp_all add: inv_pos_def)
  have "?r mod ?C = q mod ?C \<longleftrightarrow> q = ?r + ?C"
  proof (cases "q = ?r + ?C")
    case False
    with q window_inj [of ?r ?r ?C q] show ?thesis by auto
  qed simp
  then show ?thesis
    using slotn_set_slot [OF cap] by (simp add: release_slot_def Let_def r)
qed

lemma release_inv_slots:
  assumes inv: "mpsc_inv s" and pc: "cons s = CCopied x"
  shows "inv_slots (release_slot s x)"
  unfolding inv_slots_def
proof (intro allI impI)
  let ?s' = "release_slot s x" and ?r = "length (popped s)" and ?C = "Capacity (ring s)"
  have m: "released s = ?r" using matched_released [OF inv] pc by simp
  fix q assume "released ?s' \<le> q" "q < released ?s' + Capacity (ring ?s')"
  then have q: "?r < q" "q \<le> ?r + ?C" by simp_all
  note slot = slotn_release [OF inv pc q]
  show "slot_ok ?s' q"
  proof (cases "q = ?r + ?C")
    case True
    with mpsc_invD(1) [OF inv] m have "length (claimed s) \<le> q" by (simp add: inv_pos_def)
    with slot True show ?thesis by (simp add: slot_ok_def)
  next
    case False
    with q m mpsc_invD(2) [OF inv] have "slot_ok s q" by (simp add: inv_slots_def)
    with slot False show ?thesis by (auto simp: slot_ok_def has_owner_def)
  qed
qed

lemma release_inv_owned:
  assumes inv: "mpsc_inv s" and pc: "cons s = CCopied x"
  shows "inv_owned (release_slot s x)"
proof -
  let ?r = "length (popped s)"
  have m: "released s = ?r" "matched s" using matched_released [OF inv] pc by simp_all
  have "owned_ok (release_slot s x) p y w" if "owned (prod s t) = Some (p, y, w)" for t p y w
  proof -
    note facts = owner_facts(1,2) [OF inv that]
    have "p \<noteq> ?r" using facts(1) m(2) by (auto simp: owned_ok_def matched_def)
    with facts m(1) slotn_release [OF inv pc, of p] show ?thesis by (auto simp: owned_ok_def)
  qed
  with mpsc_invD(3) [OF inv] show ?thesis by (simp add: inv_owned_def)
qed

lemma mpsc_inv_release:
  assumes inv: "mpsc_inv s" and pc: "cons s = CCopied x"
  shows "mpsc_inv (release_slot s x)"
proof -
  let ?s' = "release_slot s x"
  have m: "released s = length (popped s)" "matched s" using matched_released [OF inv] pc by simp_all
  have "inv_pos ?s'" using mpsc_invD(1) [OF inv] m by (simp add: inv_pos_def matched_def)
  moreover have "local_ok ?s' q" if "local_ok s q" for q using that m(1) by (cases q) auto
  then have "inv_local ?s'" using mpsc_invD(4) [OF inv] by (simp add: inv_local_def)
  moreover have "inv_cons ?s'" using mpsc_invD(5) [OF inv] pc by (simp add: inv_cons_def)
  ultimately show ?thesis
    using release_inv_slots [OF assms] release_inv_owned [OF assms] by (simp add: mpsc_inv_def)
qed

lemma mpsc_inv_advance:
  assumes inv: "mpsc_inv s" and pc: "cons s = CReleased x"
  shows "mpsc_inv (advance_read s x)"
proof -
  let ?s' = "advance_read s x" and ?r = "length (popped s)"
  have x: "x = claimed s ! ?r" using mpsc_invD(5) [OF inv] pc by (simp add: inv_cons_def)
  have lt: "?r < length (claimed s)" using cons_not_idle [OF inv] pc by simp
  have f [simp]: "released ?s' = released s" "claimed ?s' = claimed s" "prod ?s' = prod s" "cons ?s' = CIdle"
    "popped ?s' = popped s @ [x]" "Capacity (ring ?s') = Capacity (ring s)" "slotn ?s' q = slotn s q" for q
    using pc by (simp_all add: released_def advance_read_def)
  have "popped s @ [x] = take (Suc ?r) (claimed s)"
    using mpsc_invD(1) [OF inv] lt x by (simp add: inv_pos_def take_Suc_conv_app_nth)
  moreover have "min (length (claimed s)) (Suc ?r) = Suc ?r" using lt by simp
  ultimately have "inv_pos ?s'" using mpsc_invD(1) [OF inv]
    by (simp add: inv_pos_def) (simp add: advance_read_def)
  moreover have "local_ok ?s' q = local_ok s q" for q by (cases q) simp_all
  moreover have "slot_ok ?s' q = slot_ok s q" for q by (simp add: slot_ok_def has_owner_def)
  moreover have "owned_ok ?s' q y b = owned_ok s q y b" for q y b by (simp add: owned_ok_def)
  ultimately show ?thesis using inv
    by (simp add: mpsc_inv_def inv_slots_def inv_owned_def inv_local_def inv_cons_def)
qed

subsection \<open>Every reachable state satisfies the invariant\<close>

lemma claimed_mono: "mpsc_step s s' \<Longrightarrow> length (claimed s) \<le> length (claimed s')"
  by (induction rule: mpsc_step.induct) (simp_all add: release_slot_def advance_read_def Let_def)

lemma mpsc_step_inv:
  assumes "mpsc_step s s'" and inv: "mpsc_inv s" and b: "length (claimed s') < 2 ^ 32"
  shows "mpsc_inv s'"
proof -
  have b0: "length (claimed s) < 2 ^ 32" using claimed_mono [OF assms(1)] b by simp
  note goto = mpsc_inv_goto [OF inv] and wp = local_ok_write_pos [OF inv b0]
  from assms(1) b show ?thesis
  proof cases
    case (load_pos t x)
    then show ?thesis using goto wp by simp
  next
    case (load_seq t x pos)
    then show ?thesis using goto local_ok_load_seq [OF inv b0] by (simp del: local_ok.simps)
  next
    case (cas_success t x pos)
    then show ?thesis using mpsc_inv_cas_success [OF inv] b by simp
  next
    case (cas_failure t x pos)
    then show ?thesis using goto wp by simp
  next
    case (push_false t x pos seq)
    then show ?thesis using goto by simp
  next
    case (reload_pos t x pos seq)
    then show ?thesis using goto wp by simp
  next
    case (write_data t x pos)
    then show ?thesis using mpsc_inv_write [OF inv] by simp
  next
    case (publish t x pos)
    then show ?thesis using mpsc_inv_publish [OF inv] by simp
  qed (use inv mpsc_inv_pop_match [OF inv b0] mpsc_inv_copy [OF inv] mpsc_inv_release [OF inv]
        mpsc_inv_advance [OF inv] in auto)
qed

lemma mpsc_inv_init:
  assumes "capacity_ok (length junk)"
  shows "mpsc_inv (mpsc_init junk)"
proof -
  let ?s = "mpsc_init junk"
  have f [simp]: "ring ?s = MPSCRingBuffer_init junk" "prod ?s = (\<lambda>_. PIdle)" "cons ?s = CIdle"
    "claimed ?s = []" "popped ?s = []" "released ?s = 0"
    by (simp_all add: mpsc_init_def released_def)
  have "inv_pos ?s" using assms by (simp add: inv_pos_def) (simp add: MPSCRingBuffer_init_def)
  then show ?thesis using slot_at_init [OF assms]
    by (simp add: mpsc_inv_def inv_slots_def slot_ok_def inv_owned_def inv_local_def inv_cons_def)
qed

lemma mpsc_reachable_inv:
  assumes "mpsc_reachable junk s" and "capacity_ok (length junk)" and "length (claimed s) < 2 ^ 32"
  shows "mpsc_inv s"
  using assms(1,3)
proof (induction rule: mpsc_reachable.induct)
  case start
  show ?case using mpsc_inv_init [OF assms(2)] .
next
  case (step s s')
  then show ?case using claimed_mono [OF step.hyps(2)] mpsc_step_inv [OF step.hyps(2)] by simp
qed

text \<open>An empty \<open>TryPop\<close>: everything was returned, or a producer owns the next position.\<close>

lemma pop_empty_pending:
  assumes inv: "mpsc_inv s" and idle: "cons s = CIdle"
    and seq: "sequence (slot_at (ring s) (read_pos (ring s))) \<noteq> read_pos (ring s) + 1"
  shows "popped s = claimed s \<or> (\<exists>t w. owned (prod s t) = Some (length (popped s), claimed s ! length (popped s), w))"
proof -
  let ?r = "length (popped s)"
  have rel: "released s = ?r" using idle by (simp add: released_def)
  have "2 \<le> Capacity (ring s)" using capacity_okD(1) mpsc_invD(1) [OF inv] by (auto simp: inv_pos_def)
  then have ok: "slot_ok s ?r" using mpsc_invD(2) [OF inv] rel by (simp add: inv_slots_def)
  have "sequence (slotn s ?r) \<noteq> of_nat ?r + 1"
    using seq read_slot [OF inv] mpsc_invD(1) [OF inv] by (simp add: inv_pos_def)
  with ok have "length (claimed s) \<le> ?r \<or> has_owner s ?r (claimed s ! ?r)"
    by (auto simp: slot_ok_def split: if_splits)
  moreover have "popped s = claimed s" if "length (claimed s) \<le> ?r"
    using mpsc_invD(1) [OF inv] that by (simp add: inv_pos_def)
  ultimately show ?thesis by (auto simp: has_owner_def)
qed

text \<open>
  A sequence number smaller than the position, the observation that makes \<open>TryPush\<close> return false: every slot is
  claimed and not yet given back.
\<close>

lemma push_false_full:
  assumes inv: "mpsc_inv s" and b: "length (claimed s) + Capacity (ring s) \<le> 2 ^ 32"
    and le: "unat pos \<le> length (claimed s)" and seq: "sequence (slot_at (ring s) pos) < pos"
  shows "length (claimed s) = released s + Capacity (ring s)"
proof (rule ccontr)
  let ?R = "released s" and ?C = "Capacity (ring s)" and ?N = "length (claimed s)"
  have cap: "capacity_ok ?C" using mpsc_invD(1) [OF inv] by (simp add: inv_pos_def)
  note C2 = capacity_okD(1) [OF cap]
  assume "?N \<noteq> ?R + ?C"
  with mpsc_invD(1) [OF inv] have lt: "?N < ?R + ?C" and RN: "?R \<le> ?N" by (simp_all add: inv_pos_def)
  obtain q where q: "?R \<le> q" "q < ?R + ?C" "q mod ?C = unat pos mod ?C"
    using window_exists [of ?C ?R "unat pos"] C2 by (metis not_numeral_le_zero neq0_conv)
  have "unat pos \<le> q" using q le lt window_inj [of ?R q ?C "unat pos"] by fastforce
  have "slot_at (ring s) pos = slotn s q"
    using q(3) unfolding slot_at_def
    by (simp only: slot_index_of_nat [OF cap] slot_index_mod [OF cap, of pos])
  moreover have "slot_ok s q" using mpsc_invD(2) [OF inv] q by (simp add: inv_slots_def)
  then have "sequence (slotn s q) = of_nat q \<or> q < ?N \<and> sequence (slotn s q) = of_nat (Suc q)"
    by (auto simp: slot_ok_def add.commute split: if_splits)
  then have "q \<le> unat (sequence (slotn s q))"
    using b q RN unat_of_nat_u32 [of q] unat_of_nat_u32 [of "Suc q"] C2 by (auto simp del: of_nat_Suc)
  ultimately show False using seq \<open>unat pos \<le> q\<close> by (simp add: word_less_nat_alt)
qed

subsection \<open>A method call that is not interrupted\<close>

text \<open>
  A thread that runs its method without interruption performs the call of the sequential model: the
  atomic operations of \<open>Ring_Buffer\<close> are among the interleavings.
\<close>

lemma claim_steps:
  assumes pc: "prod s t = PIdle" and w: "w = write_pos (ring s)"
    and free: "sequence (slot_at (ring s) w) = w"
  shows "mpsc_step\<^sup>*\<^sup>* s (claim_pos s t x w)"
proof -
  let ?s1 = "goto s t (PLoop x w)" and ?s2 = "goto (goto s t (PLoop x w)) t (PSeq x w w)"
  have "mpsc_step s ?s1" unfolding w by (rule load_pos [OF pc])
  moreover have "mpsc_step ?s1 ?s2" using load_seq [of ?s1 t x w] free by simp
  moreover have "mpsc_step ?s2 (claim_pos ?s2 t x w)" using w by (intro cas_success) simp_all
  moreover have "claim_pos ?s2 t x w = claim_pos s t x w"
    by (simp add: claim_pos_def goto_def)
  ultimately show ?thesis
    by (metis (no_types, lifting) converse_rtranclp_into_rtranclp rtranclp.rtrancl_refl)
qed

lemma solo_push_steps:
  assumes "prod s t = PIdle" and "w = write_pos (ring s)" and "sequence (slot_at (ring s) w) = w"
  shows "mpsc_step\<^sup>*\<^sup>* s (publish_slot (write_slot (claim_pos s t x w) t x w) t w)"
proof -
  have "mpsc_step (claim_pos s t x w) (write_slot (claim_pos s t x w) t x w)"
    by (intro write_data) simp
  moreover have "mpsc_step (write_slot (claim_pos s t x w) t x w)
      (publish_slot (write_slot (claim_pos s t x w) t x w) t w)"
    by (intro publish [where x = x]) simp
  ultimately show ?thesis
    using claim_steps [OF assms, of x] by (meson rtranclp.rtrancl_into_rtrancl)
qed

lemma solo_push_ring:
  assumes "capacity_ok (Capacity (ring s))" and w: "w = write_pos (ring s)"
    and "sequence (slot_at (ring s) w) = w"
  shows "TryPush (ring s) x =
    Some (True, ring (publish_slot (write_slot (claim_pos s t x w) t x w) t w))"
proof -
  have slot: "(slot_at (ring s) w)\<lparr>slot_data := x, sequence := w + 1\<rparr> = \<lparr>sequence = w + 1, slot_data = x\<rparr>"
    by simp
  have "ring (publish_slot (write_slot (claim_pos s t x w) t x w) t w) =
      set_slot ((ring s)\<lparr>write_pos := w + 1\<rparr>) w ((slot_at (ring s) w)\<lparr>slot_data := x, sequence := w + 1\<rparr>)"
    using assms(1) by (simp add: slot_at_set_slot) (simp add: set_slot_def Capacity_def)
  then show ?thesis using assms(2,3) unfolding slot
    by (simp add: TryPush_def TryPush_loop.simps [of "ring s" x "write_pos (ring s)"] Let_def)
qed

lemma solo_pop_steps:
  assumes pc: "cons s = CIdle" and r: "r = read_pos (ring s)"
    and full: "sequence (slot_at (ring s) r) = r + 1"
  shows "mpsc_step\<^sup>*\<^sup>* s (advance_read (release_slot s (slot_data (slot_at (ring s) r))) (slot_data (slot_at (ring s) r)))"
proof -
  let ?x = "slot_data (slot_at (ring s) r)"
  let ?s1 = "s\<lparr>cons := CMatched\<rparr>" and ?s2 = "s\<lparr>cons := CCopied ?x\<rparr>"
  have "mpsc_step s ?s1" using pop_match [OF pc] full r by simp
  moreover have "mpsc_step ?s1 ?s2" using copy_data [of ?s1] r by simp
  moreover have "mpsc_step ?s2 (release_slot ?s2 ?x)" by (intro release) simp
  moreover have "release_slot ?s2 ?x = release_slot s ?x" by (simp add: release_slot_def Let_def)
  moreover have "mpsc_step (release_slot s ?x) (advance_read (release_slot s ?x) ?x)" by (intro advance) simp
  ultimately show ?thesis
    by (metis (no_types, lifting) converse_rtranclp_into_rtranclp rtranclp.rtrancl_refl)
qed

lemma solo_pop_ring:
  assumes "r = read_pos (ring s)" and "sequence (slot_at (ring s) r) = r + 1" and "x = slot_data (slot_at (ring s) r)"
  shows "TryPop (ring s) = (Some x, ring (advance_read (release_slot s x) x))"
  using assms by (simp add: TryPop_def advance_read_def release_slot_def Let_def)

lemma mpsc_reachable_steps:
  "mpsc_step\<^sup>*\<^sup>* s s' \<Longrightarrow> mpsc_reachable junk s \<Longrightarrow> mpsc_reachable junk s'"
  by (induction rule: rtranclp_induct) (auto intro: mpsc_reachable.step)

lemma Capacity_reachable: "mpsc_reachable junk s \<Longrightarrow> Capacity (ring s) = length junk"
proof (induction rule: mpsc_reachable.induct)
  case start
  show ?case by (simp add: mpsc_init_def)
next
  case (step s s')
  from step.hyps(2) step.IH show ?case
    by (induction rule: mpsc_step.induct) (simp_all add: release_slot_def advance_read_def Let_def)
qed

subsection \<open>Between method calls\<close>

text \<open>
  When no thread is inside a method, the shared ring is a well-formed sequential ring that holds the
  claimed entries not yet returned, and the sequential \<open>TryPush\<close> and \<open>TryPop\<close> describe what the
  next uninterrupted call does.
\<close>

definition quiescent :: "'a mpsc \<Rightarrow> bool" where
  "quiescent s \<longleftrightarrow> (\<forall>t. prod s t = PIdle) \<and> cons s = CIdle"

lemma quiescentD:
  assumes "quiescent s"
  shows "prod s t = PIdle" and "cons s = CIdle" and "released s = length (popped s)" and "\<not> has_owner s p x"
  using assms by (simp_all add: quiescent_def released_def has_owner_def)

lemma quiescent_size:
  assumes inv: "mpsc_inv s" and q: "quiescent s"
  shows "ring_size (ring s) = length (claimed s) - length (popped s)"
    and "length (popped s) \<le> length (claimed s)"
    and "length (claimed s) \<le> length (popped s) + Capacity (ring s)"
proof -
  note P = mpsc_invD(1) [OF inv, unfolded inv_pos_def quiescentD(3) [OF q]]
  then show le: "length (popped s) \<le> length (claimed s)"
    and ub: "length (claimed s) \<le> length (popped s) + Capacity (ring s)" by blast+
  from P have wr: "write_pos (ring s) = of_nat (length (claimed s))"
    "read_pos (ring s) = of_nat (length (popped s))" by blast+
  have "Capacity (ring s) \<le> 2 ^ 31" using P capacity_okD(2) by blast
  then have "length (claimed s) - length (popped s) < 2 ^ 32" using ub by simp
  then have "unat (of_nat (length (claimed s) - length (popped s)) :: u32) = length (claimed s) - length (popped s)"
    by (rule unat_of_nat_u32)
  then show "ring_size (ring s) = length (claimed s) - length (popped s)"
    using le by (simp add: ring_size_def wr of_nat_diff)
qed

lemma quiescent_slot:
  assumes inv: "mpsc_inv s" and q: "quiescent s" and j: "j < Capacity (ring s)"
  shows "sequence (slotn s (length (popped s) + j)) =
           of_nat (length (popped s) + j) + (if j < ring_size (ring s) then 1 else 0)"
    and "j < ring_size (ring s) \<Longrightarrow> slot_data (slotn s (length (popped s) + j)) = claimed s ! (length (popped s) + j)"
proof -
  have "slot_ok s (length (popped s) + j)"
    using mpsc_invD(2) [OF inv] j by (simp add: inv_slots_def quiescentD(3) [OF q])
  moreover have "j < ring_size (ring s) \<longleftrightarrow> length (popped s) + j < length (claimed s)"
    using quiescent_size(1) [OF inv q] by auto
  ultimately show "sequence (slotn s (length (popped s) + j)) =
           of_nat (length (popped s) + j) + (if j < ring_size (ring s) then 1 else 0)"
    and "j < ring_size (ring s) \<Longrightarrow> slot_data (slotn s (length (popped s) + j)) = claimed s ! (length (popped s) + j)"
    by (auto simp: slot_ok_def quiescentD(4) [OF q] simp del: of_nat_add split: if_splits)
qed

lemma quiescent_ring:
  assumes inv: "mpsc_inv s" and q: "quiescent s"
  shows "ring_wf (ring s)" and "ring_list (ring s) = drop (length (popped s)) (claimed s)"
proof -
  have cap: "capacity_ok (Capacity (ring s))" and rp: "read_pos (ring s) = of_nat (length (popped s))"
    using mpsc_invD(1) [OF inv] by (simp_all add: inv_pos_def)
  note size = quiescent_size [OF inv q]
  have "slot_seq_ok (ring s) j" if "j < Capacity (ring s)" for j
    using quiescent_slot(1) [OF inv q that] by (simp add: slot_seq_ok_def rp)
  then show "ring_wf (ring s)" using cap size by (simp add: ring_wf_def)
  show "ring_list (ring s) = drop (length (popped s)) (claimed s)"
  proof (rule nth_equalityI)
    show "length (ring_list (ring s)) = length (drop (length (popped s)) (claimed s))" by (simp add: size(1))
    fix j assume "j < length (ring_list (ring s))"
    then have j: "j < ring_size (ring s)" by simp
    with size have "j < Capacity (ring s)" by simp
    from quiescent_slot(2) [OF inv q this j] j size show "ring_list (ring s) ! j = drop (length (popped s)) (claimed s) ! j"
      by (simp add: ring_nth rp)
  qed
qed

subsection \<open>Concrete runs\<close>

text \<open>A ring of two slots: one push by thread 1, then one by thread 2.\<close>

definition demo_one :: "nat mpsc" where
  "demo_one = \<lparr>ring = \<lparr>buffer = [\<lparr>sequence = 1, slot_data = 5\<rparr>, \<lparr>sequence = 1, slot_data = 7\<rparr>],
                       write_pos = 1, read_pos = 0\<rparr>,
               prod = (\<lambda>_. PIdle), cons = CIdle, claimed = [5], popped = []\<rparr>"

definition demo_two :: "nat mpsc" where
  "demo_two = \<lparr>ring = \<lparr>buffer = [\<lparr>sequence = 1, slot_data = 5\<rparr>, \<lparr>sequence = 2, slot_data = 6\<rparr>],
                       write_pos = 2, read_pos = 0\<rparr>,
               prod = (\<lambda>_. PIdle), cons = CIdle, claimed = [5, 6], popped = []\<rparr>"

lemmas demo_eval = slot_at_def Capacity_def slot_index_mod [OF capacity_ok_2] set_slot_def
  publish_slot_def write_slot_def claim_pos_def release_slot_def advance_read_def Let_def fun_eq_iff

lemma demo_one_reachable: "mpsc_reachable [7, 7] demo_one"
proof -
  let ?s = "mpsc_init [7, 7::nat]"
  have "publish_slot (write_slot (claim_pos ?s 1 5 0) 1 5 0) 1 0 = demo_one"
    by (simp add: demo_one_def mpsc_init_def MPSCRingBuffer_init_def demo_eval upt_rec numeral_2_eq_2 [symmetric])
  then have "mpsc_step\<^sup>*\<^sup>* ?s demo_one"
    using solo_push_steps [of ?s 1 0 5]
    by (simp add: mpsc_init_def MPSCRingBuffer_init_def demo_eval upt_rec numeral_2_eq_2 [symmetric])
  then show ?thesis by (rule mpsc_reachable_steps) (rule mpsc_reachable.start)
qed

lemma demo_two_reachable: "mpsc_reachable [7, 7] demo_two"
proof -
  have "publish_slot (write_slot (claim_pos demo_one 2 6 1) 2 6 1) 2 1 = demo_two"
    by (simp add: demo_one_def demo_two_def demo_eval numeral_2_eq_2 [symmetric])
  then have "mpsc_step\<^sup>*\<^sup>* demo_one demo_two"
    using solo_push_steps [of demo_one 2 1 6]
    by (simp add: demo_one_def demo_eval numeral_2_eq_2 [symmetric])
  then show ?thesis by (rule mpsc_reachable_steps) (rule demo_one_reachable)
qed

subsection \<open>Properties\<close>

text \<open>
  Under every interleaving of any number of producers with the consumer, the entries the consumer has
  returned are exactly the first entries claimed, in the order of the successful compare-exchanges:
  nothing is lost, duplicated, reordered or invented, and at most \<open>Capacity\<close> claimed positions have
  not been given back.
\<close>

lemma mpsc_fifo:
  assumes "mpsc_reachable junk s" and "capacity_ok (length junk)" and "length (claimed s) < 2 ^ 32"
  shows "popped s = take (length (popped s)) (claimed s) \<and>
         length (claimed s) \<le> released s + length junk"
  using mpsc_invD(1) [OF mpsc_reachable_inv [OF assms]] Capacity_reachable [OF assms(1)]
  by (simp add: inv_pos_def)

lemma mpsc_fifo_witness:
  "\<exists>s. mpsc_reachable [7, 7::nat] s \<and> claimed s = [5, 6] \<and> popped s = [5] \<and>
       popped s = take (length (popped s)) (claimed s) \<and> length (claimed s) \<le> released s + 2"
proof -
  let ?s = "advance_read (release_slot demo_two 5) 5"
  have "mpsc_step\<^sup>*\<^sup>* demo_two ?s"
    using solo_pop_steps [of demo_two 0] by (simp add: demo_two_def demo_eval numeral_2_eq_2 [symmetric])
  then have r: "mpsc_reachable [7, 7] ?s" by (rule mpsc_reachable_steps) (rule demo_two_reachable)
  have f: "claimed ?s = [5, 6]" "popped ?s = [5]" by (simp_all add: demo_two_def demo_eval)
  from mpsc_fifo [OF r] f have "popped ?s = take (length (popped ?s)) (claimed ?s) \<and>
      length (claimed ?s) \<le> released ?s + 2"
    by (simp add: capacity_ok_2 numeral_2_eq_2 [symmetric])
  with r f show ?thesis by blast
qed


text \<open>
  No data race on an entry. While the consumer copies an entry out of a slot no producer is about to
  write that slot, and two producers never write the same slot at the same time.
\<close>

lemma mpsc_race_free:
  assumes "mpsc_reachable junk s" and "capacity_ok (length junk)" and "length (claimed s) < 2 ^ 32"
    and "prod s t = PClaimed x pos"
  shows "(cons s = CMatched \<longrightarrow>
            slot_index (length junk) pos \<noteq> slot_index (length junk) (read_pos (ring s))) \<and>
         (\<forall>u y pos'. u \<noteq> t \<longrightarrow> prod s u = PClaimed y pos' \<longrightarrow>
            slot_index (length junk) pos \<noteq> slot_index (length junk) pos')"
proof -
  note inv = mpsc_reachable_inv [OF assms(1-3)] and cap = Capacity_reachable [OF assms(1)]
  have own: "owned (prod s t) = Some (unat pos, x, False)" using assms(4) by simp
  note facts = owner_facts [OF inv own]
  have idx: "slot_index (length junk) w = unat w mod length junk" for w
    by (rule slot_index_mod [OF assms(2)])
  have "unat pos mod length junk \<noteq> length (popped s) mod length junk" if c: "cons s = CMatched"
  proof -
    have m: "released s = length (popped s)" "matched s" using matched_released [OF inv] c by simp_all
    have "unat pos \<noteq> length (popped s)"
    proof
      assume "unat pos = length (popped s)"
      then have "sequence (slotn s (length (popped s))) = of_nat (length (popped s))"
        using facts(1) unfolding owned_ok_def by metis
      with m(2) show False by (simp add: matched_def)
    qed
    with window_inj [of "released s" "unat pos" "length junk" "length (popped s)"] facts m
      matched_released(3) [OF inv] c cap show ?thesis by (auto simp: owned_ok_def)
  qed
  moreover have "slot_index (length junk) (read_pos (ring s)) = length (popped s) mod length junk"
    using mpsc_invD(1) [OF inv] by (simp add: inv_pos_def slot_index_of_nat [OF assms(2)])
  moreover have "unat pos mod length junk \<noteq> unat pos' mod length junk"
    if "u \<noteq> t" "prod s u = PClaimed y pos'" for u y pos'
  proof -
    have own': "owned (prod s u) = Some (unat pos', y, False)" using that(2) by simp
    note facts' = owner_facts [OF inv own']
    from that(1) facts(3) own' have "unat pos \<noteq> unat pos'" by metis
    with window_inj [of "released s" "unat pos" "length junk" "unat pos'"] facts facts' cap
    show ?thesis by (auto simp: owned_ok_def)
  qed
  ultimately show ?thesis by (auto simp: idx)
qed

lemma mpsc_race_free_witness:
  "\<exists>s. mpsc_reachable [7, 7::nat] s \<and> prod s 2 = PClaimed 6 1 \<and> cons s = CMatched \<and>
       slot_index 2 1 \<noteq> slot_index 2 (read_pos (ring s))"
proof -
  let ?s1 = "claim_pos demo_one 2 6 1"
  let ?s = "?s1\<lparr>cons := CMatched\<rparr>"
  have "mpsc_step\<^sup>*\<^sup>* demo_one ?s1"
    using claim_steps [of demo_one 2 1 6] by (simp add: demo_one_def demo_eval numeral_2_eq_2 [symmetric])
  moreover have "mpsc_step ?s1 ?s"
    by (rule pop_match) (simp_all add: demo_one_def demo_eval numeral_2_eq_2 [symmetric])
  ultimately have r: "mpsc_reachable [7, 7] ?s"
    using mpsc_reachable_steps [OF _ demo_one_reachable] by (blast intro: mpsc_reachable.step)
  have f: "prod ?s 2 = PClaimed 6 1" "cons ?s = CMatched" "length (claimed ?s) < 2 ^ 32"
    by (simp_all add: demo_one_def)
  from mpsc_race_free [OF r _ f(3,1)] f(2) have "slot_index 2 1 \<noteq> slot_index 2 (read_pos (ring ?s))"
    by (simp add: capacity_ok_2 numeral_2_eq_2 [symmetric])
  with r f show ?thesis by blast
qed


text \<open>
  \<open>TryPush\<close> gives up only on a full ring. At the moment a producer loads a sequence number
  smaller than its position, the observation that makes it return false, all slots of the ring are
  claimed and not yet given back. (This is about loads that return the latest value; what a stale load may
  do is in \<open>Ring_Memory_Order\<close>.)
\<close>

lemma mpsc_push_false_only_when_full:
  assumes "mpsc_reachable junk s" and "capacity_ok (length junk)"
    and b: "length (claimed s) + length junk \<le> 2 ^ 32"
    and pc: "prod s t = PLoop x pos" and seq: "sequence (slot_at (ring s) pos) < pos"
  shows "length (claimed s) = released s + length junk"
proof -
  note cap = Capacity_reachable [OF assms(1)]
  have inv: "mpsc_inv s" using b capacity_okD(1) [OF assms(2)] by (intro mpsc_reachable_inv [OF assms(1,2)]) simp
  have "unat pos \<le> length (claimed s)" using mpsc_invD(4) [OF inv] pc by (metis inv_local_def local_ok.simps(1))
  with push_false_full [OF inv _ _ seq] b cap show ?thesis by simp
qed

lemma mpsc_push_false_only_when_full_witness:
  "\<exists>s. mpsc_reachable [7, 7::nat] s \<and> prod s 1 = PLoop 9 2 \<and> sequence (slot_at (ring s) 2) < 2 \<and>
       length (claimed s) = released s + 2"
proof -
  let ?s = "goto demo_two 1 (PLoop 9 2)"
  have "mpsc_step demo_two (goto demo_two 1 (PLoop 9 (write_pos (ring demo_two))))"
    by (rule load_pos) (simp add: demo_two_def)
  then have r: "mpsc_reachable [7, 7] ?s"
    using mpsc_reachable.step [OF demo_two_reachable] by (simp add: demo_two_def)
  have f: "prod ?s 1 = PLoop 9 2" "sequence (slot_at (ring ?s) 2) < 2" "length (claimed ?s) = 2"
    by (simp_all add: demo_two_def demo_eval numeral_2_eq_2 [symmetric])
  from mpsc_push_false_only_when_full [OF r _ _ f(1,2)] f(3) have "length (claimed ?s) = released ?s + 2"
    by (simp add: capacity_ok_2 numeral_2_eq_2 [symmetric])
  with r f show ?thesis by blast
qed


text \<open>
  \<open>TryPop\<close> reports emptiness only when it is right or a producer is in the middle of its push:
  either everything claimed has been returned, or the next position is owned by a producer that has not
  published it yet.
\<close>

lemma mpsc_pop_false_only_when_pending:
  assumes "mpsc_reachable junk s" and "capacity_ok (length junk)" and "length (claimed s) < 2 ^ 32"
    and idle: "cons s = CIdle"
    and seq: "sequence (slot_at (ring s) (read_pos (ring s))) \<noteq> read_pos (ring s) + 1"
  shows "popped s = claimed s \<or> (\<exists>t w. owned (prod s t) = Some (length (popped s), claimed s ! length (popped s), w))"
  using pop_empty_pending [OF mpsc_reachable_inv [OF assms(1-3)] idle seq] .

lemma mpsc_pop_false_only_when_pending_witness:
  "\<exists>s. mpsc_reachable [7, 7::nat] s \<and> claimed s = [5] \<and> popped s = [] \<and>
       (\<exists>t w. owned (prod s t) = Some (0, 5, w))"
proof -
  let ?i = "mpsc_init [7, 7::nat]" and ?s = "claim_pos (mpsc_init [7, 7::nat]) 1 5 0"
  have "mpsc_step\<^sup>*\<^sup>* ?i ?s"
    using claim_steps [of ?i 1 0 5]
    by (simp add: mpsc_init_def MPSCRingBuffer_init_def demo_eval upt_rec numeral_2_eq_2 [symmetric])
  then have r: "mpsc_reachable [7, 7] ?s" by (rule mpsc_reachable_steps [OF _ mpsc_reachable.start])
  have f: "claimed ?s = [5]" "popped ?s = []" "cons ?s = CIdle" "length (claimed ?s) < 2 ^ 32"
    and seq: "sequence (slot_at (ring ?s) (read_pos (ring ?s))) \<noteq> read_pos (ring ?s) + 1"
    by (simp_all add: mpsc_init_def MPSCRingBuffer_init_def demo_eval upt_rec numeral_2_eq_2 [symmetric])
  from mpsc_pop_false_only_when_pending [OF r _ f(4,3) seq] f(1,2)
  have "\<exists>t w. owned (prod ?s t) = Some (0, 5, w)"
    by (simp add: capacity_ok_2 numeral_2_eq_2 [symmetric] del: claim_pos_fields)
  with r f show ?thesis by blast
qed


end
