(* ===== verification/Ring_Memory_Order.thy ===== *)
theory Ring_Memory_Order
  imports Ring_Concurrent
begin

text \<open>
  The ring buffer under the memory orders \<open>ring_buffer.hpp\<close> asks for. \<open>Ring_Concurrent\<close> interleaves
  whole accesses, so every load returns the latest value; here a load returns any value the C++ memory
  model lets the thread see, and only an acquire load that reads a release store passes on what
  the storing thread knew. The machine is the usual one with views, for release, acquire and relaxed
  accesses:

  \<^item> each atomic object keeps its modification order, a list of the values stored so far
    (\<open>seq_hist\<close> for a slot's \<open>sequence\<close>, \<open>pos_hist\<close> for \<open>write_pos_\<close>);
  \<^item> each thread has a view: the index in each modification order below which it cannot read any
    more (coherence), and how many accesses to each slot's \<open>data\<close> happen before its next action;
  \<^item> a load may read any index from the thread's view on; a read-modify-write reads the last one when it succeeds;
  \<^item> a release store attaches the thread's view to its message, an acquire load joins the message's view.

  \<open>data\<close> is not atomic. An access to it that is not ordered after every earlier access to the
  same \<open>data\<close> is a data race, undefined behaviour in C++, and sets \<open>raced\<close>; so does a store to a
  \<open>sequence\<close> by a thread that has not seen the last one, whose place in the modification order
  would be open. \<open>read_pos_\<close> belongs to the consumer alone. The values of the program's
  state, its local variables and its history are the fields of \<open>mpsc\<close>, in \<open>sc\<close>. Executions in which a
  relaxed load reads from a store that depends on it are outside the machine.
\<close>

subsection \<open>Views, messages and the state\<close>

datatype memory_order = Relaxed | Acquire | Release

definition acquires :: "memory_order \<Rightarrow> bool" where
  "acquires mo \<longleftrightarrow> mo = Acquire"

definition releases :: "memory_order \<Rightarrow> bool" where
  "releases mo \<longleftrightarrow> mo = Release"

text \<open>The orders of the loads and the stores of a slot's sequence number.\<close>

record orders =
  seq_load :: memory_order
  seq_store :: memory_order

definition ring_orders :: orders where
  "ring_orders = \<lparr>seq_load = Acquire, seq_store = Release\<rparr>"

record thread_view =
  v_seq :: "nat \<Rightarrow> nat"
  v_pos :: nat
  v_acc :: "nat \<Rightarrow> nat"

definition first_view :: thread_view where
  "first_view = \<lparr>v_seq = (\<lambda>_. 0), v_pos = 0, v_acc = (\<lambda>_. 0)\<rparr>"

definition join_view :: "thread_view \<Rightarrow> thread_view \<Rightarrow> thread_view" where
  "join_view v u = \<lparr>v_seq = (\<lambda>k. max (v_seq v k) (v_seq u k)), v_pos = max (v_pos v) (v_pos u),
                    v_acc = (\<lambda>k. max (v_acc v k) (v_acc u k))\<rparr>"

record seq_message =
  m_value :: u32
  m_view :: thread_view

text \<open>A thread is \<open>Some t\<close> for a producer and \<open>None\<close> for the consumer.\<close>

record 'a weak =
  sc :: "'a mpsc"
  seq_hist :: "nat \<Rightarrow> seq_message list"
  pos_hist :: "u32 list"
  accesses :: "nat \<Rightarrow> nat"
  views :: "nat option \<Rightarrow> thread_view"
  raced :: bool

text \<open>The constructor's relaxed stores happen before every thread that is given the ring.\<close>

definition weak_init :: "'a list \<Rightarrow> 'a weak" where
  "weak_init junk = \<lparr>sc = mpsc_init junk,
     seq_hist = (\<lambda>k. [\<lparr>m_value = of_nat k, m_view = first_view\<rparr>]), pos_hist = [0],
     accesses = (\<lambda>_. 0), views = (\<lambda>_. first_view), raced = False\<rparr>"

abbreviation slot_of :: "'a weak \<Rightarrow> u32 \<Rightarrow> nat" where
  "slot_of w pos \<equiv> slot_index (Capacity (ring (sc w))) pos"

subsection \<open>Accesses\<close>

definition may_read_pos :: "'a weak \<Rightarrow> nat option \<Rightarrow> nat \<Rightarrow> bool" where
  "may_read_pos w th j \<longleftrightarrow> v_pos (views w th) \<le> j \<and> j < length (pos_hist w)"

definition load_write_pos :: "'a weak \<Rightarrow> nat option \<Rightarrow> nat \<Rightarrow> 'a weak" where
  "load_write_pos w th j = w\<lparr>views := (views w)(th := (views w th)\<lparr>v_pos := j\<rparr>)\<rparr>"

definition rmw_write_pos :: "'a weak \<Rightarrow> nat option \<Rightarrow> u32 \<Rightarrow> 'a weak" where
  "rmw_write_pos w th val =
     w\<lparr>pos_hist := pos_hist w @ [val],
       views := (views w)(th := (views w th)\<lparr>v_pos := length (pos_hist w)\<rparr>)\<rparr>"

definition may_read_seq :: "'a weak \<Rightarrow> nat option \<Rightarrow> nat \<Rightarrow> nat \<Rightarrow> bool" where
  "may_read_seq w th k i \<longleftrightarrow> v_seq (views w th) k \<le> i \<and> i < length (seq_hist w k)"

definition seq_value :: "'a weak \<Rightarrow> nat \<Rightarrow> nat \<Rightarrow> u32" where
  "seq_value w k i = m_value (seq_hist w k ! i)"

definition see_message :: "memory_order \<Rightarrow> thread_view \<Rightarrow> nat \<Rightarrow> nat \<Rightarrow> seq_message \<Rightarrow> thread_view" where
  "see_message mo v k i m =
     (let v' = v\<lparr>v_seq := (v_seq v)(k := i)\<rparr> in if acquires mo then join_view v' (m_view m) else v')"

definition load_sequence :: "orders \<Rightarrow> 'a weak \<Rightarrow> nat option \<Rightarrow> nat \<Rightarrow> nat \<Rightarrow> 'a weak" where
  "load_sequence ord w th k i =
     w\<lparr>views := (views w)(th := see_message (seq_load ord) (views w th) k i (seq_hist w k ! i))\<rparr>"

definition carried_view :: "memory_order \<Rightarrow> thread_view \<Rightarrow> nat \<Rightarrow> thread_view" where
  "carried_view mo v k =
     (if releases mo then v else first_view\<lparr>v_seq := (v_seq first_view)(k := v_seq v k)\<rparr>)"

definition store_sequence :: "orders \<Rightarrow> 'a weak \<Rightarrow> nat option \<Rightarrow> nat \<Rightarrow> u32 \<Rightarrow> 'a weak" where
  "store_sequence ord w th k val =
     (let i = length (seq_hist w k); v = (views w th)\<lparr>v_seq := (v_seq (views w th))(k := i)\<rparr> in
      w\<lparr>seq_hist := (seq_hist w)(k := seq_hist w k @ [\<lparr>m_value = val, m_view = carried_view (seq_store ord) v k\<rparr>]),
        views := (views w)(th := v), raced := (raced w \<or> Suc (v_seq (views w th) k) \<noteq> i)\<rparr>)"

definition access_data :: "'a weak \<Rightarrow> nat option \<Rightarrow> nat \<Rightarrow> 'a weak" where
  "access_data w th k =
     w\<lparr>accesses := (accesses w)(k := Suc (accesses w k)),
       views := (views w)(th := (views w th)\<lparr>v_acc := (v_acc (views w th))(k := Suc (accesses w k))\<rparr>),
       raced := (raced w \<or> v_acc (views w th) k \<noteq> accesses w k)\<rparr>"

subsection \<open>Steps\<close>

text \<open>
  The accesses of \<open>TryPush\<close> and \<open>TryPop\<close> as in \<open>mpsc_step\<close>, with the value of every load chosen
  among those the thread may see.
\<close>

inductive weak_step :: "orders \<Rightarrow> 'a weak \<Rightarrow> 'a weak \<Rightarrow> bool" for ord where
  w_load_pos: "prod (sc w) t = PIdle \<Longrightarrow> may_read_pos w (Some t) j \<Longrightarrow>
     weak_step ord w ((load_write_pos w (Some t) j)\<lparr>sc := goto (sc w) t (PLoop x (pos_hist w ! j))\<rparr>)"
| w_load_seq: "prod (sc w) t = PLoop x pos \<Longrightarrow> may_read_seq w (Some t) (slot_of w pos) i \<Longrightarrow>
     weak_step ord w ((load_sequence ord w (Some t) (slot_of w pos) i)
       \<lparr>sc := goto (sc w) t (PSeq x pos (seq_value w (slot_of w pos) i))\<rparr>)"
| w_cas_success: "prod (sc w) t = PSeq x pos pos \<Longrightarrow> last (pos_hist w) = pos \<Longrightarrow>
     weak_step ord w ((rmw_write_pos w (Some t) (pos + 1))\<lparr>sc := claim_pos (sc w) t x pos\<rparr>)"
| w_cas_failure: "prod (sc w) t = PSeq x pos pos \<Longrightarrow> may_read_pos w (Some t) j \<Longrightarrow>
     weak_step ord w ((load_write_pos w (Some t) j)\<lparr>sc := goto (sc w) t (PLoop x (pos_hist w ! j))\<rparr>)"
| w_push_false: "prod (sc w) t = PSeq x pos seq \<Longrightarrow> seq \<noteq> pos \<Longrightarrow> seq < pos \<Longrightarrow>
     weak_step ord w (w\<lparr>sc := goto (sc w) t PIdle\<rparr>)"
| w_reload_pos: "prod (sc w) t = PSeq x pos seq \<Longrightarrow> seq \<noteq> pos \<Longrightarrow> \<not> seq < pos \<Longrightarrow>
     may_read_pos w (Some t) j \<Longrightarrow>
     weak_step ord w ((load_write_pos w (Some t) j)\<lparr>sc := goto (sc w) t (PLoop x (pos_hist w ! j))\<rparr>)"
| w_write_data: "prod (sc w) t = PClaimed x pos \<Longrightarrow>
     weak_step ord w ((access_data w (Some t) (slot_of w pos))\<lparr>sc := write_slot (sc w) t x pos\<rparr>)"
| w_publish: "prod (sc w) t = PWritten x pos \<Longrightarrow>
     weak_step ord w ((store_sequence ord w (Some t) (slot_of w pos) (pos + 1))\<lparr>sc := publish_slot (sc w) t pos\<rparr>)"
| w_pop_match: "cons (sc w) = CIdle \<Longrightarrow> r = read_pos (ring (sc w)) \<Longrightarrow> may_read_seq w None (slot_of w r) i \<Longrightarrow>
     seq_value w (slot_of w r) i = r + 1 \<Longrightarrow>
     weak_step ord w ((load_sequence ord w None (slot_of w r) i)\<lparr>sc := (sc w)\<lparr>cons := CMatched\<rparr>\<rparr>)"
| w_pop_false: "cons (sc w) = CIdle \<Longrightarrow> r = read_pos (ring (sc w)) \<Longrightarrow> may_read_seq w None (slot_of w r) i \<Longrightarrow>
     seq_value w (slot_of w r) i \<noteq> r + 1 \<Longrightarrow>
     weak_step ord w (load_sequence ord w None (slot_of w r) i)"
| w_copy_data: "cons (sc w) = CMatched \<Longrightarrow> r = read_pos (ring (sc w)) \<Longrightarrow>
     weak_step ord w ((access_data w None (slot_of w r))
       \<lparr>sc := (sc w)\<lparr>cons := CCopied (slot_data (slot_at (ring (sc w)) r))\<rparr>\<rparr>)"
| w_release: "cons (sc w) = CCopied x \<Longrightarrow> r = read_pos (ring (sc w)) \<Longrightarrow>
     weak_step ord w ((store_sequence ord w None (slot_of w r) (r + of_nat (Capacity (ring (sc w)))))
       \<lparr>sc := release_slot (sc w) x\<rparr>)"
| w_advance: "cons (sc w) = CReleased x \<Longrightarrow> weak_step ord w (w\<lparr>sc := advance_read (sc w) x\<rparr>)"

text \<open>
  The rest of the program may order two threads at any time (by joining one, starting one or by a mutex):
  then \<open>th\<close> learns what \<open>th'\<close> knows.
\<close>

definition synchronise :: "'a weak \<Rightarrow> nat option \<Rightarrow> nat option \<Rightarrow> 'a weak" where
  "synchronise w th th' = w\<lparr>views := (views w)(th := join_view (views w th) (views w th'))\<rparr>"

inductive weak_reachable :: "orders \<Rightarrow> 'a list \<Rightarrow> 'a weak \<Rightarrow> bool" for ord junk where
  w_start: "weak_reachable ord junk (weak_init junk)"
| w_step: "weak_reachable ord junk w \<Longrightarrow> weak_step ord w w' \<Longrightarrow> weak_reachable ord junk w'"
| w_sync: "weak_reachable ord junk w \<Longrightarrow> weak_reachable ord junk (synchronise w th th')"

subsection \<open>The invariant\<close>

text \<open>
  A slot's sequence number takes the values \<open>k\<close>, \<open>k + 1\<close>, \<open>k + C\<close>, \<open>k + C + 1\<close>, \<open>k + 2 C\<close>, ... in
  this order: free for a position, filled with its entry, free for the position one round later.
\<close>

definition seq_val :: "nat \<Rightarrow> nat \<Rightarrow> nat \<Rightarrow> nat" where
  "seq_val C k i = k + (i div 2) * C + i mod 2"

text \<open>
  The slot a thread may access, and whether it has accessed it: a producer from its
  compare-exchange to its publication, the consumer from its successful test to the store that frees the slot.
\<close>

fun held_producer :: "nat \<Rightarrow> 'a producer \<Rightarrow> (nat \<times> bool) option" where
  "held_producer C (PClaimed x pos) = Some (slot_index C pos, False)"
| "held_producer C (PWritten x pos) = Some (slot_index C pos, True)"
| "held_producer C _ = None"

fun held_consumer :: "nat \<Rightarrow> u32 \<Rightarrow> 'a consumer \<Rightarrow> (nat \<times> bool) option" where
  "held_consumer C r CMatched = Some (slot_index C r, False)"
| "held_consumer C r (CCopied x) = Some (slot_index C r, True)"
| "held_consumer C r _ = None"

definition held :: "'a mpsc \<Rightarrow> nat option \<Rightarrow> (nat \<times> bool) option" where
  "held s th = (case th of Some t \<Rightarrow> held_producer (Capacity (ring s)) (prod s t)
                | None \<Rightarrow> held_consumer (Capacity (ring s)) (read_pos (ring s)) (cons s))"

definition hist_ok :: "'a weak \<Rightarrow> nat \<Rightarrow> bool" where
  "hist_ok w k \<longleftrightarrow> (\<exists>L. length (seq_hist w k) = Suc L \<and>
     sequence (buffer (ring (sc w)) ! k) = m_value (seq_hist w k ! L) \<and>
     seq_val (Capacity (ring (sc w))) k L < length (claimed (sc w)) + Capacity (ring (sc w)) \<and>
     (\<forall>i\<le>L. m_value (seq_hist w k ! i) = of_nat (seq_val (Capacity (ring (sc w))) k i)))"

definition inv_hist :: "'a weak \<Rightarrow> bool" where
  "inv_hist w \<longleftrightarrow> (\<forall>k<Capacity (ring (sc w)). hist_ok w k) \<and>
     pos_hist w = map of_nat [0..<Suc (length (claimed (sc w)))]"

definition view_ok :: "'a weak \<Rightarrow> thread_view \<Rightarrow> bool" where
  "view_ok w v \<longleftrightarrow> v_pos v < length (pos_hist w) \<and>
     (\<forall>k<Capacity (ring (sc w)). v_seq v k < length (seq_hist w k) \<and> v_acc v k \<le> accesses w k)"

definition inv_views :: "'a weak \<Rightarrow> bool" where
  "inv_views w \<longleftrightarrow> (\<forall>th. view_ok w (views w th)) \<and>
     (\<forall>k<Capacity (ring (sc w)). \<forall>m\<in>set (seq_hist w k). view_ok w (m_view m))"

text \<open>Past its load of the sequence number a producer knows what the message it read knew of the slot.\<close>

definition seen :: "'a weak \<Rightarrow> thread_view \<Rightarrow> nat \<Rightarrow> u32 \<Rightarrow> bool" where
  "seen w v k val \<longleftrightarrow> (\<exists>i<length (seq_hist w k). i \<le> v_seq v k \<and> m_value (seq_hist w k ! i) = val \<and>
     v_acc (m_view (seq_hist w k ! i)) k \<le> v_acc v k)"

definition inv_seen :: "'a weak \<Rightarrow> bool" where
  "inv_seen w \<longleftrightarrow> (\<forall>t x pos seq. prod (sc w) t = PSeq x pos seq \<longrightarrow>
     seen w (views w (Some t)) (slot_of w pos) seq)"

text \<open>A thread that holds a slot is ordered after every access to it and every store to its number.\<close>

definition up_to_date :: "'a weak \<Rightarrow> thread_view \<Rightarrow> nat \<Rightarrow> bool" where
  "up_to_date w v k \<longleftrightarrow> Suc (v_seq v k) = length (seq_hist w k) \<and> v_acc v k = accesses w k"

definition inv_held :: "'a weak \<Rightarrow> bool" where
  "inv_held w \<longleftrightarrow> (\<forall>th k b. held (sc w) th = Some (k, b) \<longrightarrow> up_to_date w (views w th) k)"

text \<open>The last message of a slot nobody has touched since tells of every access to it.\<close>

definition inv_last :: "'a weak \<Rightarrow> bool" where
  "inv_last w \<longleftrightarrow> (\<forall>k<Capacity (ring (sc w)). (\<forall>th. held (sc w) th \<noteq> Some (k, True)) \<longrightarrow>
     v_acc (m_view (last (seq_hist w k))) k = accesses w k)"

definition weak_inv :: "'a weak \<Rightarrow> bool" where
  "weak_inv w \<longleftrightarrow> mpsc_inv (sc w) \<and> inv_hist w \<and> inv_views w \<and> inv_seen w \<and> inv_held w \<and>
     inv_last w \<and> \<not> raced w"

lemma weak_invD:
  assumes "weak_inv w"
  shows "mpsc_inv (sc w)" "inv_hist w" "inv_views w" "inv_seen w" "inv_held w" "inv_last w" "\<not> raced w"
  using assms by (auto simp: weak_inv_def)

subsection \<open>The sequence numbers of a slot\<close>

lemma seq_val_Suc: "seq_val C k (Suc i) = (if even i then seq_val C k i + 1 else seq_val C k i - 1 + C)"
proof (cases "even i")
  case True
  then show ?thesis by (auto simp: seq_val_def elim!: evenE)
next
  case False
  then show ?thesis by (auto simp: seq_val_def elim!: oddE)
qed

lemma seq_val_less: "2 \<le> C \<Longrightarrow> i < j \<Longrightarrow> seq_val C k i < seq_val C k j"
  by (rule lift_Suc_mono_less) (auto simp: seq_val_Suc)

lemma seq_val_less_iff: "2 \<le> C \<Longrightarrow> seq_val C k i < seq_val C k j \<longleftrightarrow> i < j"
  by (metis seq_val_less less_asym linorder_neqE_nat)

lemma seq_val_le: "2 \<le> C \<Longrightarrow> i \<le> j \<Longrightarrow> seq_val C k i \<le> seq_val C k j"
  using seq_val_less [of C i j k] by (cases "i = j") auto

lemma seq_val_mod: "k < C \<Longrightarrow> 2 \<le> C \<Longrightarrow> seq_val C k i mod C = (k + i mod 2) mod C"
proof -
  assume "k < C" "2 \<le> C"
  have "seq_val C k i = (k + i mod 2) + (i div 2) * C" by (simp add: seq_val_def)
  then show ?thesis by (metis mod_mult_self1)
qed

lemma Suc_mod_neq: "2 \<le> C \<Longrightarrow> Suc n mod C \<noteq> n mod (C :: nat)"
  by (auto simp: mod_Suc split: if_splits)

text \<open>What position the last number belongs to decides its parity, and so the next number.\<close>

lemma seq_val_next_filled:
  assumes "2 \<le> C" and "seq_val C (p mod C) i = p"
  shows "seq_val C (p mod C) (Suc i) = p + 1"
proof -
  have "even i"
  proof (rule ccontr)
    assume "odd i"
    then have "i mod 2 = 1" by presburger
    with seq_val_mod [of "p mod C" C i] assms have "p mod C = Suc (p mod C) mod C" by simp
    with Suc_mod_neq [OF assms(1), of p] show False by (simp add: mod_Suc_eq)
  qed
  with assms show ?thesis by (simp add: seq_val_Suc)
qed

lemma seq_val_next_free:
  assumes "2 \<le> C" and "seq_val C (p mod C) i = p + 1"
  shows "seq_val C (p mod C) (Suc i) = p + C"
proof -
  have "odd i"
  proof
    assume "even i"
    then have "i mod 2 = 0" by presburger
    with seq_val_mod [of "p mod C" C i] assms have "Suc p mod C = p mod C" by simp
    with Suc_mod_neq [OF assms(1), of p] show False by simp
  qed
  with assms show ?thesis by (simp add: seq_val_Suc)
qed

abbreviation in_range :: "'a weak \<Rightarrow> bool" where
  "in_range w \<equiv> length (claimed (sc w)) + Capacity (ring (sc w)) \<le> 2 ^ 32"

lemma weak_capacity:
  assumes "weak_inv w"
  shows "capacity_ok (Capacity (ring (sc w)))" "2 \<le> Capacity (ring (sc w))"
    "slot_of w pos < Capacity (ring (sc w))" "slot_of w (of_nat p) = p mod Capacity (ring (sc w))"
proof -
  show cap: "capacity_ok (Capacity (ring (sc w)))"
    using weak_invD(1) [OF assms] by (simp add: mpsc_inv_def inv_pos_def)
  show "2 \<le> Capacity (ring (sc w))" "slot_of w pos < Capacity (ring (sc w))"
    "slot_of w (of_nat p) = p mod Capacity (ring (sc w))"
    using capacity_okD(1) [OF cap] slot_index_less [OF cap] slot_index_of_nat [OF cap] by auto
qed

lemma weak_bound: "weak_inv w \<Longrightarrow> in_range w \<Longrightarrow> Suc (length (claimed (sc w))) < 2 ^ 32"
  using weak_capacity(2) [of w] by simp

text \<open>Within the range of 32 bits a message of a slot is determined by its value.\<close>

lemma seq_hist_last:
  assumes "weak_inv w" and "k < Capacity (ring (sc w))"
  obtains L where "length (seq_hist w k) = Suc L" "sequence (buffer (ring (sc w)) ! k) = seq_value w k L"
    "last (seq_hist w k) = seq_hist w k ! L"
    "seq_val (Capacity (ring (sc w))) k L < length (claimed (sc w)) + Capacity (ring (sc w))"
    "\<And>i. i \<le> L \<Longrightarrow> seq_value w k i = of_nat (seq_val (Capacity (ring (sc w))) k i)"
proof -
  from assms weak_invD(2) have "hist_ok w k" by (auto simp: inv_hist_def)
  then obtain L where L: "length (seq_hist w k) = Suc L" "sequence (buffer (ring (sc w)) ! k) = m_value (seq_hist w k ! L)"
    "seq_val (Capacity (ring (sc w))) k L < length (claimed (sc w)) + Capacity (ring (sc w))"
    "\<forall>i\<le>L. m_value (seq_hist w k ! i) = of_nat (seq_val (Capacity (ring (sc w))) k i)"
    unfolding hist_ok_def by blast
  moreover from L(1) have "last (seq_hist w k) = seq_hist w k ! L" by (cases "seq_hist w k" rule: rev_cases) auto
  ultimately show thesis using that by (simp add: seq_value_def)
qed

lemma unat_seq_value:
  assumes "weak_inv w" and "in_range w" and "k < Capacity (ring (sc w))" and "i < length (seq_hist w k)"
  shows "unat (seq_value w k i) = seq_val (Capacity (ring (sc w))) k i"
proof -
  let ?C = "Capacity (ring (sc w))"
  obtain L where L: "length (seq_hist w k) = Suc L" "seq_val ?C k L < length (claimed (sc w)) + ?C"
    "\<And>i. i \<le> L \<Longrightarrow> seq_value w k i = of_nat (seq_val ?C k i)"
    using seq_hist_last [OF assms(1,3)] by blast
  with assms(4) have "i \<le> L" by simp
  with seq_val_le [OF weak_capacity(2) [OF assms(1)], of i L k] L(2) assms(2) have "seq_val ?C k i < 2 ^ 32" by linarith
  with L(3) [OF \<open>i \<le> L\<close>] show ?thesis by (simp only: unat_of_nat_u32)
qed

lemma unat_sequence:
  assumes "weak_inv w" and "in_range w" and "k < Capacity (ring (sc w))" and "length (seq_hist w k) = Suc L"
  shows "unat (sequence (buffer (ring (sc w)) ! k)) = seq_val (Capacity (ring (sc w))) k L"
proof -
  obtain L' where "length (seq_hist w k) = Suc L'" "sequence (buffer (ring (sc w)) ! k) = seq_value w k L'"
    using seq_hist_last [OF assms(1,3)] by metis
  with unat_seq_value [OF assms(1-3), of L] assms(4) show ?thesis by simp
qed

lemma read_last:
  assumes "weak_inv w" and "in_range w" and k: "k < Capacity (ring (sc w))" and "i < length (seq_hist w k)"
    and "unat (sequence (buffer (ring (sc w)) ! k)) \<le> unat (seq_value w k i)"
  shows "Suc i = length (seq_hist w k)" and "seq_hist w k ! i = last (seq_hist w k)"
    and "seq_value w k i = sequence (buffer (ring (sc w)) ! k)"
proof -
  obtain L where L: "length (seq_hist w k) = Suc L" "sequence (buffer (ring (sc w)) ! k) = seq_value w k L"
    "last (seq_hist w k) = seq_hist w k ! L"
    using seq_hist_last [OF assms(1) k] by metis
  have "\<not> i < L"
    using unat_seq_value [OF assms(1-4)] unat_seq_value [OF assms(1,2) k, of L] L assms(5)
      seq_val_less [OF weak_capacity(2) [OF assms(1)], of i L k] by auto
  with assms(4) L(1) have "i = L" by simp
  with L show "Suc i = length (seq_hist w k)" "seq_hist w k ! i = last (seq_hist w k)"
    "seq_value w k i = sequence (buffer (ring (sc w)) ! k)" by simp_all
qed

text \<open>Stale values are smaller values.\<close>

lemma stale_le:
  assumes "weak_inv w" and "in_range w" and k: "k < Capacity (ring (sc w))" and "i < length (seq_hist w k)"
  shows "unat (seq_value w k i) \<le> unat (sequence (buffer (ring (sc w)) ! k))"
  using read_last(3) [OF assms] by (cases "unat (sequence (buffer (ring (sc w)) ! k)) \<le> unat (seq_value w k i)") auto

lemma pos_hist_nth:
  assumes "weak_inv w" and "in_range w" and "may_read_pos w th j"
  shows "unat (pos_hist w ! j) = j" and "j \<le> length (claimed (sc w))"
proof -
  from weak_invD(2) [OF assms(1)] assms(3) show j: "j \<le> length (claimed (sc w))"
    by (auto simp: inv_hist_def may_read_pos_def simp del: upt_Suc)
  with weak_bound [OF assms(1,2)] weak_invD(2) [OF assms(1)] show "unat (pos_hist w ! j) = j"
    by (simp add: inv_hist_def unat_of_nat_u32 nth_map_upt del: upt_Suc)
qed

subsection \<open>Who holds a slot\<close>

lemma held_producer_owned:
  "held_producer C p = Some (k, b) \<Longrightarrow> \<exists>x q. owned p = Some (q, x, b) \<and> k = slot_index C (of_nat q)"
  by (cases p) auto

lemma held_consumer_cases:
  "held_consumer C r c = Some (k, b) \<Longrightarrow> k = slot_index C r \<and> (c = CMatched \<or> (\<exists>x. c = CCopied x))"
  by (cases c) auto

text \<open>No two threads hold the same slot.\<close>

lemma held_unique:
  assumes inv: "mpsc_inv s" and h: "held s th = Some (k, b)" and h': "held s th' = Some (k, b')"
  shows "th = th'"
proof -
  let ?C = "Capacity (ring s)" and ?r = "length (popped s)"
  note P = mpsc_invD(1) [OF inv]
  then have cap: "capacity_ok ?C" and r: "read_pos (ring s) = of_nat ?r" by (simp_all add: inv_pos_def)
  have prod: "\<exists>x q. owned (prod s t) = Some (q, x, b) \<and> k = q mod ?C" if "held s (Some t) = Some (k, b)" for t b
    using held_producer_owned that slot_index_of_nat [OF cap] unfolding held_def by fastforce
  have mixed: False if p: "held s (Some t) = Some (k, b)" and c: "held s None = Some (k, b')" for t b b'
  proof -
    from prod [OF p] obtain x q where q: "owned (prod s t) = Some (q, x, b)" "k = q mod ?C" by blast
    from c have k: "k = ?r mod ?C" and mc: "cons s = CMatched \<or> (\<exists>x. cons s = CCopied x)"
      using held_consumer_cases r slot_index_of_nat [OF cap] by (fastforce simp: held_def)+
    note m = matched_released [OF inv mc] and f = owner_facts [OF inv q(1)]
    have "q = ?r" using window_inj [of "released s" q ?C ?r] q(2) k m f by (simp add: owned_ok_def)
    with m(2) f(1) show False by (simp add: owned_ok_def matched_def)
  qed
  have two: "t = t'" if p: "held s (Some t) = Some (k, b)" and p': "held s (Some t') = Some (k, b')" for t t' b b'
  proof -
    from prod [OF p] obtain x q where q: "owned (prod s t) = Some (q, x, b)" "k = q mod ?C" by blast
    from prod [OF p'] obtain x' q' where q': "owned (prod s t') = Some (q', x', b')" "k = q' mod ?C" by blast
    note f = owner_facts [OF inv q(1)] and f' = owner_facts [OF inv q'(1)]
    have "q = q'" using window_inj [of "released s" q ?C q'] q(2) q'(2) f f' by (simp add: owned_ok_def)
    with f(3) q'(1) show "t = t'" by metis
  qed
  from h h' mixed two show ?thesis by (cases th; cases th') (metis option.exhaust)+
qed

subsection \<open>Steps that leave the histories of the slots alone\<close>

lemma held_less: "weak_inv w \<Longrightarrow> held (sc w) th = Some (k, b) \<Longrightarrow> k < Capacity (ring (sc w))"
  using weak_capacity(3) [of w]
  by (auto simp: held_def split: option.splits dest!: held_producer_owned held_consumer_cases)

text \<open>What a producer has seen stays seen when histories grow and views do not shrink.\<close>

lemma inv_seen_keep:
  assumes inv: "inv_seen w" and cap: "Capacity (ring (sc w')) = Capacity (ring (sc w))"
    and pseq: "\<And>t x p seq. prod (sc w') t = PSeq x p seq \<Longrightarrow> prod (sc w) t = PSeq x p seq"
    and hist: "\<And>k. length (seq_hist w k) \<le> length (seq_hist w' k)"
      "\<And>k i. i < length (seq_hist w k) \<Longrightarrow> seq_hist w' k ! i = seq_hist w k ! i"
    and views: "\<And>th k i. i < length (seq_hist w k) \<Longrightarrow> i \<le> v_seq (views w th) k \<Longrightarrow> i \<le> v_seq (views w' th) k"
      "\<And>th k. v_acc (views w th) k \<le> v_acc (views w' th) k"
  shows "inv_seen w'"
proof -
  have "seen w' (views w' th) k val" if s: "seen w (views w th) k val" for th k val
  proof -
    from s obtain i where "i < length (seq_hist w k)" "i \<le> v_seq (views w th) k" "m_value (seq_hist w k ! i) = val"
      "v_acc (m_view (seq_hist w k ! i)) k \<le> v_acc (views w th) k" unfolding seen_def by blast
    with hist(2) views(1) less_le_trans [OF _ hist(1)] order_trans [OF _ views(2)] show ?thesis
      unfolding seen_def by (intro exI [of _ i]) auto
  qed
  with inv pseq show ?thesis unfolding inv_seen_def cap by blast
qed

text \<open>A thread may only learn more.\<close>

lemma weak_inv_grow:
  assumes inv: "weak_inv w" and ok: "view_ok w v"
    and grow: "\<And>k. v_seq (views w th) k \<le> v_seq v k" "\<And>k. v_acc (views w th) k \<le> v_acc v k"
  shows "weak_inv (w\<lparr>views := (views w)(th := v)\<rparr>)"
proof -
  let ?w' = "w\<lparr>views := (views w)(th := v)\<rparr>"
  have le: "v_seq (views w u) k \<le> v_seq (views ?w' u) k" "v_acc (views w u) k \<le> v_acc (views ?w' u) k" for u k
    using grow by simp_all
  have vok: "view_ok ?w' u = view_ok w u" for u by (simp add: view_ok_def)
  have "inv_hist ?w'" using weak_invD(2) [OF inv] by (simp add: inv_hist_def hist_ok_def)
  moreover have "inv_views ?w'" using weak_invD(3) [OF inv] ok by (simp add: inv_views_def vok)
  then have bound: "view_ok w (views ?w' u)" for u by (simp add: inv_views_def vok)
  moreover have "inv_seen ?w'"
    by (rule inv_seen_keep [OF weak_invD(4) [OF inv]]) (use le in \<open>auto intro: order_trans simp del: fun_upd_apply\<close>)
  moreover have "up_to_date ?w' (views ?w' u) k" if "held (sc w) u = Some (k, b)" for u k b
  proof -
    have k: "k < Capacity (ring (sc w))" using held_less [OF inv that] .
    have "up_to_date w (views w u) k" using weak_invD(5) [OF inv] that by (auto simp: inv_held_def)
    with le [of u k] bound [of u] k show ?thesis by (fastforce simp: up_to_date_def view_ok_def)
  qed
  then have "inv_held ?w'" by (simp add: inv_held_def)
  moreover have "inv_last ?w'" using weak_invD(6) [OF inv] by (simp add: inv_last_def)
  ultimately show ?thesis using weak_invD(1,7) [OF inv] \<open>inv_views ?w'\<close> by (simp add: weak_inv_def)
qed

text \<open>A step of the program that stores no sequence number and touches no entry.\<close>

lemma weak_inv_frame:
  assumes inv: "weak_inv w" and mpsc: "mpsc_inv (sc w')"
    and same: "seq_hist w' = seq_hist w" "accesses w' = accesses w" "raced w' = raced w"
      "\<And>th. v_seq (views w' th) = v_seq (views w th)" "\<And>th. v_acc (views w' th) = v_acc (views w th)"
    and pos: "pos_hist w' = map of_nat [0..<Suc (length (claimed (sc w')))]"
      "length (claimed (sc w)) \<le> length (claimed (sc w'))" "\<And>th. v_pos (views w' th) < length (pos_hist w')"
    and ring: "Capacity (ring (sc w')) = Capacity (ring (sc w))"
      "\<And>k. sequence (buffer (ring (sc w')) ! k) = sequence (buffer (ring (sc w)) ! k)"
    and held: "\<And>th k b. held (sc w') th = Some (k, b) \<Longrightarrow> held (sc w) th = Some (k, b) \<or> up_to_date w (views w th) k"
      "\<And>th k. held (sc w') th = Some (k, True) \<longleftrightarrow> held (sc w) th = Some (k, True)"
    and pseq: "\<And>t x p seq. prod (sc w') t = PSeq x p seq \<Longrightarrow>
      prod (sc w) t = PSeq x p seq \<or> seen w (views w (Some t)) (slot_of w p) seq"
  shows "weak_inv w'"
proof -
  have "length (pos_hist w) \<le> length (pos_hist w')"
    using weak_invD(2) [OF inv] pos(1,2) by (simp add: inv_hist_def)
  then have vok: "view_ok w v \<Longrightarrow> view_ok w' v" for v by (auto simp: view_ok_def same ring)
  have "inv_hist w'" using weak_invD(2) [OF inv] pos(1,2) ring same
    by (fastforce simp: inv_hist_def hist_ok_def simp del: upt_Suc)
  moreover have "view_ok w' (views w' th)" for th
    using weak_invD(3) [OF inv] pos(3) by (simp add: inv_views_def view_ok_def same ring)
  then have "inv_views w'" using weak_invD(3) [OF inv] vok by (simp add: inv_views_def same ring)
  moreover have seen_eq: "seen w' (views w' th) k val = seen w (views w th) k val" for th k val
    by (simp add: seen_def same)
  then have "inv_seen w'"
    using weak_invD(4) [OF inv] pseq unfolding inv_seen_def ring by blast
  moreover have upd_eq: "up_to_date w' (views w' th) k = up_to_date w (views w th) k" for th k
    by (simp add: up_to_date_def same)
  then have "inv_held w'" using weak_invD(5) [OF inv] held(1) unfolding inv_held_def by blast
  moreover have "inv_last w'" using weak_invD(6) [OF inv] by (simp add: inv_last_def same ring held(2))
  ultimately show ?thesis using mpsc weak_invD(7) [OF inv] by (simp add: weak_inv_def same)
qed

subsection \<open>Accesses to an entry and stores of a sequence number\<close>

text \<open>The thread that holds a slot accesses its entry: the access is ordered after all others.\<close>

lemma weak_inv_access:
  assumes inv: "weak_inv w" and h: "held (sc w) th = Some (k, b)" and mpsc: "mpsc_inv s'"
    and ring: "Capacity (ring s') = Capacity (ring (sc w))" "claimed s' = claimed (sc w)"
      "\<And>k. sequence (buffer (ring s') ! k) = sequence (buffer (ring (sc w)) ! k)"
    and held': "held s' th = Some (k, True)" "\<And>u. u \<noteq> th \<Longrightarrow> held s' u = held (sc w) u"
    and pseq: "\<And>t x p seq. prod s' t = PSeq x p seq \<Longrightarrow> prod (sc w) t = PSeq x p seq"
  shows "weak_inv ((access_data w th k)\<lparr>sc := s'\<rparr>)"
proof -
  let ?w' = "(access_data w th k)\<lparr>sc := s'\<rparr>"
  have k: "k < Capacity (ring (sc w))" using held_less [OF inv h] .
  have cur: "up_to_date w (views w th) k" using weak_invD(5) [OF inv] h by (auto simp: inv_held_def)
  note f [simp] = access_data_def ring
  have vok: "view_ok w v \<Longrightarrow> view_ok ?w' v" for v by (fastforce simp: view_ok_def)
  have seq_views: "v_seq (views ?w' u) = v_seq (views w u)" for u by simp
  have acc_views: "v_acc (views w u) j \<le> v_acc (views ?w' u) j" for u j
    using cur by (simp add: up_to_date_def)
  have "inv_hist ?w'" using weak_invD(2) [OF inv] by (simp add: inv_hist_def hist_ok_def)
  moreover have "view_ok ?w' (views ?w' u)" for u
    using weak_invD(3) [OF inv] by (auto simp: inv_views_def view_ok_def le_SucI)
  then have "inv_views ?w'" using weak_invD(3) [OF inv] vok by (simp add: inv_views_def)
  moreover have "inv_seen ?w'"
    by (rule inv_seen_keep [OF weak_invD(4) [OF inv]]) (use pseq cur in \<open>auto simp: up_to_date_def\<close>)
  moreover have "inv_held ?w'"
    unfolding inv_held_def
  proof (intro allI impI)
    fix u j b' assume hu: "held (sc ?w') u = Some (j, b')"
    show "up_to_date ?w' (views ?w' u) j"
    proof (cases "u = th")
      case True
      with hu held'(1) cur show ?thesis by (auto simp: up_to_date_def)
    next
      case False
      then have hw: "held (sc w) u = Some (j, b')" using hu held'(2) by simp
      with h held_unique [OF weak_invD(1) [OF inv]] False have "j \<noteq> k" by blast
      with hw False weak_invD(5) [OF inv] show ?thesis by (auto simp: inv_held_def up_to_date_def)
    qed
  qed
  moreover have "inv_last ?w'"
    unfolding inv_last_def
  proof (intro allI impI)
    fix j assume j: "j < Capacity (ring (sc ?w'))" "\<forall>u. held (sc ?w') u \<noteq> Some (j, True)"
    with held'(1) have "j \<noteq> k" by auto
    have "held (sc w) u \<noteq> Some (j, True)" for u
      using j(2) held'(2) [of u] h \<open>j \<noteq> k\<close> by (cases "u = th") auto
    with \<open>j \<noteq> k\<close> j(1) weak_invD(6) [OF inv]
    show "v_acc (m_view (last (seq_hist ?w' j))) j = accesses ?w' j" by (simp add: inv_last_def)
  qed
  ultimately show ?thesis using mpsc weak_invD(7) [OF inv] cur by (simp add: weak_inv_def up_to_date_def)
qed

text \<open>A stored value continues the sequence of its slot.\<close>

lemma hist_ok_snoc:
  assumes old: "hist_ok w k" and cap: "Capacity (ring (sc w')) = Capacity (ring (sc w))"
    and new: "seq_hist w' k = seq_hist w k @ [msg]" "sequence (buffer (ring (sc w')) ! k) = m_value msg"
    and val: "m_value msg = of_nat n" "n = seq_val (Capacity (ring (sc w))) k (length (seq_hist w k))"
      "n < length (claimed (sc w')) + Capacity (ring (sc w))"
  shows "hist_ok w' k"
proof -
  obtain L where L: "length (seq_hist w k) = Suc L"
    "\<And>i. i \<le> L \<Longrightarrow> m_value (seq_hist w k ! i) = of_nat (seq_val (Capacity (ring (sc w))) k i)"
    using old unfolding hist_ok_def by blast
  have "m_value (seq_hist w' k ! i) = of_nat (seq_val (Capacity (ring (sc w))) k i)" if "i \<le> Suc L" for i
    unfolding new(1) using that L val(1,2) by (cases "i = Suc L") (simp_all add: nth_append)
  then show ?thesis
    using L(1) new val unfolding hist_ok_def cap by (intro exI [of _ "Suc L"]) (simp add: nth_append)
qed

text \<open>
  The thread that holds a slot and has accessed its entry stores the next number and gives the slot away,
  with everything that happened to the slot in the view of the message.
\<close>

lemma weak_inv_store:
  assumes inv: "weak_inv w" and h: "held (sc w) th = Some (k, True)" and mpsc: "mpsc_inv s'"
    and ring: "Capacity (ring s') = Capacity (ring (sc w))" "claimed s' = claimed (sc w)"
      "sequence (buffer (ring s') ! k) = val"
      "\<And>j. j < Capacity (ring (sc w)) \<Longrightarrow> j \<noteq> k \<Longrightarrow> sequence (buffer (ring s') ! j) = sequence (buffer (ring (sc w)) ! j)"
    and val: "val = of_nat n" "n = seq_val (Capacity (ring (sc w))) k (length (seq_hist w k))"
      "n < length (claimed (sc w)) + Capacity (ring (sc w))"
    and held': "held s' th = None" "\<And>u. u \<noteq> th \<Longrightarrow> held s' u = held (sc w) u"
    and pseq: "\<And>t x p seq. prod s' t = PSeq x p seq \<Longrightarrow> prod (sc w) t = PSeq x p seq"
  shows "weak_inv ((store_sequence ring_orders w th k val)\<lparr>sc := s'\<rparr>)"
proof -
  let ?w' = "(store_sequence ring_orders w th k val)\<lparr>sc := s'\<rparr>"
  let ?v = "(views w th)\<lparr>v_seq := (v_seq (views w th))(k := length (seq_hist w k))\<rparr>"
  have k: "k < Capacity (ring (sc w))" using held_less [OF inv h] .
  have cur: "up_to_date w (views w th) k" using weak_invD(5) [OF inv] h by (auto simp: inv_held_def)
  have f: "accesses ?w' = accesses w" "pos_hist ?w' = pos_hist w" "views ?w' = (views w)(th := ?v)" "sc ?w' = s'"
    "raced ?w' = raced w"
    "seq_hist ?w' = (seq_hist w)(k := seq_hist w k @ [\<lparr>m_value = val, m_view = ?v\<rparr>])"
    using cur by (simp_all add: store_sequence_def Let_def carried_view_def releases_def ring_orders_def up_to_date_def)
  note f [simp] ring(1,2) [simp]
  have longer: "length (seq_hist w j) \<le> length (seq_hist ?w' j)" for j by simp
  have vok: "view_ok w v \<Longrightarrow> view_ok ?w' v" for v
    using longer less_le_trans by (fastforce simp: view_ok_def simp del: f(6))
  have ok: "view_ok ?w' ?v" using weak_invD(3) [OF inv] by (auto simp: inv_views_def view_ok_def less_SucI)
  have "hist_ok ?w' j" if j: "j < Capacity (ring (sc w))" for j
  proof (cases "j = k")
    case False
    with weak_invD(2) [OF inv] j ring(4) show ?thesis by (auto simp: inv_hist_def hist_ok_def)
  next
    case True
    have h: "seq_hist ?w' k = seq_hist w k @ [\<lparr>m_value = val, m_view = ?v\<rparr>]" by simp
    have "hist_ok w k" using weak_invD(2) [OF inv] k by (simp add: inv_hist_def)
    then show ?thesis unfolding True
      by (rule hist_ok_snoc [OF _ _ h _ _ val(2)]) (use ring(3) val(1,3) in simp_all)
  qed
  then have "inv_hist ?w'" using weak_invD(2) [OF inv] by (simp add: inv_hist_def)
  moreover have "inv_views ?w'"
    using weak_invD(3) [OF inv] vok ok by (auto simp: inv_views_def)
  moreover have "inv_seen ?w'"
    by (rule inv_seen_keep [OF weak_invD(4) [OF inv]]) (use pseq in \<open>auto simp: nth_append\<close>)
  moreover have "inv_held ?w'"
    unfolding inv_held_def
  proof (intro allI impI)
    fix u j b' assume hu: "held (sc ?w') u = Some (j, b')"
    with held'(1) have "u \<noteq> th" by auto
    then have hw: "held (sc w) u = Some (j, b')" using hu held'(2) by simp
    with h held_unique [OF weak_invD(1) [OF inv]] \<open>u \<noteq> th\<close> have "j \<noteq> k" by blast
    with hw \<open>u \<noteq> th\<close> weak_invD(5) [OF inv] show "up_to_date ?w' (views ?w' u) j"
      by (auto simp: inv_held_def up_to_date_def)
  qed
  moreover have "inv_last ?w'"
    unfolding inv_last_def
  proof (intro allI impI)
    fix j assume j: "j < Capacity (ring (sc ?w'))" "\<forall>u. held (sc ?w') u \<noteq> Some (j, True)"
    show "v_acc (m_view (last (seq_hist ?w' j))) j = accesses ?w' j"
    proof (cases "j = k")
      case False
      have "held (sc w) u \<noteq> Some (j, True)" for u
        using j(2) held'(2) [of u] h False by (cases "u = th") auto
      with False j(1) weak_invD(6) [OF inv] show ?thesis by (simp add: inv_last_def)
    qed (use cur in \<open>simp add: up_to_date_def\<close>)
  qed
  ultimately show ?thesis using mpsc weak_invD(7) [OF inv] by (simp add: weak_inv_def)
qed

subsection \<open>Every step keeps the invariant\<close>

lemma view_okD:
  assumes "weak_inv w"
  shows "view_ok w (views w th)" "v_pos (views w th) < length (pos_hist w)"
    "k < Capacity (ring (sc w)) \<Longrightarrow> v_seq (views w th) k < length (seq_hist w k)"
    "k < Capacity (ring (sc w)) \<Longrightarrow> v_acc (views w th) k \<le> accesses w k"
  using weak_invD(3) [OF assms] by (auto simp: inv_views_def view_ok_def)

text \<open>A relaxed load of \<open>write_pos_\<close>, and the moves that load nothing.\<close>

lemma weak_inv_load_pos:
  assumes inv: "weak_inv w" and r: "in_range w" and j: "may_read_pos w (Some t) j"
    and pc: "owned (prod (sc w) t) = None"
  shows "weak_inv ((load_write_pos w (Some t) j)\<lparr>sc := goto (sc w) t (PLoop x (pos_hist w ! j))\<rparr>)"
proof (rule weak_inv_frame [OF inv])
  let ?w' = "(load_write_pos w (Some t) j)\<lparr>sc := goto (sc w) t (PLoop x (pos_hist w ! j))\<rparr>"
  have none: "held_producer C (prod (sc w) t) = None" for C using pc by (cases "prod (sc w) t") auto
  show "mpsc_inv (sc ?w')"
    using pos_hist_nth [OF inv r j] pc weak_invD(1) [OF inv] by (simp add: mpsc_inv_goto)
  show "v_pos (views ?w' th) < length (pos_hist ?w')" for th
    using j view_okD(2) [OF inv] by (simp add: load_write_pos_def may_read_pos_def)
  show "held (sc ?w') th = Some (k, b) \<Longrightarrow> held (sc w) th = Some (k, b) \<or> up_to_date w (views w th) k" for th k b
    by (auto simp: held_def split: option.splits if_splits)
  show "held (sc ?w') th = Some (k, True) \<longleftrightarrow> held (sc w) th = Some (k, True)" for th k
    using none by (auto simp: held_def split: option.splits)
qed (use weak_invD(2) [OF inv] in \<open>auto simp: load_write_pos_def inv_hist_def split: if_splits simp del: upt_Suc\<close>)

lemma weak_inv_push_false:
  assumes inv: "weak_inv w" and pc: "prod (sc w) t = PSeq x pos seq"
  shows "weak_inv (w\<lparr>sc := goto (sc w) t PIdle\<rparr>)"
proof (rule weak_inv_frame [OF inv])
  let ?w' = "w\<lparr>sc := goto (sc w) t PIdle\<rparr>"
  show "mpsc_inv (sc ?w')" using pc weak_invD(1) [OF inv] by (simp add: mpsc_inv_goto)
  show "held (sc ?w') th = Some (k, b) \<Longrightarrow> held (sc w) th = Some (k, b) \<or> up_to_date w (views w th) k" for th k b
    by (auto simp: held_def split: option.splits if_splits)
  show "held (sc ?w') th = Some (k, True) \<longleftrightarrow> held (sc w) th = Some (k, True)" for th k
    using pc by (auto simp: held_def split: option.splits)
qed (use weak_invD(2) [OF inv] view_okD(2) [OF inv] in \<open>auto simp: inv_hist_def split: if_splits simp del: upt_Suc\<close>)

lemma weak_inv_advance:
  assumes inv: "weak_inv w" and pc: "cons (sc w) = CReleased x"
  shows "weak_inv (w\<lparr>sc := advance_read (sc w) x\<rparr>)"
proof (rule weak_inv_frame [OF inv])
  let ?w' = "w\<lparr>sc := advance_read (sc w) x\<rparr>"
  show "mpsc_inv (sc ?w')" using pc weak_invD(1) [OF inv] by (simp add: mpsc_inv_advance)
  show "held (sc ?w') th = Some (k, b) \<Longrightarrow> held (sc w) th = Some (k, b) \<or> up_to_date w (views w th) k" for th k b
    by (auto simp: held_def advance_read_def split: option.splits)
  show "held (sc ?w') th = Some (k, True) \<longleftrightarrow> held (sc w) th = Some (k, True)" for th k
    using pc by (auto simp: held_def advance_read_def split: option.splits)
qed (use weak_invD(2) [OF inv] view_okD(2) [OF inv] in \<open>auto simp: inv_hist_def advance_read_def simp del: upt_Suc\<close>)

text \<open>An acquire load of a sequence number.\<close>

lemma load_sequence_view:
  assumes inv: "weak_inv w" and k: "k < Capacity (ring (sc w))" and i: "may_read_seq w th k i"
  defines "v \<equiv> see_message Acquire (views w th) k i (seq_hist w k ! i)"
  shows "view_ok w v" and "v_seq (views w th) j \<le> v_seq v j" and "v_acc (views w th) j \<le> v_acc v j"
    and "i \<le> v_seq v k" and "v_acc (m_view (seq_hist w k ! i)) j \<le> v_acc v j"
proof -
  have "seq_hist w k ! i \<in> set (seq_hist w k)" using i by (simp add: may_read_seq_def)
  then have "view_ok w (m_view (seq_hist w k ! i))" using weak_invD(3) [OF inv] k by (auto simp: inv_views_def)
  then show "view_ok w v"
    using view_okD(1) [OF inv, of th] i
    by (auto simp: view_ok_def v_def see_message_def acquires_def join_view_def may_read_seq_def)
  show "v_seq (views w th) j \<le> v_seq v j" "v_acc (views w th) j \<le> v_acc v j" "i \<le> v_seq v k"
    "v_acc (m_view (seq_hist w k ! i)) j \<le> v_acc v j"
    using i by (auto simp: v_def see_message_def acquires_def join_view_def may_read_seq_def)
qed

lemma weak_inv_load:
  assumes inv: "weak_inv w" and k: "k < Capacity (ring (sc w))" and i: "may_read_seq w th k i"
  shows "weak_inv (load_sequence ring_orders w th k i)"
  unfolding load_sequence_def ring_orders_def
  using load_sequence_view(1-3) [OF assms] by (auto intro: weak_inv_grow [OF inv])

lemma load_sequence_fields [simp]:
  "sc (load_sequence ord w th k i) = sc w" "seq_hist (load_sequence ord w th k i) = seq_hist w"
  "pos_hist (load_sequence ord w th k i) = pos_hist w" "accesses (load_sequence ord w th k i) = accesses w"
  "raced (load_sequence ord w th k i) = raced w"
  by (simp_all add: load_sequence_def)

lemma seen_after_load:
  assumes inv: "weak_inv w" and k: "k < Capacity (ring (sc w))" and i: "may_read_seq w th k i"
  shows "seen w (views (load_sequence ring_orders w th k i) th) k (seq_value w k i)"
  using load_sequence_view(4,5) [OF assms] i unfolding seen_def
  by (auto intro!: exI [of _ i] simp: load_sequence_def ring_orders_def may_read_seq_def seq_value_def)

text \<open>A producer's load may be stale, but what it says about the room in the ring stays true.\<close>

lemma local_ok_stale:
  assumes inv: "weak_inv w" and r: "in_range w" and pc: "prod (sc w) t = PLoop x pos"
    and i: "may_read_seq w (Some t) (slot_of w pos) i"
  shows "local_ok (sc w) (PSeq x pos (seq_value w (slot_of w pos) i))"
proof -
  let ?s = "sc w" let ?N = "length (claimed ?s)" and ?R = "released ?s" and ?C = "Capacity (ring ?s)"
  note mi = weak_invD(1) [OF inv]
  have le: "unat pos \<le> ?N" using mpsc_invD(4) [OF mi] pc by (metis inv_local_def local_ok.simps(1))
  have b: "?N < 2 ^ 32" using weak_bound [OF inv r] by simp
  have "unat pos < ?R + ?C" if eq: "seq_value w (slot_of w pos) i = pos" and top: "unat pos = ?N"
  proof (rule ccontr)
    assume not: "\<not> unat pos < ?R + ?C"
    have pos: "of_nat ?N = pos" using top by (metis of_nat_unat_u32)
    have full: "?N = ?R + ?C"
      and s: "sequence (slotn ?s ?N) = of_nat ?R \<or> sequence (slotn ?s ?N) = of_nat ?R + 1"
      using next_slot_free_or_full [OF mi refl b] not top by (auto split: if_splits)
    have "unat pos \<le> unat (sequence (slotn ?s ?N))"
      using stale_le [OF inv r weak_capacity(3) [OF inv, of pos], of i] i eq pos
      by (simp add: slot_at_def may_read_seq_def)
    moreover have "unat (of_nat ?R :: u32) = ?R" "unat (of_nat ?R + 1 :: u32) = ?R + 1"
      using b full weak_capacity(2) [OF inv] unat_of_nat_u32 [of ?R] unat_of_nat_u32 [of "?R + 1"]
      by (simp_all add: add.commute)
    ultimately show False using s top full weak_capacity(2) [OF inv] by auto
  qed
  with le show ?thesis by simp
qed

lemma weak_inv_load_seq:
  assumes inv: "weak_inv w" and r: "in_range w" and pc: "prod (sc w) t = PLoop x pos"
    and i: "may_read_seq w (Some t) (slot_of w pos) i"
  shows "weak_inv ((load_sequence ring_orders w (Some t) (slot_of w pos) i)
           \<lparr>sc := goto (sc w) t (PSeq x pos (seq_value w (slot_of w pos) i))\<rparr>)"
proof -
  let ?k = "slot_of w pos"
  let ?w1 = "load_sequence ring_orders w (Some t) ?k i"
  let ?s' = "goto (sc w) t (PSeq x pos (seq_value w ?k i))"
  note k = weak_capacity(3) [OF inv, of pos]
  have inv1: "weak_inv ?w1" using weak_inv_load [OF inv k i] .
  show ?thesis
  proof (rule weak_inv_frame [OF inv1])
    let ?w' = "?w1\<lparr>sc := ?s'\<rparr>"
    show "mpsc_inv (sc ?w')"
      using local_ok_stale [OF assms] pc weak_invD(1) [OF inv]
      by (simp add: mpsc_inv_goto del: local_ok.simps)
    show "held (sc ?w') th = Some (k, b) \<Longrightarrow> held (sc ?w1) th = Some (k, b) \<or> up_to_date ?w1 (views ?w1 th) k" for th k b
      by (auto simp: held_def split: option.splits if_splits)
    show "held (sc ?w') th = Some (k, True) \<longleftrightarrow> held (sc ?w1) th = Some (k, True)" for th k
      using pc by (auto simp: held_def split: option.splits)
    show "prod (sc ?w') u = PSeq y p seq \<Longrightarrow> prod (sc ?w1) u = PSeq y p seq \<or>
        seen ?w1 (views ?w1 (Some u)) (slot_of ?w1 p) seq" for u y p seq
      using seen_after_load [OF inv k i] by (auto simp: seen_def split: if_splits)
  qed (use weak_invD(2) [OF inv] view_okD(2) [OF inv1] in \<open>auto simp: inv_hist_def simp del: upt_Suc\<close>)
qed

text \<open>
  The compare-exchange reads the last value of \<open>write_pos_\<close>. That the position is still the next one
  makes the value the producer loaded before the last one of its slot, however old the load is.
\<close>

lemma seen_last_up_to_date:
  assumes inv: "weak_inv w" and r: "in_range w" and k: "k < Capacity (ring (sc w))"
    and s: "seen w (views w th) k (sequence (buffer (ring (sc w)) ! k))"
    and free: "\<And>u. held (sc w) u \<noteq> Some (k, True)"
  shows "up_to_date w (views w th) k"
proof -
  from s obtain i where i: "i < length (seq_hist w k)" "i \<le> v_seq (views w th) k"
    "seq_value w k i = sequence (buffer (ring (sc w)) ! k)"
    "v_acc (m_view (seq_hist w k ! i)) k \<le> v_acc (views w th) k"
    by (auto simp: seen_def seq_value_def)
  note l = read_last(1,2) [OF inv r k i(1)]
  have "Suc i = length (seq_hist w k)" "v_acc (m_view (seq_hist w k ! i)) k = accesses w k"
    using l i(3) weak_invD(6) [OF inv] k free by (simp_all add: inv_last_def)
  with i view_okD(3,4) [OF inv k, of th] show ?thesis by (simp add: up_to_date_def)
qed

lemma last_pos_hist: "weak_inv w \<Longrightarrow> last (pos_hist w) = write_pos (ring (sc w))"
  using weak_invD(1,2) [of w] by (simp add: mpsc_inv_def inv_pos_def inv_hist_def)

lemma weak_inv_claim:
  assumes inv: "weak_inv w" and r: "in_range w" and pc: "prod (sc w) t = PSeq x pos pos"
    and last: "last (pos_hist w) = pos"
  shows "weak_inv ((rmw_write_pos w (Some t) (pos + 1))\<lparr>sc := claim_pos (sc w) t x pos\<rparr>)"
proof -
  let ?s = "sc w" and ?s' = "claim_pos (sc w) t x pos" and ?k = "slot_of w pos"
  have w: "write_pos (ring ?s) = pos" using last_pos_hist [OF inv] last by simp
  note facts = cas_facts [OF weak_invD(1) [OF inv] weak_bound [OF inv r] pc w]
  have mpsc': "mpsc_inv ?s'" using mpsc_inv_cas_success [OF weak_invD(1) [OF inv] weak_bound [OF inv r] pc w] .
  have new: "held ?s' (Some t) = Some (?k, False)" by (simp add: held_def)
  have other: "held ?s' u = held ?s u" if "u \<noteq> Some t" for u
    using that by (cases u) (simp_all add: held_def)
  have none: "held ?s (Some t) = None" using pc by (simp add: held_def)
  have upd: "up_to_date w (views w (Some t)) ?k"
  proof (rule seen_last_up_to_date [OF inv r weak_capacity(3) [OF inv]])
    show "seen w (views w (Some t)) ?k (sequence (buffer (ring ?s) ! ?k))"
      using weak_invD(4) [OF inv] pc facts by (auto simp: inv_seen_def slot_at_def)
    show "held ?s u \<noteq> Some (?k, True)" for u
    proof
      assume h: "held ?s u = Some (?k, True)"
      with none other [of u] held_unique [OF mpsc' new, of u True] show False by (cases "u = Some t") auto
    qed
  qed
  show ?thesis
  proof (rule weak_inv_frame [OF inv])
    let ?w' = "(rmw_write_pos w (Some t) (pos + 1))\<lparr>sc := ?s'\<rparr>"
    show "mpsc_inv (sc ?w')" using mpsc' by simp
    show "held (sc ?w') th = Some (k, b) \<Longrightarrow> held (sc w) th = Some (k, b) \<or> up_to_date w (views w th) k" for th k b
      using new other upd by (cases "th = Some t") auto
    show "held (sc ?w') th = Some (k, True) \<longleftrightarrow> held (sc w) th = Some (k, True)" for th k
      using new other none by (cases "th = Some t") auto
    show "pos_hist ?w' = map of_nat [0..<Suc (length (claimed (sc ?w')))]"
      using weak_invD(2) [OF inv] facts(1) by (simp add: rmw_write_pos_def inv_hist_def add.commute)
    show "v_pos (views ?w' th) < length (pos_hist ?w')" for th
      using view_okD(2) [OF inv, of th] by (simp add: rmw_write_pos_def)
  qed (auto simp: rmw_write_pos_def split: if_splits)
qed

text \<open>A successful test of the consumer cannot be stale: the value it waits for is the last of its slot.\<close>

lemma pop_reads_last:
  assumes inv: "weak_inv w" and r: "in_range w" and pc: "cons (sc w) = CIdle"
    and i: "may_read_seq w None (slot_of w (read_pos (ring (sc w)))) i"
    and v: "seq_value w (slot_of w (read_pos (ring (sc w)))) i = read_pos (ring (sc w)) + 1"
  shows "sequence (slot_at (ring (sc w)) (read_pos (ring (sc w)))) = read_pos (ring (sc w)) + 1"
proof -
  let ?s = "sc w" let ?p = "length (popped ?s)" and ?r = "read_pos (ring ?s)"
  note mi = weak_invD(1) [OF inv] note P = mpsc_invD(1) [OF mi]
  have rel: "released ?s = ?p" using pc by (simp add: released_def)
  have b: "Suc ?p < 2 ^ 32" using weak_bound [OF inv r] P rel by (simp add: inv_pos_def)
  have rp: "?r = of_nat ?p" using P by (simp add: inv_pos_def)
  have "slot_ok ?s ?p" using mpsc_invD(2) [OF mi] rel weak_capacity(2) [OF inv] by (simp add: inv_slots_def)
  then have "sequence (slot_at (ring ?s) ?r) = of_nat ?p \<or> sequence (slot_at (ring ?s) ?r) = of_nat (Suc ?p)"
    unfolding rp by (auto simp: slot_ok_def add.commute split: if_splits)
  then have "unat (sequence (slot_at (ring ?s) ?r)) \<le> Suc ?p"
    using b unat_of_nat_u32 [of ?p] unat_of_nat_u32 [of "Suc ?p"] by (auto simp del: of_nat_Suc)
  moreover have "unat (seq_value w (slot_of w ?r) i) = Suc ?p"
    using v rp b unat_of_nat_u32 [of "Suc ?p"] by (simp add: add.commute)
  ultimately show ?thesis
    using read_last(3) [OF inv r weak_capacity(3) [OF inv, of ?r], of i] i v
    by (simp add: slot_at_def may_read_seq_def)
qed

lemma weak_inv_match:
  assumes inv: "weak_inv w" and r: "in_range w" and pc: "cons (sc w) = CIdle" and rp: "p = read_pos (ring (sc w))"
    and i: "may_read_seq w None (slot_of w p) i" and v: "seq_value w (slot_of w p) i = p + 1"
  shows "weak_inv ((load_sequence ring_orders w None (slot_of w p) i)\<lparr>sc := (sc w)\<lparr>cons := CMatched\<rparr>\<rparr>)"
proof -
  let ?s = "sc w" and ?s' = "(sc w)\<lparr>cons := CMatched\<rparr>" and ?k = "slot_of w p"
  let ?w1 = "load_sequence ring_orders w None ?k i"
  note k = weak_capacity(3) [OF inv, of p]
  have inv1: "weak_inv ?w1" using weak_inv_load [OF inv k i] .
  have full: "sequence (slot_at (ring ?s) p) = p + 1" using pop_reads_last [OF inv r pc] i v rp by simp
  have "length (claimed ?s) < 2 ^ 32" using weak_bound [OF inv r] by simp
  then have mpsc': "mpsc_inv ?s'" using mpsc_inv_pop_match [OF weak_invD(1) [OF inv] _ pc] full rp by simp
  have new: "held ?s' None = Some (?k, False)" using rp by (simp add: held_def)
  have other: "held ?s' u = held ?s u" if "u \<noteq> None" for u
    using that by (cases u) (simp_all add: held_def)
  have none: "held ?s None = None" using pc by (simp add: held_def)
  have upd: "up_to_date ?w1 (views ?w1 None) ?k"
  proof (rule seen_last_up_to_date [OF inv1])
    show "in_range ?w1" "?k < Capacity (ring (sc ?w1))" using r k by simp_all
    show "seen ?w1 (views ?w1 None) ?k (sequence (buffer (ring (sc ?w1)) ! ?k))"
      using seen_after_load [OF inv k i] v full by (simp add: slot_at_def seen_def)
    show "held (sc ?w1) u \<noteq> Some (?k, True)" for u
    proof
      assume h: "held (sc ?w1) u = Some (?k, True)"
      with none other [of u] held_unique [OF mpsc' new, of u True] show False by (cases "u = None") auto
    qed
  qed
  show ?thesis
  proof (rule weak_inv_frame [OF inv1])
    let ?w' = "?w1\<lparr>sc := ?s'\<rparr>"
    show "mpsc_inv (sc ?w')" using mpsc' by simp
    show "held (sc ?w') th = Some (k, b) \<Longrightarrow> held (sc ?w1) th = Some (k, b) \<or> up_to_date ?w1 (views ?w1 th) k" for th k b
      using new other upd by (cases "th = None") auto
    show "held (sc ?w') th = Some (k, True) \<longleftrightarrow> held (sc ?w1) th = Some (k, True)" for th k
      using new other none by (cases "th = None") auto
  qed (use weak_invD(2) [OF inv] view_okD(2) [OF inv1] in \<open>auto simp: inv_hist_def simp del: upt_Suc\<close>)
qed

text \<open>The accesses to an entry, by the thread that holds the slot.\<close>

lemma sequence_set_data:
  "sequence (buffer (set_slot rb p ((slot_at rb p)\<lparr>slot_data := x\<rparr>)) ! k) = sequence (buffer rb ! k)"
  by (cases "slot_index (Capacity rb) p < length (buffer rb)")
    (auto simp: set_slot_def slot_at_def nth_list_update list_update_beyond)

lemma sequence_set_seq:
  "slot_index (Capacity rb) p < Capacity rb \<Longrightarrow>
   sequence (buffer (set_slot rb p ((slot_at rb p)\<lparr>sequence := v\<rparr>)) ! k) =
     (if k = slot_index (Capacity rb) p then v else sequence (buffer rb ! k))"
  by (auto simp: set_slot_def Capacity_def nth_list_update)

lemma weak_inv_write:
  assumes inv: "weak_inv w" and pc: "prod (sc w) t = PClaimed x pos"
  shows "weak_inv ((access_data w (Some t) (slot_of w pos))\<lparr>sc := write_slot (sc w) t x pos\<rparr>)"
proof (rule weak_inv_access [OF inv])
  show "held (sc w) (Some t) = Some (slot_of w pos, False)" using pc by (simp add: held_def)
  show "mpsc_inv (write_slot (sc w) t x pos)" using mpsc_inv_write [OF weak_invD(1) [OF inv] pc] .
  show "u \<noteq> Some t \<Longrightarrow> held (write_slot (sc w) t x pos) u = held (sc w) u" for u
    by (cases u) (simp_all add: held_def)
qed (auto simp: held_def sequence_set_data split: if_splits)

lemma weak_inv_copy:
  assumes inv: "weak_inv w" and pc: "cons (sc w) = CMatched" and r: "r = read_pos (ring (sc w))"
  shows "weak_inv ((access_data w None (slot_of w r))\<lparr>sc := (sc w)\<lparr>cons := CCopied (slot_data (slot_at (ring (sc w)) r))\<rparr>\<rparr>)"
proof (rule weak_inv_access [OF inv])
  let ?s' = "(sc w)\<lparr>cons := CCopied (slot_data (slot_at (ring (sc w)) r))\<rparr>"
  show "held (sc w) None = Some (slot_of w r, False)" using pc r by (simp add: held_def)
  show "mpsc_inv ?s'" using mpsc_inv_copy [OF weak_invD(1) [OF inv] pc] r by simp
  show "u \<noteq> None \<Longrightarrow> held ?s' u = held (sc w) u" for u by (cases u) (simp_all add: held_def)
qed (use r in \<open>auto simp: held_def\<close>)

text \<open>The two stores of a sequence number.\<close>

lemma weak_inv_publish:
  assumes inv: "weak_inv w" and r: "in_range w" and pc: "prod (sc w) t = PWritten x pos"
  shows "weak_inv ((store_sequence ring_orders w (Some t) (slot_of w pos) (pos + 1))\<lparr>sc := publish_slot (sc w) t pos\<rparr>)"
proof (rule weak_inv_store [OF inv])
  let ?s = "sc w" let ?C = "Capacity (ring ?s)"
  have own: "owned (prod ?s t) = Some (unat pos, x, True)" using pc by simp
  have ok: "owned_ok ?s (unat pos) x True" using owner_facts(1) [OF weak_invD(1) [OF inv] own] .
  have k: "slot_of w pos = unat pos mod ?C" using weak_capacity(4) [OF inv, of "unat pos"] by simp
  obtain L where L: "length (seq_hist w (slot_of w pos)) = Suc L"
    using seq_hist_last [OF inv weak_capacity(3) [OF inv]] by blast
  have "sequence (buffer (ring ?s) ! slot_of w pos) = pos" using ok by (simp add: owned_ok_def slot_at_def)
  then have "seq_val ?C (slot_of w pos) L = unat pos"
    using unat_sequence [OF inv r weak_capacity(3) [OF inv, of pos] L] by simp
  then show "unat pos + 1 = seq_val ?C (slot_of w pos) (length (seq_hist w (slot_of w pos)))"
    using seq_val_next_filled [OF weak_capacity(2) [OF inv], of "unat pos" L] L k by simp
  show "unat pos + 1 < length (claimed ?s) + ?C" using ok weak_capacity(2) [OF inv] by (simp add: owned_ok_def)
  show "held ?s (Some t) = Some (slot_of w pos, True)" using pc by (simp add: held_def)
  show "mpsc_inv (publish_slot ?s t pos)" using mpsc_inv_publish [OF weak_invD(1) [OF inv] pc] .
  show "u \<noteq> Some t \<Longrightarrow> held (publish_slot ?s t pos) u = held ?s u" for u
    by (cases u) (simp_all add: held_def)
qed (use weak_capacity(3) [OF inv] in \<open>auto simp: held_def sequence_set_seq split: if_splits\<close>)

lemma weak_inv_release:
  assumes inv: "weak_inv w" and b: "in_range w" and pc: "cons (sc w) = CCopied x" and r: "r = read_pos (ring (sc w))"
  shows "weak_inv ((store_sequence ring_orders w None (slot_of w r) (r + of_nat (Capacity (ring (sc w)))))
           \<lparr>sc := release_slot (sc w) x\<rparr>)"
proof (rule weak_inv_store [OF inv])
  let ?s = "sc w" let ?C = "Capacity (ring ?s)" and ?p = "length (popped ?s)"
  note m = matched_released [OF weak_invD(1) [OF inv]]
  have m: "?p < length (claimed ?s)" "sequence (slotn ?s ?p) = of_nat ?p + 1"
    using m(2) pc by (auto simp: matched_def)
  have rp: "r = of_nat ?p" using r mpsc_invD(1) [OF weak_invD(1) [OF inv]] by (simp add: inv_pos_def)
  have k: "slot_of w r = ?p mod ?C" unfolding rp by (rule weak_capacity(4) [OF inv])
  obtain L where L: "length (seq_hist w (slot_of w r)) = Suc L"
    using seq_hist_last [OF inv weak_capacity(3) [OF inv]] by blast
  have "sequence (buffer (ring ?s) ! slot_of w r) = of_nat (?p + 1)"
    using m(2) rp by (simp add: slot_at_def add.commute)
  then have "seq_val ?C (slot_of w r) L = ?p + 1"
    using unat_sequence [OF inv b weak_capacity(3) [OF inv, of r] L] m(1) weak_bound [OF inv b]
      unat_of_nat_u32 [of "?p + 1"] by simp
  then show "?p + ?C = seq_val ?C (slot_of w r) (length (seq_hist w (slot_of w r)))"
    using seq_val_next_free [OF weak_capacity(2) [OF inv], of ?p L] L k by simp
  show "?p + ?C < length (claimed ?s) + ?C" using m(1) by simp
  show "r + of_nat ?C = of_nat (?p + ?C)" using rp by simp
  show "held ?s None = Some (slot_of w r, True)" using pc r by (simp add: held_def)
  show "mpsc_inv (release_slot ?s x)" using mpsc_inv_release [OF weak_invD(1) [OF inv] pc] .
  show "u \<noteq> None \<Longrightarrow> held (release_slot ?s x) u = held ?s u" for u by (cases u) (simp_all add: held_def)
qed (use weak_capacity(3) [OF inv] r in \<open>auto simp: held_def release_slot_def Let_def sequence_set_seq\<close>)

lemma weak_claimed_mono:
  assumes "weak_step ord w w'"
  shows "length (claimed (sc w)) \<le> length (claimed (sc w'))" and "Capacity (ring (sc w')) = Capacity (ring (sc w))"
  using assms by (cases; simp add: release_slot_def advance_read_def Let_def)+

lemma weak_step_inv:
  assumes "weak_step ring_orders w w'" and inv: "weak_inv w" and r: "in_range w"
  shows "weak_inv w'"
  using assms(1)
proof cases
  case (w_pop_false r i)
  then show ?thesis using weak_inv_load [OF inv weak_capacity(3) [OF inv]] by simp
qed (use weak_inv_load_pos [OF inv r] weak_inv_load_seq [OF inv r] weak_inv_claim [OF inv r] weak_inv_push_false [OF inv]
    weak_inv_write [OF inv] weak_inv_publish [OF inv r] weak_inv_match [OF inv r] weak_inv_copy [OF inv]
    weak_inv_release [OF inv r] weak_inv_advance [OF inv] in auto)

lemma weak_inv_init:
  assumes "capacity_ok (length junk)"
  shows "weak_inv (weak_init junk)"
proof -
  let ?w = "weak_init junk"
  have C: "0 < length junk" using capacity_okD(1) [OF assms] by linarith
  have [simp]: "sc ?w = mpsc_init junk" "ring (mpsc_init junk) = MPSCRingBuffer_init junk"
    "prod (mpsc_init junk) t = PIdle" "cons (mpsc_init junk) = CIdle" "claimed (mpsc_init junk) = []" for t
    by (simp_all add: weak_init_def mpsc_init_def)
  have "held (mpsc_init junk) th = None" for th by (cases th) (simp_all add: held_def)
  moreover have "hist_ok ?w k" if "k < length junk" for k
    unfolding hist_ok_def using that
    by (intro exI [of _ 0]) (simp add: weak_init_def seq_val_def, simp add: mpsc_init_def MPSCRingBuffer_init_def)
  ultimately show ?thesis using mpsc_inv_init [OF assms] C
    by (simp add: weak_inv_def inv_hist_def inv_views_def inv_seen_def inv_held_def inv_last_def)
      (auto simp: weak_init_def first_view_def view_ok_def)
qed

lemma synchronise_fields [simp]:
  "sc (synchronise w th th') = sc w" "seq_hist (synchronise w th th') = seq_hist w"
  "accesses (synchronise w th th') = accesses w" "raced (synchronise w th th') = raced w"
  by (simp_all add: synchronise_def)

lemma weak_inv_synchronise: "weak_inv w \<Longrightarrow> weak_inv (synchronise w th th')"
  unfolding synchronise_def using view_okD(1) [of w th] view_okD(1) [of w th']
  by (intro weak_inv_grow) (auto simp: view_ok_def join_view_def)

lemma weak_reachable_Capacity: "weak_reachable ord junk w \<Longrightarrow> Capacity (ring (sc w)) = length junk"
proof (induction rule: weak_reachable.induct)
  case w_start
  show ?case by (simp add: weak_init_def mpsc_init_def)
next
  case (w_step w w')
  then show ?case using weak_claimed_mono(2) by metis
qed simp

lemma weak_reachable_inv:
  assumes "weak_reachable ring_orders junk w" and "capacity_ok (length junk)" and "in_range w"
  shows "weak_inv w"
  using assms(1,3)
proof (induction rule: weak_reachable.induct)
  case w_start
  show ?case using weak_inv_init [OF assms(2)] .
next
  case (w_step w w')
  then show ?case using weak_claimed_mono [OF w_step.hyps(2)] weak_step_inv [OF w_step.hyps(2)] by simp
next
  case (w_sync w th th')
  then show ?case using weak_inv_synchronise by simp
qed

subsection \<open>Interleaved accesses are among the executions\<close>

text \<open>
  Reading the latest value is always allowed, so a step of \<open>Ring_Concurrent\<close> is a step of this machine
  on the same state, and every state reachable there is reachable here.
\<close>

lemma may_read_last:
  assumes "weak_inv w"
  shows "may_read_pos w th (length (claimed (sc w)))"
    and "pos_hist w ! length (claimed (sc w)) = write_pos (ring (sc w))"
    and "\<exists>i. may_read_seq w th (slot_of w pos) i \<and> seq_value w (slot_of w pos) i = sequence (slot_at (ring (sc w)) pos)"
proof -
  have h: "pos_hist w = map of_nat [0..<Suc (length (claimed (sc w)))]"
    using weak_invD(2) [OF assms] by (simp add: inv_hist_def)
  show "may_read_pos w th (length (claimed (sc w)))"
    using view_okD(2) [OF assms, of th] unfolding may_read_pos_def h by simp
  show "pos_hist w ! length (claimed (sc w)) = write_pos (ring (sc w))"
    using weak_invD(1) [OF assms] unfolding h by (simp add: mpsc_inv_def inv_pos_def nth_append)
  note k = weak_capacity(3) [OF assms, of pos]
  obtain L where L: "length (seq_hist w (slot_of w pos)) = Suc L"
    "sequence (buffer (ring (sc w)) ! slot_of w pos) = seq_value w (slot_of w pos) L"
    using seq_hist_last [OF assms k] by metis
  with view_okD(3) [OF assms k, of th]
  show "\<exists>i. may_read_seq w th (slot_of w pos) i \<and> seq_value w (slot_of w pos) i = sequence (slot_at (ring (sc w)) pos)"
    by (intro exI [of _ L]) (simp add: may_read_seq_def slot_at_def)
qed

lemma weak_stepI: "weak_step ord w w' \<Longrightarrow> sc w' = s' \<Longrightarrow> \<exists>w'. weak_step ord w w' \<and> sc w' = s'"
  by blast

lemma weak_simulates:
  assumes step: "mpsc_step (sc w) s'" and inv: "weak_inv w"
  shows "\<exists>w'. weak_step ring_orders w w' \<and> sc w' = s'"
proof -
  note rp = may_read_last(1,2) [OF inv] and rs = may_read_last(3) [OF inv]
  from step show ?thesis
  proof cases
    case (load_pos t x)
    then show ?thesis by (intro weak_stepI [OF w_load_pos [OF _ rp(1), where x = x]]) (simp_all add: rp(2))
  next
    case (load_seq t x pos)
    obtain i where i: "may_read_seq w (Some t) (slot_of w pos) i"
      "seq_value w (slot_of w pos) i = sequence (slot_at (ring (sc w)) pos)" using rs by blast
    show ?thesis by (rule weak_stepI [OF w_load_seq [OF load_seq(2) i(1)]]) (simp add: i(2) load_seq(1))
  next
    case (cas_success t x pos)
    then show ?thesis using last_pos_hist [OF inv] by (intro weak_stepI [OF w_cas_success]) simp_all
  next
    case (cas_failure t x pos)
    then show ?thesis by (intro weak_stepI [OF w_cas_failure [OF _ rp(1)]]) (simp_all add: rp(2))
  next
    case (push_false t x pos seq)
    then show ?thesis by (intro weak_stepI [OF w_push_false]) simp_all
  next
    case (reload_pos t x pos seq)
    then show ?thesis by (intro weak_stepI [OF w_reload_pos [OF _ _ _ rp(1)]]) (simp_all add: rp(2))
  next
    case (write_data t x pos)
    then show ?thesis by (intro weak_stepI [OF w_write_data]) simp_all
  next
    case (publish t x pos)
    then show ?thesis by (intro weak_stepI [OF w_publish]) simp_all
  next
    case pop_match
    obtain i where "may_read_seq w None (slot_of w (read_pos (ring (sc w)))) i"
      "seq_value w (slot_of w (read_pos (ring (sc w)))) i = sequence (slot_at (ring (sc w)) (read_pos (ring (sc w))))"
      using rs by blast
    with pop_match show ?thesis by (intro weak_stepI [OF w_pop_match [OF _ refl, where i = i]]) simp_all
  next
    case pop_false
    obtain i where "may_read_seq w None (slot_of w (read_pos (ring (sc w)))) i"
      "seq_value w (slot_of w (read_pos (ring (sc w)))) i = sequence (slot_at (ring (sc w)) (read_pos (ring (sc w))))"
      using rs by blast
    with pop_false show ?thesis by (intro weak_stepI [OF w_pop_false [OF _ refl, where i = i]]) simp_all
  next
    case copy_data
    then show ?thesis by (intro weak_stepI [OF w_copy_data [OF _ refl]]) simp_all
  next
    case (release x)
    then show ?thesis by (intro weak_stepI [OF w_release [OF _ refl]]) simp_all
  next
    case (advance x)
    then show ?thesis by (intro weak_stepI [OF w_advance]) simp_all
  qed
qed

lemma mpsc_reachable_weak:
  assumes "mpsc_reachable junk s" and "capacity_ok (length junk)" and "length (claimed s) + length junk \<le> 2 ^ 32"
  shows "\<exists>w. weak_reachable ring_orders junk w \<and> sc w = s"
  using assms(1,3)
proof (induction rule: mpsc_reachable.induct)
  case start
  have "sc (weak_init junk) = mpsc_init junk" by (simp add: weak_init_def)
  then show ?case using weak_reachable.w_start by metis
next
  case (step s s')
  then have r: "length (claimed s) + length junk \<le> 2 ^ 32" using claimed_mono [OF step.hyps(2)] by simp
  with step.IH obtain w where w: "weak_reachable ring_orders junk w" "sc w = s" by blast
  with r have "weak_inv w" using weak_reachable_inv [OF w(1) assms(2)] Capacity_reachable [OF step.hyps(1)] by simp
  then show ?case using weak_simulates step.hyps(2) w by (metis weak_reachable.w_step)
qed

subsection \<open>Reports of emptiness and fullness\<close>

text \<open>A thread is informed of a slot when every store to its number happens before the thread's next action.\<close>

definition informed :: "'a weak \<Rightarrow> nat option \<Rightarrow> nat \<Rightarrow> bool" where
  "informed w th k \<longleftrightarrow> Suc (v_seq (views w th) k) = length (seq_hist w k)"

lemma informed_reads_last:
  assumes inv: "weak_inv w" and k: "k < Capacity (ring (sc w))" and i: "informed w th k" "may_read_seq w th k i"
  shows "seq_value w k i = sequence (buffer (ring (sc w)) ! k)"
proof -
  obtain L where "length (seq_hist w k) = Suc L" "sequence (buffer (ring (sc w)) ! k) = seq_value w k L"
    using seq_hist_last [OF inv k] by metis
  with i have "i = L" "sequence (buffer (ring (sc w)) ! k) = seq_value w k L" by (auto simp: informed_def may_read_seq_def)
  then show ?thesis by simp
qed

text \<open>The thread that stored last is informed, and so is every thread that is ordered after it.\<close>

lemma store_informs: "informed (store_sequence ord w th k val) th k"
  by (simp add: informed_def store_sequence_def Let_def)

lemma synchronise_informs:
  assumes inv: "weak_inv w" and k: "k < Capacity (ring (sc w))" and i: "informed w th' k"
  shows "informed (synchronise w th th') th k"
  using i view_okD(3) [OF inv k, of th] by (simp add: informed_def synchronise_def join_view_def)

lemma informed_grow:
  assumes "weak_inv w'" and "k < Capacity (ring (sc w'))" and "informed w th k"
    and "seq_hist w' k = seq_hist w k" and "v_seq (views w th) k \<le> v_seq (views w' th) k"
  shows "informed w' th k"
  using view_okD(3) [OF assms(1,2), of th] assms(3-5) by (simp add: informed_def)

lemma weak_step_views:
  assumes step: "weak_step ring_orders w w'" and inv: "weak_inv w" and k: "k < Capacity (ring (sc w))"
  shows "seq_hist w' k = seq_hist w k \<and> (\<forall>th. v_seq (views w th) k \<le> v_seq (views w' th) k) \<or> (\<exists>th. informed w' th k)"
proof -
  have load: "v_seq (views w u) k \<le> v_seq (views (load_sequence ring_orders w th j i) u) k"
    if "j < Capacity (ring (sc w))" "may_read_seq w th j i" for th j i u
    using load_sequence_view(2) [OF inv that, of k] by (simp add: load_sequence_def ring_orders_def)
  have store: "seq_hist (store_sequence ring_orders w th j v) k = seq_hist w k \<and>
      (\<forall>u. v_seq (views w u) k \<le> v_seq (views (store_sequence ring_orders w th j v) u) k) \<or>
      informed (store_sequence ring_orders w th j v) th k" for th j v
    using store_informs [of ring_orders w th j v] by (cases "j = k") (auto simp: store_sequence_def Let_def)
  have [simp]: "informed (w\<lparr>sc := s\<rparr>) th k = informed w th k" for w :: "'a weak" and s th by (simp add: informed_def)
  from step show ?thesis
  proof cases
    case (w_publish t x pos)
    with store [of "Some t" "slot_of w pos" "pos + 1"] show ?thesis by auto
  next
    case (w_release x r)
    with store [of None "slot_of w r" "r + of_nat (Capacity (ring (sc w)))"] show ?thesis by auto
  qed (use load weak_capacity(3) [OF inv] in \<open>auto simp: load_write_pos_def rmw_write_pos_def access_data_def\<close>)
qed

lemma someone_informed:
  assumes "weak_reachable ring_orders junk w" and "capacity_ok (length junk)" and "in_range w" and k: "k < length junk"
  shows "\<exists>th. informed w th k"
  using assms(1,3)
proof (induction rule: weak_reachable.induct)
  case w_start
  show ?case by (simp add: informed_def weak_init_def first_view_def)
next
  case (w_step w w')
  note r' = weak_reachable.w_step [OF w_step.hyps]
  have r: "in_range w" using w_step.prems weak_claimed_mono [OF w_step.hyps(2)] by simp
  note inv = weak_reachable_inv [OF w_step.hyps(1) assms(2) r] and inv' = weak_reachable_inv [OF r' assms(2) w_step.prems]
  from w_step.IH [OF r] obtain th where "informed w th k" by blast
  with informed_grow [OF inv', of k w th] weak_step_views [OF w_step.hyps(2) inv] k
    weak_reachable_Capacity [OF r'] weak_reachable_Capacity [OF w_step.hyps(1)] show ?case by metis
next
  case (w_sync w u u')
  note r' = weak_reachable.w_sync [OF w_sync.hyps, of u u']
  note inv' = weak_reachable_inv [OF r' assms(2) w_sync.prems]
  from w_sync.IH w_sync.prems obtain th where "informed w th k" by auto
  then have "informed (synchronise w u u') th k"
    using informed_grow [OF inv', of k w th] k weak_reachable_Capacity [OF r']
    by (simp add: synchronise_def join_view_def)
  then show ?case by blast
qed

subsection \<open>Calls that read the latest values\<close>

definition solo_push :: "orders \<Rightarrow> 'a weak \<Rightarrow> nat \<Rightarrow> 'a \<Rightarrow> 'a weak" where
  "solo_push ord w t x =
     (let j = length (pos_hist w) - 1; pos = pos_hist w ! j; k = slot_of w pos; i = length (seq_hist w k) - 1;
          w1 = (load_write_pos w (Some t) j)\<lparr>sc := goto (sc w) t (PLoop x pos)\<rparr>;
          w2 = (load_sequence ord w1 (Some t) k i)\<lparr>sc := goto (sc w1) t (PSeq x pos pos)\<rparr>;
          w3 = (rmw_write_pos w2 (Some t) (pos + 1))\<lparr>sc := claim_pos (sc w2) t x pos\<rparr>;
          w4 = (access_data w3 (Some t) k)\<lparr>sc := write_slot (sc w3) t x pos\<rparr>
      in (store_sequence ord w4 (Some t) k (pos + 1))\<lparr>sc := publish_slot (sc w4) t pos\<rparr>)"

lemma solo_push_reachable:
  assumes r: "weak_reachable ord junk w" and pc: "prod (sc w) t = PIdle" and ne: "pos_hist w \<noteq> []"
    and p: "may_read_pos w (Some t) (length (pos_hist w) - 1)"
    and s: "may_read_seq w (Some t) (slot_of w (last (pos_hist w))) (length (seq_hist w (slot_of w (last (pos_hist w)))) - 1)"
    and free: "m_value (last (seq_hist w (slot_of w (last (pos_hist w))))) = last (pos_hist w)"
  shows "weak_reachable ord junk (solo_push ord w t x)"
proof -
  let ?j = "length (pos_hist w) - 1" and ?pos = "last (pos_hist w)"
  let ?k = "slot_of w ?pos" let ?i = "length (seq_hist w ?k) - 1"
  let ?w1 = "(load_write_pos w (Some t) ?j)\<lparr>sc := goto (sc w) t (PLoop x ?pos)\<rparr>"
  let ?w2 = "(load_sequence ord ?w1 (Some t) ?k ?i)\<lparr>sc := goto (sc ?w1) t (PSeq x ?pos ?pos)\<rparr>"
  let ?w3 = "(rmw_write_pos ?w2 (Some t) (?pos + 1))\<lparr>sc := claim_pos (sc ?w2) t x ?pos\<rparr>"
  let ?w4 = "(access_data ?w3 (Some t) ?k)\<lparr>sc := write_slot (sc ?w3) t x ?pos\<rparr>"
  let ?w5 = "(store_sequence ord ?w4 (Some t) ?k (?pos + 1))\<lparr>sc := publish_slot (sc ?w4) t ?pos\<rparr>"
  have pos: "pos_hist w ! ?j = ?pos" using ne by (simp add: last_conv_nth)
  have f: "prod (sc ?w1) t = PLoop x ?pos" "slot_of ?w1 ?pos = ?k" "seq_hist ?w1 = seq_hist w"
    "v_seq (views ?w1 (Some t)) = v_seq (views w (Some t))"
    by (simp_all add: load_write_pos_def)
  have ne': "seq_hist w ?k \<noteq> []" using s by (auto simp: may_read_seq_def)
  have "weak_step ord w ?w1" using w_load_pos [of w t ?j ord x, OF pc p] pos by simp
  note r1 = weak_reachable.w_step [OF r this]
  have v: "seq_value ?w1 ?k ?i = ?pos" using free f(3) ne' by (simp add: seq_value_def last_conv_nth)
  have "may_read_seq ?w1 (Some t) (slot_of ?w1 ?pos) ?i" using s f by (simp add: may_read_seq_def)
  from w_load_seq [OF f(1) this, of ord] have "weak_step ord ?w1 ?w2" using f(2) v by simp
  note r2 = weak_reachable.w_step [OF r1 this]
  have "weak_step ord ?w2 ?w3" by (rule w_cas_success) (simp_all add: load_write_pos_def)
  note r3 = weak_reachable.w_step [OF r2 this]
  have "prod (sc ?w3) t = PClaimed x ?pos" "slot_of ?w3 ?pos = ?k" by simp_all
  then have "weak_step ord ?w3 ?w4" using w_write_data [of ?w3 t x ?pos ord] by simp
  note r4 = weak_reachable.w_step [OF r3 this]
  have "prod (sc ?w4) t = PWritten x ?pos" "slot_of ?w4 ?pos = ?k" by simp_all
  then have "weak_step ord ?w4 ?w5" using w_publish [of ?w4 t x ?pos ord] by simp
  from weak_reachable.w_step [OF r4 this] show ?thesis unfolding solo_push_def Let_def pos .
qed

definition solo_pop :: "orders \<Rightarrow> 'a weak \<Rightarrow> 'a weak" where
  "solo_pop ord w =
     (let r = read_pos (ring (sc w)); k = slot_of w r; i = length (seq_hist w k) - 1;
          x = slot_data (slot_at (ring (sc w)) r);
          w1 = (load_sequence ord w None k i)\<lparr>sc := (sc w)\<lparr>cons := CMatched\<rparr>\<rparr>;
          w2 = (access_data w1 None k)\<lparr>sc := (sc w1)\<lparr>cons := CCopied x\<rparr>\<rparr>;
          w3 = (store_sequence ord w2 None k (r + of_nat (Capacity (ring (sc w)))))\<lparr>sc := release_slot (sc w2) x\<rparr>
      in w3\<lparr>sc := advance_read (sc w3) x\<rparr>)"

lemma solo_pop_reachable:
  assumes w: "weak_reachable ord junk w" and pc: "cons (sc w) = CIdle" and r: "r = read_pos (ring (sc w))"
    and s: "may_read_seq w None (slot_of w r) (length (seq_hist w (slot_of w r)) - 1)"
    and full: "m_value (last (seq_hist w (slot_of w r))) = r + 1"
  shows "weak_reachable ord junk (solo_pop ord w)"
proof -
  let ?k = "slot_of w r" let ?i = "length (seq_hist w ?k) - 1" and ?x = "slot_data (slot_at (ring (sc w)) r)"
  let ?w1 = "(load_sequence ord w None ?k ?i)\<lparr>sc := (sc w)\<lparr>cons := CMatched\<rparr>\<rparr>"
  let ?w2 = "(access_data ?w1 None ?k)\<lparr>sc := (sc ?w1)\<lparr>cons := CCopied ?x\<rparr>\<rparr>"
  let ?w3 = "(store_sequence ord ?w2 None ?k (r + of_nat (Capacity (ring (sc w)))))\<lparr>sc := release_slot (sc ?w2) ?x\<rparr>"
  have "seq_hist w ?k \<noteq> []" using s by (auto simp: may_read_seq_def)
  then have "seq_value w ?k ?i = r + 1" using full by (simp add: seq_value_def last_conv_nth)
  with w_pop_match [OF pc r s, of ord] have "weak_step ord w ?w1" by simp
  note r1 = weak_reachable.w_step [OF w this]
  have "cons (sc ?w1) = CMatched" "r = read_pos (ring (sc ?w1))" "slot_of ?w1 r = ?k" using r by simp_all
  with w_copy_data [of ?w1 r ord] have "weak_step ord ?w1 ?w2" by simp
  note r2 = weak_reachable.w_step [OF r1 this]
  have "cons (sc ?w2) = CCopied ?x" "r = read_pos (ring (sc ?w2))" "slot_of ?w2 r = ?k" using r by simp_all
  with w_release [of ?w2 ?x r ord] have "weak_step ord ?w2 ?w3" by simp
  note r3 = weak_reachable.w_step [OF r2 this]
  have "weak_step ord ?w3 (?w3\<lparr>sc := advance_read (sc ?w3) ?x\<rparr>)" by (rule w_advance) simp
  from weak_reachable.w_step [OF r3 this] show ?thesis unfolding solo_pop_def Let_def r .
qed

text \<open>What the two calls leave behind.\<close>

lemma solo_push_fields:
  fixes ord t x
  assumes ne: "pos_hist w \<noteq> []" and pos: "pos = last (pos_hist w)" and k: "k = slot_of w pos"
  defines "w' \<equiv> solo_push ord w t x"
  shows "sc w' = publish_slot (write_slot (claim_pos (sc w) t x pos) t x pos) t pos"
    and "seq_hist w' = (seq_hist w)(k := seq_hist w k @
           [\<lparr>m_value = pos + 1, m_view = carried_view (seq_store ord) (views w' (Some t)) k\<rparr>])"
    and "pos_hist w' = pos_hist w @ [pos + 1]" and "accesses w' = (accesses w)(k := Suc (accesses w k))"
    and "u \<noteq> Some t \<Longrightarrow> views w' u = views w u"
    and "v_pos (views w' (Some t)) = length (pos_hist w)"
    and "v_seq (views w' (Some t)) k = length (seq_hist w k)" and "v_acc (views w' (Some t)) k = Suc (accesses w k)"
proof -
  define j i where "j = length (pos_hist w) - 1" and "i = length (seq_hist w k) - 1"
  define w1 where "w1 = (load_write_pos w (Some t) j)\<lparr>sc := goto (sc w) t (PLoop x pos)\<rparr>"
  define w2 where "w2 = (load_sequence ord w1 (Some t) k i)\<lparr>sc := goto (sc w1) t (PSeq x pos pos)\<rparr>"
  define w3 where "w3 = (rmw_write_pos w2 (Some t) (pos + 1))\<lparr>sc := claim_pos (sc w2) t x pos\<rparr>"
  define w4 where "w4 = (access_data w3 (Some t) k)\<lparr>sc := write_slot (sc w3) t x pos\<rparr>"
  have pj: "pos_hist w ! j = pos" using ne pos by (simp add: j_def last_conv_nth)
  have f1: "sc w1 = goto (sc w) t (PLoop x pos)" "seq_hist w1 = seq_hist w" "pos_hist w1 = pos_hist w"
    "accesses w1 = accesses w" "\<And>u. u \<noteq> Some t \<Longrightarrow> views w1 u = views w u"
    by (simp_all add: w1_def load_write_pos_def)
  have w': "w' = (store_sequence ord w4 (Some t) k (pos + 1))\<lparr>sc := publish_slot (sc w4) t pos\<rparr>"
    unfolding w'_def solo_push_def Let_def j_def [symmetric] pj k [symmetric] w1_def [symmetric] f1(2)
      i_def [symmetric] w2_def [symmetric] w3_def [symmetric] w4_def [symmetric] ..
  have f2: "sc w2 = goto (sc w1) t (PSeq x pos pos)" "seq_hist w2 = seq_hist w" "pos_hist w2 = pos_hist w"
    "accesses w2 = accesses w" "\<And>u. u \<noteq> Some t \<Longrightarrow> views w2 u = views w u"
    using f1 by (auto simp: w2_def load_sequence_def)
  have f3: "sc w3 = claim_pos (sc w) t x pos" "seq_hist w3 = seq_hist w" "pos_hist w3 = pos_hist w @ [pos + 1]"
    "accesses w3 = accesses w" "\<And>u. u \<noteq> Some t \<Longrightarrow> views w3 u = views w u"
    "v_pos (views w3 (Some t)) = length (pos_hist w)"
    using f1 f2 by (simp_all add: w3_def rmw_write_pos_def claim_pos_def goto_def)
  have f4: "sc w4 = write_slot (sc w3) t x pos" "seq_hist w4 = seq_hist w" "pos_hist w4 = pos_hist w @ [pos + 1]"
    "accesses w4 = (accesses w)(k := Suc (accesses w k))" "\<And>u. u \<noteq> Some t \<Longrightarrow> views w4 u = views w u"
    "v_pos (views w4 (Some t)) = length (pos_hist w)" "v_acc (views w4 (Some t)) k = Suc (accesses w k)"
    using f3 by (simp_all add: w4_def access_data_def)
  show "sc w' = publish_slot (write_slot (claim_pos (sc w) t x pos) t x pos) t pos"
    "seq_hist w' = (seq_hist w)(k := seq_hist w k @
           [\<lparr>m_value = pos + 1, m_view = carried_view (seq_store ord) (views w' (Some t)) k\<rparr>])"
    "pos_hist w' = pos_hist w @ [pos + 1]" "accesses w' = (accesses w)(k := Suc (accesses w k))"
    "u \<noteq> Some t \<Longrightarrow> views w' u = views w u"
    "v_pos (views w' (Some t)) = length (pos_hist w)"
    "v_seq (views w' (Some t)) k = length (seq_hist w k)" "v_acc (views w' (Some t)) k = Suc (accesses w k)"
    unfolding w' using f3(1) f4 by (simp_all add: store_sequence_def Let_def)
qed

lemma solo_pop_fields:
  fixes ord
  assumes r: "r = read_pos (ring (sc w))" and k: "k = slot_of w r" and x: "x = slot_data (slot_at (ring (sc w)) r)"
  defines "w' \<equiv> solo_pop ord w"
  shows "sc w' = advance_read (release_slot (sc w) x) x"
    and "seq_hist w' = (seq_hist w)(k := seq_hist w k @
           [\<lparr>m_value = r + of_nat (Capacity (ring (sc w))), m_view = carried_view (seq_store ord) (views w' None) k\<rparr>])"
    and "pos_hist w' = pos_hist w" and "views w' (Some u) = views w (Some u)"
proof -
  define i where "i = length (seq_hist w k) - 1"
  define w1 where "w1 = (load_sequence ord w None k i)\<lparr>sc := (sc w)\<lparr>cons := CMatched\<rparr>\<rparr>"
  define w2 where "w2 = (access_data w1 None k)\<lparr>sc := (sc w1)\<lparr>cons := CCopied x\<rparr>\<rparr>"
  define w3 where "w3 = (store_sequence ord w2 None k (r + of_nat (Capacity (ring (sc w)))))\<lparr>sc := release_slot (sc w2) x\<rparr>"
  have w': "w' = w3\<lparr>sc := advance_read (sc w3) x\<rparr>"
    unfolding w'_def solo_pop_def Let_def r [symmetric] k [symmetric] x [symmetric]
      i_def [symmetric] w1_def [symmetric] w2_def [symmetric] w3_def [symmetric] ..
  have f1: "sc w1 = (sc w)\<lparr>cons := CMatched\<rparr>" "seq_hist w1 = seq_hist w" "pos_hist w1 = pos_hist w"
    "\<And>u. views w1 (Some u) = views w (Some u)"
    by (auto simp: w1_def load_sequence_def)
  have f2: "sc w2 = (sc w)\<lparr>cons := CCopied x\<rparr>" "seq_hist w2 = seq_hist w" "pos_hist w2 = pos_hist w"
    "\<And>u. views w2 (Some u) = views w (Some u)"
    using f1 by (simp_all add: w2_def access_data_def)
  have f3: "sc w3 = release_slot (sc w) x" "pos_hist w3 = pos_hist w" "\<And>u. views w3 (Some u) = views w (Some u)"
    "seq_hist w3 = (seq_hist w)(k := seq_hist w k @
      [\<lparr>m_value = r + of_nat (Capacity (ring (sc w))), m_view = carried_view (seq_store ord) (views w3 None) k\<rparr>])"
    using f2 by (simp_all add: w3_def store_sequence_def Let_def) (simp add: release_slot_def)
  show "sc w' = advance_read (release_slot (sc w) x) x"
    "seq_hist w' = (seq_hist w)(k := seq_hist w k @
      [\<lparr>m_value = r + of_nat (Capacity (ring (sc w))), m_view = carried_view (seq_store ord) (views w' None) k\<rparr>])"
    "pos_hist w' = pos_hist w" "views w' (Some u) = views w (Some u)"
    unfolding w' using f3 by simp_all
qed

subsection \<open>Concrete executions\<close>

text \<open>In a ring of two slots thread 1 pushes 5.\<close>

definition weak_one :: "orders \<Rightarrow> nat weak" where
  "weak_one ord = solo_push ord (weak_init [7, 7]) 1 5"

lemma weak_init_fields:
  "sc (weak_init junk) = mpsc_init junk" "seq_hist (weak_init junk) k = [\<lparr>m_value = of_nat k, m_view = first_view\<rparr>]"
  "pos_hist (weak_init junk) = [0]" "accesses (weak_init junk) = (\<lambda>_. 0)" "views (weak_init junk) th = first_view"
  by (simp_all add: weak_init_def)

lemma weak_one_reachable: "weak_reachable ord [7, 7] (weak_one ord)"
  unfolding weak_one_def
  by (rule solo_push_reachable [OF weak_reachable.w_start])
    (simp_all add: weak_init_fields mpsc_init_def may_read_pos_def may_read_seq_def first_view_def
      slot_index_mod [OF capacity_ok_2] numeral_2_eq_2 [symmetric])

lemma weak_one_fields:
  "sc (weak_one ord) = demo_one" "pos_hist (weak_one ord) = [0, 1]" "accesses (weak_one ord) 0 = 1"
  "u \<noteq> Some 1 \<Longrightarrow> views (weak_one ord) u = first_view"
  "seq_hist (weak_one ord) 0 =
     [\<lparr>m_value = 0, m_view = first_view\<rparr>,
      \<lparr>m_value = 1, m_view = carried_view (seq_store ord) (views (weak_one ord) (Some 1)) 0\<rparr>]"
  "seq_hist (weak_one ord) 1 = [\<lparr>m_value = 1, m_view = first_view\<rparr>]"
proof -
  let ?w = "weak_init [7, 7 :: nat]"
  have slot: "0 = slot_of ?w 0"
    by (simp add: weak_init_fields mpsc_init_def slot_index_mod [OF capacity_ok_2] numeral_2_eq_2 [symmetric])
  have "publish_slot (write_slot (claim_pos (mpsc_init [7, 7]) 1 5 0) 1 5 0) 1 0 = demo_one"
    by (simp add: demo_one_def mpsc_init_def MPSCRingBuffer_init_def demo_eval upt_rec numeral_2_eq_2 [symmetric])
  with solo_push_fields [where w = ?w and pos = 0 and k = 0 and ord = ord and t = 1 and x = 5] slot
  show "sc (weak_one ord) = demo_one" "pos_hist (weak_one ord) = [0, 1]" "accesses (weak_one ord) 0 = 1"
    "u \<noteq> Some 1 \<Longrightarrow> views (weak_one ord) u = first_view"
    "seq_hist (weak_one ord) 0 =
       [\<lparr>m_value = 0, m_view = first_view\<rparr>,
        \<lparr>m_value = 1, m_view = carried_view (seq_store ord) (views (weak_one ord) (Some 1)) 0\<rparr>]"
    "seq_hist (weak_one ord) 1 = [\<lparr>m_value = 1, m_view = first_view\<rparr>]"
    by (simp_all add: weak_one_def weak_init_fields)
qed

text \<open>
  The two orders are what keeps the entry from racing: with a relaxed load, or a relaxed store, the
  consumer may see the number 1 and not the write of the entry.
\<close>

lemma weaker_orders_race:
  assumes "\<not> (acquires (seq_load ord) \<and> releases (seq_store ord))"
  shows "\<exists>w. weak_reachable ord [7, 7 :: nat] w \<and> claimed (sc w) = [5] \<and> raced w"
proof -
  let ?w = "weak_one ord" let ?w1 = "(load_sequence ord ?w None 0 1)\<lparr>sc := (sc ?w)\<lparr>cons := CMatched\<rparr>\<rparr>"
  let ?w2 = "(access_data ?w1 None 0)\<lparr>sc := (sc ?w1)\<lparr>cons := CCopied (slot_data (slot_at (ring (sc ?w1)) 0))\<rparr>\<rparr>"
  have d: "cons demo_one = CIdle" "read_pos (ring demo_one) = 0" "claimed demo_one = [5]"
    "slot_index (Capacity (ring demo_one)) 0 = 0"
    by (simp_all add: demo_one_def demo_eval numeral_2_eq_2 [symmetric])
  have "weak_step ord ?w ?w1"
    using w_pop_match [of ?w 0 1 ord] by (simp add: weak_one_fields d may_read_seq_def seq_value_def first_view_def)
  note r1 = weak_reachable.w_step [OF weak_one_reachable this]
  have "weak_step ord ?w1 ?w2" using w_copy_data [of ?w1 0 ord] by (simp add: weak_one_fields d)
  note r2 = weak_reachable.w_step [OF r1 this]
  have "v_acc (views ?w1 None) 0 = 0"
    using assms
    by (auto simp: load_sequence_def see_message_def Let_def join_view_def weak_one_fields carried_view_def first_view_def)
  then have "raced ?w2" by (simp add: access_data_def weak_one_fields)
  moreover have "claimed (sc ?w2) = [5]" by (simp add: weak_one_fields d)
  ultimately show ?thesis using r2 by blast
qed

text \<open>
  What the weaker loads do change: a producer that has not heard of a release may find the ring
  full although it is not. Thread 1 pushes 5, the consumer takes it, thread 1 pushes 6; thread 2 sees the
  position 2 but the first value of slot 0, and gives up.
\<close>

lemma weak_reachable_free_inv:
  assumes "weak_reachable ring_orders [7, 7 :: nat] w" and "length (claimed (sc w)) < 2 ^ 31"
  shows "weak_inv w"
  using assms weak_reachable_inv [OF assms(1)] weak_reachable_Capacity [OF assms(1)] capacity_ok_2
  by (simp add: numeral_2_eq_2 [symmetric])

lemma stale_push_gives_up:
  "\<exists>w. weak_reachable ring_orders [7, 7 :: nat] w \<and> prod (sc w) 2 = PSeq 9 2 0 \<and>
       length (claimed (sc w)) < released (sc w) + 2"
proof -
  let ?a = "weak_one ring_orders" let ?b = "solo_pop ring_orders ?a" let ?c = "solo_push ring_orders ?b 1 6"
  note sa = weak_one_fields(1) [of ring_orders]
  have d: "cons demo_one = CIdle" "read_pos (ring demo_one) = 0" "claimed demo_one = [5]" "popped demo_one = []"
    "slot_index 2 0 = 0" "slot_data (slot_at (ring demo_one) 0) = 5"
    "Capacity (ring demo_one) = 2" "prod demo_one t = PIdle" for t
    by (simp_all add: demo_one_def demo_eval numeral_2_eq_2 [symmetric])
  have rb: "weak_reachable ring_orders [7, 7] ?b"
    by (rule solo_pop_reachable [where r = 0, OF weak_one_reachable])
      (simp_all add: weak_one_fields d may_read_seq_def first_view_def)
  note fb = solo_pop_fields [where w = ?a and r = 0 and k = 0 and x = 5 and ord = ring_orders]
  have b: "sc ?b = advance_read (release_slot demo_one 5) 5" "pos_hist ?b = [0, 1]"
    "seq_hist ?b 1 = [\<lparr>m_value = 1, m_view = first_view\<rparr>]" "views ?b (Some 2) = first_view"
    "length (seq_hist ?b 0) = 3" "seq_hist ?b 0 ! 0 = \<lparr>m_value = 0, m_view = first_view\<rparr>"
    using fb by (simp_all add: weak_one_fields d del: One_nat_def)
  have cb: "Capacity (ring (sc ?b)) = 2" "claimed (sc ?b) = [5]" "popped (sc ?b) = [5]" "prod (sc ?b) t = PIdle" "cons (sc ?b) = CIdle" for t
    using d by (simp_all add: b advance_read_def)
  have i1: "slot_of ?b 1 = 1" "slot_of ?b 2 = 0" "slot_index 2 1 = 1"
    by (simp_all add: cb slot_index_mod [OF capacity_ok_2])
  have vb: "v_pos (views ?b (Some 1)) \<le> Suc 0" "v_seq (views ?b (Some 1)) 1 = 0"
    using view_okD(2) [OF weak_reachable_free_inv [OF rb], where th = "Some 1"]
      view_okD(3) [OF weak_reachable_free_inv [OF rb], where th = "Some 1" and k = 1] cb(1,2) b(2,3)
    by (simp_all del: One_nat_def)
  have rc: "weak_reachable ring_orders [7, 7] ?c"
    by (rule solo_push_reachable [OF rb])
      (simp_all add: b(2,3) cb i1 vb may_read_pos_def may_read_seq_def del: One_nat_def)
  have c: "sc ?c = publish_slot (write_slot (claim_pos (sc ?b) 1 6 1) 1 6 1) 1 1" "pos_hist ?c = [0, 1, 2]"
    "views ?c (Some 2) = first_view" "length (seq_hist ?c 0) = 3"
    "seq_hist ?c 0 ! 0 = \<lparr>m_value = 0, m_view = first_view\<rparr>"
    using solo_push_fields [where w = ?b and pos = 1 and k = 1 and ord = ring_orders and t = 1 and x = 6] by (simp_all add: b(2-) i1 del: One_nat_def)
  let ?d = "(load_write_pos ?c (Some 2) 2)\<lparr>sc := goto (sc ?c) 2 (PLoop 9 2)\<rparr>"
  let ?e = "(load_sequence ring_orders ?d (Some 2) 0 0)\<lparr>sc := goto (sc ?d) 2 (PSeq 9 2 0)\<rparr>"
  have pc: "prod (sc ?c) 2 = PIdle" "Capacity (ring (sc ?c)) = 2" using cb by (simp_all add: c del: One_nat_def)
  have "weak_step ring_orders ?c ?d"
    using w_load_pos [of ?c 2 2 ring_orders 9, OF pc(1)] by (simp add: c may_read_pos_def first_view_def del: One_nat_def)
  note rd = weak_reachable.w_step [OF rc this]
  have i0: "slot_of ?d 2 = 0" using pc(2) by (simp add: slot_index_mod [OF capacity_ok_2] del: One_nat_def)
  have sd: "seq_hist ?d = seq_hist ?c" "views ?d (Some 2) = first_view\<lparr>v_pos := 2\<rparr>"
    by (simp_all add: load_write_pos_def c del: One_nat_def)
  have "may_read_seq ?d (Some 2) (slot_of ?d 2) 0" unfolding i0 may_read_seq_def sd using c(4)
    by (simp add: first_view_def)
  from w_load_seq [of ?d 2 9 2 0 ring_orders, OF _ this] have "weak_step ring_orders ?d ?e"
    unfolding i0 seq_value_def sd(1) c(5) by simp
  from weak_reachable.w_step [OF rd this] show ?thesis
    by (intro exI [of _ ?e] conjI) (simp_all add: c cb released_def del: One_nat_def)
qed

subsection \<open>Properties\<close>

text \<open>
  C8: the ring is correct under the memory orders it asks for. In every execution in which each load returns
  any value C++ allows, with acquire loads and release stores of the sequence numbers and relaxed accesses to
  \<open>write_pos_\<close>: no access to an entry races with another, every two stores to a sequence number are
  ordered, the entries returned are the first entries claimed, in claim order, and at most
  \<open>Capacity\<close> claimed positions have not been given back. When no thread is inside a method, the ring in
  memory is a well-formed sequential ring that holds the claimed entries not yet returned.
\<close>

theorem weak_ring_correct:
  assumes "weak_reachable ring_orders junk w" and "capacity_ok (length junk)"
    and "length (claimed (sc w)) + length junk \<le> 2 ^ 32"
  shows "\<not> raced w \<and> popped (sc w) = take (length (popped (sc w))) (claimed (sc w)) \<and>
         length (claimed (sc w)) \<le> released (sc w) + length junk \<and>
         (quiescent (sc w) \<longrightarrow> ring_wf (ring (sc w)) \<and>
            ring_list (ring (sc w)) = drop (length (popped (sc w))) (claimed (sc w)))"
proof -
  have C: "Capacity (ring (sc w)) = length junk" using weak_reachable_Capacity [OF assms(1)] .
  with assms(3) have inv: "weak_inv w" by (intro weak_reachable_inv [OF assms(1,2)]) simp
  from mpsc_invD(1) [OF weak_invD(1) [OF inv]] weak_invD(7) [OF inv] quiescent_ring [OF weak_invD(1) [OF inv]] C
  show ?thesis by (simp add: inv_pos_def)
qed

theorem weak_ring_correct_witness:
  "\<exists>w. weak_reachable ring_orders [7, 7 :: nat] w \<and> claimed (sc w) = [5, 6] \<and> popped (sc w) = [5] \<and>
       \<not> raced w \<and> length (claimed (sc w)) \<le> released (sc w) + 2 \<and> ring_list (ring (sc w)) = [6]"
proof -
  let ?s = "advance_read (release_slot demo_two 5) 5"
  have "mpsc_step\<^sup>*\<^sup>* demo_two ?s"
    using solo_pop_steps [of demo_two 0] by (simp add: demo_two_def demo_eval numeral_2_eq_2 [symmetric])
  then have r: "mpsc_reachable [7, 7] ?s" by (rule mpsc_reachable_steps) (rule demo_two_reachable)
  have f: "claimed ?s = [5, 6]" "popped ?s = [5]" "quiescent ?s"
    by (simp_all add: demo_two_def demo_eval quiescent_def)
  have cap: "capacity_ok (length [7, 7 :: nat])" by (simp add: capacity_ok_2 numeral_2_eq_2 [symmetric])
  obtain w where w: "weak_reachable ring_orders [7, 7] w" "sc w = ?s"
    using mpsc_reachable_weak [OF r cap] f by auto
  from weak_ring_correct [OF w(1) cap] w(2) f have "\<not> raced w \<and> length (claimed (sc w)) \<le> released (sc w) + 2 \<and> ring_list (ring (sc w)) = [6]" by simp
  with w f show ?thesis by metis
qed

text \<open>
  C9: the reports of a full and of an empty ring under the memory orders of the source. A producer that is ordered
  after every store to the number of its slot gives up only when every slot is claimed and not given back, and a
  consumer that is ordered after every store to the number of its slot reports emptiness only when everything
  claimed was returned or a producer owns the next position. Whoever stored last is so ordered, and so is every
  thread that synchronised with one that is.
\<close>

theorem ordered_reports_right:
  assumes "weak_reachable ring_orders junk w" and "capacity_ok (length junk)"
    and "length (claimed (sc w)) + length junk \<le> 2 ^ 32"
  shows "(\<forall>t x pos i. prod (sc w) t = PLoop x pos \<longrightarrow> informed w (Some t) (slot_of w pos) \<longrightarrow>
            may_read_seq w (Some t) (slot_of w pos) i \<longrightarrow> seq_value w (slot_of w pos) i < pos \<longrightarrow>
            length (claimed (sc w)) = released (sc w) + length junk) \<and>
         (\<forall>r i. cons (sc w) = CIdle \<longrightarrow> r = read_pos (ring (sc w)) \<longrightarrow> informed w None (slot_of w r) \<longrightarrow>
            may_read_seq w None (slot_of w r) i \<longrightarrow> seq_value w (slot_of w r) i \<noteq> r + 1 \<longrightarrow>
            popped (sc w) = claimed (sc w) \<or>
            (\<exists>t v. owned (prod (sc w) t) = Some (length (popped (sc w)), claimed (sc w) ! length (popped (sc w)), v))) \<and>
         (\<forall>t u k. k < length junk \<longrightarrow> informed w u k \<longrightarrow> informed (synchronise w t u) t k) \<and>
         (\<forall>t k val. informed (store_sequence ring_orders w t k val) t k)"
proof (intro conjI allI impI)
  have C: "Capacity (ring (sc w)) = length junk" using weak_reachable_Capacity [OF assms(1)] .
  with assms(3) have inv: "weak_inv w" by (intro weak_reachable_inv [OF assms(1,2)]) simp
  note mi = weak_invD(1) [OF inv] and last = informed_reads_last [OF inv weak_capacity(3) [OF inv]]
  show "length (claimed (sc w)) = released (sc w) + length junk"
    if "prod (sc w) t = PLoop x pos" "informed w (Some t) (slot_of w pos)" "may_read_seq w (Some t) (slot_of w pos) i"
      "seq_value w (slot_of w pos) i < pos" for t x pos i
  proof -
    have "unat pos \<le> length (claimed (sc w))" using mpsc_invD(4) [OF mi] that(1) by (metis inv_local_def local_ok.simps(1))
    with push_false_full [OF mi _ this] that(4) last [OF that(2,3)] assms(3) C show ?thesis by (simp add: slot_at_def)
  qed
  show "popped (sc w) = claimed (sc w) \<or>
      (\<exists>t v. owned (prod (sc w) t) = Some (length (popped (sc w)), claimed (sc w) ! length (popped (sc w)), v))"
    if "cons (sc w) = CIdle" "r = read_pos (ring (sc w))" "informed w None (slot_of w r)"
      "may_read_seq w None (slot_of w r) i" "seq_value w (slot_of w r) i \<noteq> r + 1" for r i
    using pop_empty_pending [OF mi that(1)] last [OF that(3,4)] that(2,5) by (simp add: slot_at_def)
  show "informed (synchronise w t u) t k" if "k < length junk" "informed w u k" for t u k
    using synchronise_informs [OF inv _ that(2)] that(1) C by simp
qed (rule store_informs)

theorem ordered_reports_right_witness:
  "\<exists>w. weak_reachable ring_orders [7, 7 :: nat] w \<and> prod (sc w) 1 = PLoop 9 2 \<and> informed w (Some 1) (slot_of w 2) \<and>
       length (claimed (sc w)) = released (sc w) + 2"
proof -
  let ?s = "goto demo_two 1 (PLoop 9 2)"
  have "mpsc_step demo_two (goto demo_two 1 (PLoop 9 (write_pos (ring demo_two))))"
    by (rule load_pos) (simp add: demo_two_def)
  then have "mpsc_reachable [7, 7] ?s"
    using mpsc_reachable.step [OF demo_two_reachable] by (simp add: demo_two_def)
  moreover have cap: "capacity_ok (length [7, 7 :: nat])" by (simp add: capacity_ok_2 numeral_2_eq_2 [symmetric])
  ultimately obtain w where w: "weak_reachable ring_orders [7, 7] w" "sc w = ?s"
    using mpsc_reachable_weak [of "[7, 7]" ?s] by (auto simp: demo_two_def)
  have d: "Capacity (ring ?s) = 2" "claimed ?s = [5, 6]" "slot_index 2 2 = 0" "sequence (buffer (ring ?s) ! 0) = 1"
    by (simp_all add: demo_two_def demo_eval numeral_2_eq_2 [symmetric])
  obtain u where u: "informed w u 0" using someone_informed [OF w(1) cap, of 0] w(2) d by auto
  let ?w = "synchronise w (Some 1) u"
  have r: "weak_reachable ring_orders [7, 7] ?w" using weak_reachable.w_sync [OF w(1)] .
  have inv: "weak_inv ?w" using weak_reachable_free_inv [OF r] w(2) d by simp
  have inv0: "weak_inv w" using weak_reachable_free_inv [OF w(1)] w(2) d by simp
  have i: "informed ?w (Some 1) 0" using synchronise_informs [OF inv0 _ u] w(2) d by simp
  let ?i = "v_seq (views ?w (Some 1)) 0"
  have m: "may_read_seq ?w (Some 1) 0 ?i" using view_okD(3) [OF inv] w(2) d by (simp add: may_read_seq_def)
  have "seq_value ?w 0 ?i = 1" using informed_reads_last [OF inv _ i m] w(2) d by simp
  then have v: "seq_value ?w 0 ?i < 2" by simp
  have p: "prod (sc ?w) 1 = PLoop 9 2" "slot_of ?w 2 = 0" using w(2) d by simp_all
  have b: "length (claimed (sc ?w)) + length [7, 7 :: nat] \<le> 2 ^ 32" using w(2) d by simp
  from conjunct1 [OF ordered_reports_right [OF r cap b], rule_format, of 1 9 2 ?i] p i m v
  have "length (claimed (sc ?w)) = released (sc ?w) + 2" by simp
  with r i p show ?thesis by metis
qed

end
