(* ===== verification/Ring_Calls.thy ===== *)
theory Ring_Calls
  imports Ring_Concurrent
begin

text \<open>
  The calls of the concurrent ring buffer with the threads that make them and the values they return. A call
  of \<open>TryPush\<close> begins with \<open>TryPush_call\<close> and goes on with \<open>TryPush_act t r\<close>, where \<open>r\<close> is
  \<open>None\<close> while the call runs and its result when the access is the last one; likewise \<open>TryPop_act r\<close> for
  the consumer. These are the steps of \<open>Ring_Concurrent\<close> with labels, no more and no fewer
  (\<open>mpsc_step_iff\<close>), and the lemmas say what a client may rely on: which part of the shared state an access of
  one side leaves alone.
\<close>

subsection \<open>Accesses with their thread and result\<close>

definition TryPush_call :: "nat \<Rightarrow> 'a \<Rightarrow> 'a mpsc \<Rightarrow> 'a mpsc" where
  "TryPush_call t x s = goto s t (PLoop x (write_pos (ring s)))"

inductive TryPush_act :: "nat \<Rightarrow> bool option \<Rightarrow> 'a mpsc \<Rightarrow> 'a mpsc \<Rightarrow> bool" for t where
  act_load: "prod s t = PLoop x pos \<Longrightarrow>
     TryPush_act t None s (goto s t (PSeq x pos (sequence (slot_at (ring s) pos))))"
| act_claim: "prod s t = PSeq x pos pos \<Longrightarrow> write_pos (ring s) = pos \<Longrightarrow>
     TryPush_act t None s (claim_pos s t x pos)"
| act_retry: "prod s t = PSeq x pos pos \<Longrightarrow>
     TryPush_act t None s (goto s t (PLoop x (write_pos (ring s))))"
| act_full: "prod s t = PSeq x pos seq \<Longrightarrow> seq \<noteq> pos \<Longrightarrow> seq < pos \<Longrightarrow>
     TryPush_act t (Some False) s (goto s t PIdle)"
| act_reload: "prod s t = PSeq x pos seq \<Longrightarrow> seq \<noteq> pos \<Longrightarrow> \<not> seq < pos \<Longrightarrow>
     TryPush_act t None s (goto s t (PLoop x (write_pos (ring s))))"
| act_write: "prod s t = PClaimed x pos \<Longrightarrow> TryPush_act t None s (write_slot s t x pos)"
| act_publish: "prod s t = PWritten x pos \<Longrightarrow> TryPush_act t (Some True) s (publish_slot s t pos)"

inductive TryPop_act :: "'a option option \<Rightarrow> 'a mpsc \<Rightarrow> 'a mpsc \<Rightarrow> bool" where
  act_match: "cons s = CIdle \<Longrightarrow> sequence (slot_at (ring s) (read_pos (ring s))) = read_pos (ring s) + 1 \<Longrightarrow>
     TryPop_act None s (s\<lparr>cons := CMatched\<rparr>)"
| act_empty: "cons s = CIdle \<Longrightarrow> sequence (slot_at (ring s) (read_pos (ring s))) \<noteq> read_pos (ring s) + 1 \<Longrightarrow>
     TryPop_act (Some None) s s"
| act_copy: "cons s = CMatched \<Longrightarrow>
     TryPop_act None s (s\<lparr>cons := CCopied (slot_data (slot_at (ring s) (read_pos (ring s))))\<rparr>)"
| act_release: "cons s = CCopied x \<Longrightarrow> TryPop_act None s (release_slot s x)"
| act_advance: "cons s = CReleased x \<Longrightarrow> TryPop_act (Some (Some x)) s (advance_read s x)"

lemmas mpsc_act_intros = TryPush_act.intros TryPop_act.intros

inductive_cases TryPush_doneE: "TryPush_act t (Some b) s s'"
inductive_cases TryPop_emptyE: "TryPop_act (Some None) s s'"
inductive_cases TryPop_entryE: "TryPop_act (Some (Some x)) s s'"

text \<open>The labelled accesses are the steps of the ring.\<close>

lemma mpsc_step_iff:
  "mpsc_step s s' \<longleftrightarrow> (\<exists>t x. prod s t = PIdle \<and> s' = TryPush_call t x s) \<or>
     (\<exists>t r. TryPush_act t r s s') \<or> (\<exists>r. TryPop_act r s s')"
proof
  assume "mpsc_step s s'"
  then show "(\<exists>t x. prod s t = PIdle \<and> s' = TryPush_call t x s) \<or>
     (\<exists>t r. TryPush_act t r s s') \<or> (\<exists>r. TryPop_act r s s')"
    unfolding TryPush_call_def by cases (blast intro: mpsc_act_intros)+
next
  assume "(\<exists>t x. prod s t = PIdle \<and> s' = TryPush_call t x s) \<or>
     (\<exists>t r. TryPush_act t r s s') \<or> (\<exists>r. TryPop_act r s s')"
  then show "mpsc_step s s'"
    by (auto simp: TryPush_call_def elim!: TryPush_act.cases TryPop_act.cases intro: mpsc_step.intros)
qed

subsection \<open>What an access leaves alone\<close>

text \<open>The entry a producer is pushing, and whether it still has to claim a position for it.\<close>

fun push_entry :: "'a producer \<Rightarrow> 'a option" where
  "push_entry PIdle = None"
| "push_entry (PLoop x _) = Some x"
| "push_entry (PSeq x _ _) = Some x"
| "push_entry (PClaimed x _) = Some x"
| "push_entry (PWritten x _) = Some x"

fun unclaimed :: "'a producer \<Rightarrow> bool" where
  "unclaimed (PLoop _ _) = True"
| "unclaimed (PSeq _ _ _) = True"
| "unclaimed _ = False"

lemma push_entry_None [simp]: "push_entry p = None \<longleftrightarrow> p = PIdle"
  by (cases p) simp_all

lemma TryPush_call_fields [simp]:
  "cons (TryPush_call t x s) = cons s" "claimed (TryPush_call t x s) = claimed s"
  "popped (TryPush_call t x s) = popped s" "prod (TryPush_call t x s) u = (if u = t then PLoop x (write_pos (ring s)) else prod s u)"
  by (simp_all add: TryPush_call_def)

lemma TryPush_act_frame:
  assumes "TryPush_act t r s s'"
  shows "cons s' = cons s" and "popped s' = popped s" and "u \<noteq> t \<Longrightarrow> prod s' u = prod s u" and "prod s t \<noteq> PIdle"
  using assms by (cases; simp)+

text \<open>An access of a producer either claims its entry or leaves the claimed entries alone.\<close>

lemma TryPush_act_cases [consumes 1, case_names claim keep accept reject]:
  assumes "TryPush_act t r s s'"
  obtains (claim) x where "r = None" "push_entry (prod s t) = Some x" "unclaimed (prod s t)"
      "push_entry (prod s' t) = Some x" "\<not> unclaimed (prod s' t)" "claimed s' = claimed s @ [x]"
  | (keep) x where "r = None" "push_entry (prod s t) = Some x" "push_entry (prod s' t) = Some x"
      "unclaimed (prod s' t) = unclaimed (prod s t)" "claimed s' = claimed s"
  | (accept) x where "r = Some True" "push_entry (prod s t) = Some x" "\<not> unclaimed (prod s t)"
      "prod s' t = PIdle" "claimed s' = claimed s"
  | (reject) x where "r = Some False" "push_entry (prod s t) = Some x" "unclaimed (prod s t)"
      "prod s' t = PIdle" "claimed s' = claimed s"
  using assms by cases auto

lemma TryPop_act_frame:
  assumes "TryPop_act r s s'"
  shows "prod s' = prod s" and "claimed s' = claimed s"
    and "popped s' = popped s @ (case r of Some (Some x) \<Rightarrow> [x] | _ \<Rightarrow> [])"
  using assms by (cases; simp add: release_slot_def advance_read_def Let_def)+

lemma TryPop_done: "TryPop_act (Some r) s s' \<Longrightarrow> cons s' = CIdle"
  by (erule TryPop_act.cases) (simp_all add: advance_read_def)

text \<open>No access waits for another thread: a call that has begun can always take its next access.\<close>

lemma TryPush_act_enabled: "prod s t \<noteq> PIdle \<Longrightarrow> \<exists>r s'. TryPush_act t r s s'"
  by (cases "prod s t") (auto intro: TryPush_act.intros, metis act_retry act_full act_reload)

lemma TryPop_act_enabled: "\<exists>r s'. TryPop_act r s s'"
  by (cases "cons s") (blast intro: TryPop_act.intros)+

lemma TryPush_reachable: "mpsc_reachable junk s \<Longrightarrow> TryPush_act t r s s' \<Longrightarrow> mpsc_reachable junk s'"
  by (rule mpsc_reachable.step) (auto simp: mpsc_step_iff)

lemma TryPop_reachable: "mpsc_reachable junk s \<Longrightarrow> TryPop_act r s s' \<Longrightarrow> mpsc_reachable junk s'"
  by (rule mpsc_reachable.step) (auto simp: mpsc_step_iff)

lemma TryPush_call_reachable:
  "mpsc_reachable junk s \<Longrightarrow> prod s t = PIdle \<Longrightarrow> mpsc_reachable junk (TryPush_call t x s)"
  by (rule mpsc_reachable.step) (auto simp: mpsc_step_iff)

subsection \<open>Calls that are not interrupted\<close>

text \<open>
  \<open>push_run t x s b s'\<close>: thread \<open>t\<close> calls \<open>TryPush(x)\<close> in the state \<open>s\<close> and takes all its accesses without another
  thread taking one in between; the call returns \<open>b\<close> and leaves the state \<open>s'\<close>. Likewise for the consumer.
\<close>

definition push_run :: "nat \<Rightarrow> 'a \<Rightarrow> 'a mpsc \<Rightarrow> bool \<Rightarrow> 'a mpsc \<Rightarrow> bool" where
  "push_run t x s b s' \<longleftrightarrow> (\<exists>s1. (TryPush_act t None)\<^sup>*\<^sup>* (TryPush_call t x s) s1 \<and> TryPush_act t (Some b) s1 s')"

definition pop_run :: "'a mpsc \<Rightarrow> 'a option \<Rightarrow> 'a mpsc \<Rightarrow> bool" where
  "pop_run s r s' \<longleftrightarrow> (\<exists>s1. (TryPop_act None)\<^sup>*\<^sup>* s s1 \<and> TryPop_act (Some r) s1 s')"

text \<open>The states such a push goes through.\<close>

definition push_point :: "nat \<Rightarrow> 'a \<Rightarrow> 'a mpsc \<Rightarrow> 'a mpsc \<Rightarrow> bool" where
  "push_point t x s s1 \<longleftrightarrow> (let w = write_pos (ring s); q = sequence (slot_at (ring s) w) in
     s1 = goto s t (PLoop x w) \<or> s1 = goto s t (PSeq x w q) \<or>
     q = w \<and> (s1 = claim_pos s t x w \<or> s1 = write_slot (claim_pos s t x w) t x w))"

lemma goto_goto: "goto (goto s t p) t p' = goto s t p'"
  by (simp add: goto_def)

lemma claim_goto: "claim_pos (goto s t p) t x w = claim_pos s t x w"
  by (simp add: goto_def claim_pos_def)

lemma push_point_step: "push_point t x s s1 \<Longrightarrow> TryPush_act t None s1 s2 \<Longrightarrow> push_point t x s s2"
  unfolding push_point_def Let_def
  by (elim disjE conjE; erule TryPush_act.cases) (auto simp: goto_goto claim_goto)

lemma push_points: "(TryPush_act t None)\<^sup>*\<^sup>* (TryPush_call t x s) s1 \<Longrightarrow> push_point t x s s1"
proof (induction rule: rtranclp_induct)
  case base
  show ?case by (simp add: push_point_def TryPush_call_def Let_def)
qed (rule push_point_step)

text \<open>The state after the call, given the ring it leaves.\<close>

definition pushed :: "'a mpsc \<Rightarrow> 'a \<Rightarrow> bool \<Rightarrow> 'a MPSCRingBuffer \<Rightarrow> 'a mpsc" where
  "pushed s x b rb = s\<lparr>ring := rb, claimed := claimed s @ (if b then [x] else [])\<rparr>"

definition returned :: "'a mpsc \<Rightarrow> 'a option \<Rightarrow> 'a MPSCRingBuffer \<Rightarrow> 'a mpsc" where
  "returned s r rb = s\<lparr>ring := rb, popped := popped s @ (case r of None \<Rightarrow> [] | Some x \<Rightarrow> [x])\<rparr>"

lemma pushed_fields [simp]:
  "ring (pushed s x b rb) = rb" "claimed (pushed s x b rb) = claimed s @ (if b then [x] else [])"
  "popped (pushed s x b rb) = popped s" "quiescent (pushed s x b rb) = quiescent s"
  by (simp_all add: pushed_def quiescent_def)

lemma returned_fields [simp]:
  "ring (returned s r rb) = rb" "popped (returned s r rb) = popped s @ (case r of None \<Rightarrow> [] | Some x \<Rightarrow> [x])"
  "claimed (returned s r rb) = claimed s" "quiescent (returned s r rb) = quiescent s"
  by (simp_all add: returned_def quiescent_def)

lemma pushed_true:
  assumes "prod s t = PIdle"
  shows "publish_slot (write_slot (claim_pos s t x w) t x w) t w =
    pushed s x True (ring (publish_slot (write_slot (claim_pos s t x w) t x w) t w))"
  using assms by (simp add: pushed_def publish_slot_def write_slot_def claim_pos_def fun_upd_idem)

lemma goto_idle: "prod s t = PIdle \<Longrightarrow> goto s t PIdle = s"
  by (simp add: goto_def fun_upd_idem)

lemma push_return:
  assumes idle: "prod s t = PIdle" and cap: "capacity_ok (Capacity (ring s))"
    and "push_point t x s s1" and "TryPush_act t (Some b) s1 s'"
  shows "TryPush (ring s) x = Some (b, ring s') \<and> s' = pushed s x b (ring s')"
  using assms(4)
proof cases
  case (act_full x' pos seq)
  then have "seq = sequence (slot_at (ring s) pos)" "pos = write_pos (ring s)" "s' = s"
    using assms(3) goto_idle [OF idle] by (auto simp: push_point_def Let_def goto_goto)
  moreover from this act_full(4,5) have
    "sequence (slot_at (ring s) (write_pos (ring s))) \<noteq> write_pos (ring s)"
    "sequence (slot_at (ring s) (write_pos (ring s))) < write_pos (ring s)" by simp_all
  then have "TryPush (ring s) x = Some (False, ring s)"
    by (simp add: TryPush_def TryPush_loop.simps [of "ring s" x "write_pos (ring s)"] Let_def)
  ultimately show ?thesis using act_full(1) by (simp add: pushed_def)
next
  case (act_publish x' pos)
  then have "x' = x" "pos = write_pos (ring s)" "sequence (slot_at (ring s) pos) = pos"
    "s' = publish_slot (write_slot (claim_pos s t x pos) t x pos) t pos"
    using assms(3) by (auto simp: push_point_def Let_def)
  then show ?thesis using act_publish(1) solo_push_ring [OF cap _ _, of pos x t] pushed_true [OF idle, of x pos] by simp
qed

lemma push_exists:
  assumes idle: "prod s t = PIdle" and cap: "capacity_ok (Capacity (ring s))"
    and push: "TryPush (ring s) x = Some (b, rb)"
  shows "push_run t x s b (pushed s x b rb)"
proof -
  define w where "w = write_pos (ring s)"
  define q where "q = sequence (slot_at (ring s) w)"
  let ?s2 = "goto s t (PSeq x w q)"
  have load: "TryPush_act t None (TryPush_call t x s) ?s2"
    using act_load [of "TryPush_call t x s" t x w] by (simp add: TryPush_call_def goto_goto w_def q_def)
  consider "q = w" | "q \<noteq> w" "q < w"
    using TryPush_loop_diverges [of "ring s" x] push by (auto simp: TryPush_def q_def w_def)
  then show ?thesis
  proof cases
    case 1
    let ?s3 = "claim_pos s t x w" and ?s4 = "write_slot (claim_pos s t x w) t x w"
    have "TryPush_act t None ?s2 ?s3" using act_claim [of ?s2 t x w] 1 by (simp add: claim_goto w_def)
    moreover have "TryPush_act t None ?s3 ?s4" by (intro act_write) simp
    moreover have "TryPush_act t (Some True) ?s4 (publish_slot ?s4 t w)" by (intro act_publish [where x = x]) simp
    moreover have "TryPush (ring s) x = Some (True, ring (publish_slot ?s4 t w))"
      using solo_push_ring [OF cap w_def, of x t] 1 by (simp add: q_def)
    ultimately show ?thesis using load push pushed_true [OF idle, of x w] unfolding push_run_def
      by (metis (no_types, lifting) converse_rtranclp_into_rtranclp option.inject prod.inject rtranclp.rtrancl_refl)
  next
    case 2
    then have "b = False" "rb = ring s"
      using push by (simp_all add: TryPush_def TryPush_loop.simps [of "ring s" x w] w_def [symmetric] q_def [symmetric] Let_def)
    moreover have "TryPush_act t (Some False) ?s2 s" using act_full [of ?s2 t x w q] 2 by (simp add: goto_goto goto_idle [OF idle])
    ultimately show ?thesis using load unfolding push_run_def pushed_def by auto
  qed
qed

lemma push_run_iff:
  assumes "prod s t = PIdle" and "capacity_ok (Capacity (ring s))"
  shows "push_run t x s b s' \<longleftrightarrow> TryPush (ring s) x = Some (b, ring s') \<and> s' = pushed s x b (ring s')"
  using push_exists [OF assms, of x b "ring s'"] push_return [OF assms push_points] by (auto simp: push_run_def)

definition pop_point :: "'a mpsc \<Rightarrow> 'a mpsc \<Rightarrow> bool" where
  "pop_point s s1 \<longleftrightarrow> (let slot = slot_at (ring s) (read_pos (ring s)); x = slot_data slot in s1 = s \<or>
     sequence slot = read_pos (ring s) + 1 \<and> (s1 = s\<lparr>cons := CMatched\<rparr> \<or> s1 = s\<lparr>cons := CCopied x\<rparr> \<or> s1 = release_slot s x))"

lemma release_copied: "release_slot (s\<lparr>cons := c\<rparr>) x = release_slot s x"
  by (simp add: release_slot_def Let_def)

lemma pop_point_step: "cons s = CIdle \<Longrightarrow> pop_point s s1 \<Longrightarrow> TryPop_act None s1 s2 \<Longrightarrow> pop_point s s2"
  unfolding pop_point_def Let_def
  by (elim disjE conjE; erule TryPop_act.cases) (auto simp: release_copied)

lemma pop_points: "(TryPop_act None)\<^sup>*\<^sup>* s s1 \<Longrightarrow> cons s = CIdle \<Longrightarrow> pop_point s s1"
proof (induction rule: rtranclp_induct)
  case base
  show ?case by (simp add: pop_point_def Let_def)
qed (blast intro: pop_point_step)

lemma returned_some:
  assumes "cons s = CIdle"
  shows "advance_read (release_slot s x) x = returned s (Some x) (ring (advance_read (release_slot s x) x))"
  using assms by (cases s) (simp add: returned_def advance_read_def release_slot_def Let_def)

lemma pop_run_iff:
  assumes idle: "cons s = CIdle"
  shows "pop_run s r s' \<longleftrightarrow> TryPop (ring s) = (r, ring s') \<and> s' = returned s r (ring s')"
proof
  let ?slot = "slot_at (ring s) (read_pos (ring s))"
  assume "pop_run s r s'"
  then obtain s1 where s1: "pop_point s s1" "TryPop_act (Some r) s1 s'" using pop_points idle by (auto simp: pop_run_def)
  from s1(2) show "TryPop (ring s) = (r, ring s') \<and> s' = returned s r (ring s')"
  proof cases
    case act_empty
    then show ?thesis using s1(1) idle by (auto simp: pop_point_def Let_def TryPop_def returned_def release_slot_def)
  next
    case (act_advance x)
    then have "sequence ?slot = read_pos (ring s) + 1" "x = slot_data ?slot" "s1 = release_slot s x"
      using s1(1) idle by (auto simp: pop_point_def Let_def release_slot_def)
    then show ?thesis using solo_pop_ring [OF refl, of s x] returned_some [OF idle, of x] act_advance(1,2) by simp
  qed
next
  let ?slot = "slot_at (ring s) (read_pos (ring s))"
  let ?x = "slot_data ?slot"
  assume a: "TryPop (ring s) = (r, ring s') \<and> s' = returned s r (ring s')"
  show "pop_run s r s'"
  proof (cases "sequence ?slot = read_pos (ring s) + 1")
    case True
    let ?s1 = "s\<lparr>cons := CMatched\<rparr>" and ?s2 = "s\<lparr>cons := CCopied ?x\<rparr>"
    have "TryPop_act None s ?s1" by (rule act_match [OF idle True])
    moreover have "TryPop_act None ?s1 ?s2" using act_copy [of ?s1] by simp
    moreover have "TryPop_act None ?s2 (release_slot s ?x)" using act_release [of ?s2 ?x] by (simp add: release_copied)
    moreover have "TryPop_act (Some (Some ?x)) (release_slot s ?x) (advance_read (release_slot s ?x) ?x)" by (intro act_advance) simp
    moreover have "s' = advance_read (release_slot s ?x) ?x" "r = Some ?x"
      using a solo_pop_ring [OF refl True refl] returned_some [OF idle, of ?x] by simp_all
    ultimately show ?thesis unfolding pop_run_def
      by (metis (no_types, lifting) converse_rtranclp_into_rtranclp rtranclp.rtrancl_refl)
  next
    case False
    then have "r = None" "ring s' = ring s" using a by (simp_all add: TryPop_def Let_def)
    moreover from this a have "s' = returned s None (ring s)" by metis
    ultimately have "r = None" "s' = s" by (simp_all add: returned_def)
    with act_empty [OF idle False] show ?thesis by (auto simp: pop_run_def)
  qed
qed

lemma push_run_returns:
  assumes inv: "mpsc_inv s" and bound: "length (claimed s) < 2 ^ 32" and q: "quiescent s"
  shows "\<exists>b s'. push_run t x s b s'"
proof -
  have wf: "ring_wf (ring s)" by (rule quiescent_ring(1) [OF inv q])
  note P = mpsc_invD(1) [OF inv, unfolded inv_pos_def]
  have cap: "capacity_ok (Capacity (ring s))" using P by blast
  have wp: "unat (write_pos (ring s)) = length (claimed s)" using P unat_of_nat_u32 [OF bound] by simp
  obtain b rb where push: "TryPush (ring s) x = Some (b, rb)"
  proof (cases "ring_size (ring s) < Capacity (ring s)")
    case True
    with TryPush_room [OF wf, of x] that show ?thesis by blast
  next
    case False
    then have "ring_size (ring s) = Capacity (ring s)" using ring_wfD(2) [OF wf] by simp
    moreover from this quiescent_size(1) [OF inv q] have "Capacity (ring s) - 1 \<le> unat (write_pos (ring s))" unfolding wp by simp
    ultimately show ?thesis using TryPush_full [OF wf, of x] that by blast
  qed
  from push_exists [OF quiescentD(1) [OF q] cap push] show ?thesis by blast
qed

subsection \<open>Properties\<close>

text \<open>
  C15: the sequential ring buffer is the concurrent one seen between method calls. After any interleaving that leaves
  no thread inside a method, the ring is well-formed and holds exactly the claimed entries that have not been
  returned, in claim order. From such a state a call of \<open>TryPush\<close> by any thread, or of \<open>TryPop\<close>, that is not interrupted
  can return a result, true or false, an entry or nothing, exactly when the sequential model returns it, and leaves
  exactly the ring of the sequential model, the other threads where they were and the entry, if any, appended to the
  history; and such a call does return.
\<close>

theorem mpsc_linearizes_to_sequential:
  assumes "mpsc_reachable junk s" and "capacity_ok (length junk)" and "length (claimed s) < 2 ^ 32"
    and q: "quiescent s"
  shows "ring_wf (ring s) \<and> ring_list (ring s) = drop (length (popped s)) (claimed s) \<and>
         (\<forall>t x b s'. push_run t x s b s' \<longleftrightarrow> TryPush (ring s) x = Some (b, ring s') \<and> s' = pushed s x b (ring s')) \<and>
         (\<forall>r s'. pop_run s r s' \<longleftrightarrow> TryPop (ring s) = (r, ring s') \<and> s' = returned s r (ring s')) \<and>
         (\<forall>t x. \<exists>b s'. push_run t x s b s') \<and> (\<exists>r s'. pop_run s r s')"
proof -
  note inv = mpsc_reachable_inv [OF assms(1-3)]
  have cap: "capacity_ok (Capacity (ring s))" using assms(2) Capacity_reachable [OF assms(1)] by simp
  obtain r rb where "TryPop (ring s) = (r, rb)" by fastforce
  then have "pop_run s r (returned s r rb)" unfolding pop_run_iff [OF quiescentD(2) [OF q]] by simp
  then show ?thesis
    using quiescent_ring [OF inv q] push_run_iff [OF quiescentD(1) [OF q] cap] pop_run_iff [OF quiescentD(2) [OF q]]
      push_run_returns [OF inv assms(3) q] by blast
qed

theorem mpsc_linearizes_to_sequential_witness:
  "mpsc_reachable [7, 7] demo_two \<and> quiescent demo_two \<and> ring_list (ring demo_two) = [5, 6] \<and>
   push_run 3 9 demo_two False demo_two \<and> (\<exists>s'. pop_run demo_two (Some 5) s' \<and> quiescent s' \<and> popped s' = [5])"
proof -
  have f: "claimed demo_two = [5, 6]" "popped demo_two = []" "quiescent demo_two"
    by (simp_all add: demo_two_def quiescent_def)
  have c: "capacity_ok (length [7, 7 :: nat])" "length (claimed demo_two) < 2 ^ 32" by (simp_all add: f capacity_ok_2 numeral_2_eq_2 [symmetric])
  note lin = mpsc_linearizes_to_sequential [OF demo_two_reachable c f(3)]
  have "TryPop (ring demo_two) = (Some 5, ring (advance_read (release_slot demo_two 5) 5))" (is "_ = (_, ?rb)")
    by (rule solo_pop_ring [of 0]) (simp_all add: demo_two_def demo_eval numeral_2_eq_2 [symmetric])
  then have "pop_run demo_two (Some 5) (returned demo_two (Some 5) ?rb)" using lin returned_fields(1) by metis
  then have pop: "\<exists>s'. pop_run demo_two (Some 5) s' \<and> quiescent s' \<and> popped s' = [5]" using f by fastforce
  have "write_pos (ring demo_two) = 2" "sequence (slot_at (ring demo_two) 2) = 1"
    by (simp_all add: demo_two_def demo_eval numeral_2_eq_2 [symmetric])
  then have "TryPush (ring demo_two) 9 = Some (False, ring demo_two)"
    by (simp add: TryPush_def TryPush_loop.simps [of "ring demo_two" 9 2] Let_def)
  moreover have "demo_two = pushed demo_two 9 False (ring demo_two)" by (simp add: pushed_def)
  ultimately have "push_run 3 9 demo_two False demo_two" using lin by blast
  with pop lin f demo_two_reachable show ?thesis by (metis drop0 list.size(3))
qed

end
