(* ===== verification/Timestamp.thy ===== *)
theory Timestamp
  imports Log_Level
begin

text \<open>
  Clocks and timestamp texts (\<open>timestamp.cpp\<close>). The system clocks are arguments: a
  \<open>timespec\<close> for the POSIX branches, the performance counter and its frequency for the Windows
  branch, the user's hooks for the embedded one. \<open>localtime_r\<close> depends on the time zone of the
  machine and is an argument too; \<open>None\<close> is its failure, which leaves the zero-initialised
  \<open>tm\<close> untouched. \<open>localtime_ok\<close> is what the C standard promises of the fields it sets.
\<close>

subsection \<open>Clock readings\<close>

record timespec =
  tv_sec :: u64
  tv_nsec :: u64

definition posix_now_ns :: "timespec \<Rightarrow> u64" where
  "posix_now_ns ts = tv_sec ts * 1000000000 + tv_nsec ts"

definition embedded_now_ns :: "u64 option \<Rightarrow> u64" where
  "embedded_now_ns hook = (case hook of None \<Rightarrow> 0 | Some v \<Rightarrow> v)"

definition macos_monotonic_now_ns :: "u64 \<Rightarrow> u64" where
  "macos_monotonic_now_ns uptime_raw_ns = uptime_raw_ns"

text \<open>\<open>QueryPerformanceFrequency\<close> reports a signed number, converted to an unsigned one.\<close>

definition qpc_frequency :: "int \<Rightarrow> u64" where
  "qpc_frequency quad_part = word_of_int quad_part"

definition windows_monotonic_now_ns :: "u64 \<Rightarrow> u64 \<Rightarrow> u64" where
  "windows_monotonic_now_ns freq ticks = (ticks * 1000000000) div freq"

definition windows_wall_clock_now_ns :: "u32 \<Rightarrow> u32 \<Rightarrow> u64" where
  "windows_wall_clock_now_ns high low =
     ((push_bit 32 (ucast high) OR ucast low) - 11644473600 * 10000000) * 100"

text \<open>
  What the system reports to the branch the build selects, and the two functions of \<open>timestamp.hpp\<close>. A zero
  frequency, which Windows does not report, would be a division by zero.
\<close>

datatype clock_source =
    EmbeddedClock "u64 option" "u64 option"
  | LinuxClock timespec timespec
  | MacOsClock u64 timespec
  | WindowsClock int u64 u32 u32

fun monotonic_now_ns :: "clock_source \<Rightarrow> u64 option" where
  "monotonic_now_ns (EmbeddedClock mono_hook wall_hook) = Some (embedded_now_ns mono_hook)"
| "monotonic_now_ns (LinuxClock monotonic_raw realtime) = Some (posix_now_ns monotonic_raw)"
| "monotonic_now_ns (MacOsClock uptime_raw_ns realtime) = Some (macos_monotonic_now_ns uptime_raw_ns)"
| "monotonic_now_ns (WindowsClock freq ticks high low) =
     (if qpc_frequency freq = 0 then None else Some (windows_monotonic_now_ns (qpc_frequency freq) ticks))"

fun wall_clock_now_ns :: "clock_source \<Rightarrow> u64" where
  "wall_clock_now_ns (EmbeddedClock mono_hook wall_hook) = embedded_now_ns wall_hook"
| "wall_clock_now_ns (LinuxClock monotonic_raw realtime) = posix_now_ns realtime"
| "wall_clock_now_ns (MacOsClock uptime_raw_ns realtime) = posix_now_ns realtime"
| "wall_clock_now_ns (WindowsClock freq ticks high low) = windows_wall_clock_now_ns high low"

subsubsection \<open>Exact readings\<close>

text \<open>
  The time a reading stands for, in nanoseconds since 1970 (for a \<open>FILETIME\<close>, which counts 100 ns since
  1601, possibly negative).
\<close>

definition timespec_time :: "timespec \<Rightarrow> int" where
  "timespec_time ts = uint (tv_sec ts) * 10 ^ 9 + uint (tv_nsec ts)"

definition filetime_ticks :: "u32 \<Rightarrow> u32 \<Rightarrow> int" where
  "filetime_ticks high low = uint high * 2 ^ 32 + uint low"

fun wall_clock_time :: "clock_source \<Rightarrow> int" where
  "wall_clock_time (EmbeddedClock mono_hook wall_hook) = uint (case wall_hook of None \<Rightarrow> 0 | Some v \<Rightarrow> v)"
| "wall_clock_time (LinuxClock monotonic_raw realtime) = timespec_time realtime"
| "wall_clock_time (MacOsClock uptime_raw_ns realtime) = timespec_time realtime"
| "wall_clock_time (WindowsClock freq ticks high low) = (filetime_ticks high low - 11644473600 * 10 ^ 7) * 100"

lemma uint_posix_now_ns: "uint (posix_now_ns ts) = timespec_time ts mod 2 ^ 64"
  by (simp add: posix_now_ns_def timespec_time_def uint_word_ariths mod_simps)

lemma uint_filetime: "uint (push_bit 32 (ucast high :: u64) OR ucast low) = filetime_ticks high low" for high low :: u32
proof -
  have d: "push_bit 32 (ucast high :: u64) AND ucast low = 0"
    by (rule bit_word_eqI) (auto simp: bit_simps dest: bit_imp_le_length)
  have h: "uint (push_bit 32 (ucast high :: u64)) = uint high * 2 ^ 32"
    using uint_lt2p [of high]
    by (simp add: push_bit_eq_mult uint_word_ariths unsigned_ucast_eq take_bit_eq_mod)
  have "push_bit 32 (ucast high :: u64) OR ucast low = push_bit 32 (ucast high) + ucast low"
    using d by (simp add: disjunctive_add_eq_or)
  then show ?thesis
    using h uint_lt2p [of high] uint_lt2p [of low]
    by (simp add: filetime_ticks_def uint_word_ariths unsigned_ucast_eq take_bit_eq_mod)
qed

text \<open>
  On every platform the wall clock is the time modulo \<open>2 ^ 64\<close> nanoseconds: exact from 1970 until the year
  2554, and a time before 1970 becomes one far in the future.
\<close>

lemma wall_clock_exact: "uint (wall_clock_now_ns src) = wall_clock_time src mod 2 ^ 64"
proof (cases src)
  case (WindowsClock freq ticks high low)
  then show ?thesis
    by (simp add: windows_wall_clock_now_ns_def uint_word_ariths uint_filetime mod_simps)
next
  case (EmbeddedClock mono_hook wall_hook)
  then show ?thesis using uint_lt2p [where 'a = 64] by (auto simp: embedded_now_ns_def split: option.split)
qed (simp_all add: uint_posix_now_ns)

subsection \<open>Broken-down time\<close>

record tm =
  tm_sec :: int
  tm_min :: int
  tm_hour :: int
  tm_mday :: int
  tm_mon :: int
  tm_year :: int
  tm_yday :: int

type_synonym localtime = "int \<Rightarrow> tm option"

definition zero_tm :: tm where
  "zero_tm = \<lparr>tm_sec = 0, tm_min = 0, tm_hour = 0, tm_mday = 0, tm_mon = 0, tm_year = 0, tm_yday = 0\<rparr>"

definition tm_ok :: "tm \<Rightarrow> bool" where
  "tm_ok m \<longleftrightarrow> tm_sec m \<in> {0..60} \<and> tm_min m \<in> {0..59} \<and> tm_hour m \<in> {0..23} \<and>
     tm_mday m \<in> {1..31} \<and> tm_mon m \<in> {0..11} \<and> tm_yday m \<in> {0..365} \<and>
     tm_year m + 1900 \<in> {- (2 ^ 31)..2 ^ 31 - 1}"

definition localtime_ok :: "localtime \<Rightarrow> bool" where
  "localtime_ok lt \<longleftrightarrow> (\<forall>t m. lt t = Some m \<longrightarrow> tm_ok m)"

text \<open>A call of \<open>localtime_r\<close> on a zero-initialised \<open>tm\<close>.\<close>

definition localtime_r :: "localtime \<Rightarrow> u64 \<Rightarrow> tm" where
  "localtime_r lt sec = (case lt (uint sec) of None \<Rightarrow> zero_tm | Some m \<Rightarrow> m)"

definition decompose_wall_ns :: "localtime \<Rightarrow> u64 \<Rightarrow> tm \<times> u32" where
  "decompose_wall_ns lt wall_ns =
     (localtime_r lt (wall_ns div 1000000000), ucast ((wall_ns mod 1000000000) div 1000))"

subsection \<open>Formatting\<close>

definition date_text :: "tm \<Rightarrow> string" where
  "date_text m = fmt_0d 4 (tm_year m + 1900) @ ''-'' @ fmt_0d 2 (tm_mon m + 1) @ ''-'' @ fmt_0d 2 (tm_mday m)"

definition clock_text :: "tm \<Rightarrow> string" where
  "clock_text m = fmt_0d 2 (tm_hour m) @ '':'' @ fmt_0d 2 (tm_min m) @ '':'' @ fmt_0d 2 (tm_sec m)"

definition micros_text :: "u32 \<Rightarrow> string" where
  "micros_text us = ''.'' @ fmt_0u 6 (unat us)"

text \<open>The return expression shared by the three formatting functions.\<close>

definition clip_len :: "nat \<Rightarrow> nat \<Rightarrow> nat" where
  "clip_len n buf_size = (if 0 < n \<and> n < buf_size then n else buf_size - 1)"

definition format_timestamp :: "localtime \<Rightarrow> u64 \<Rightarrow> bytes \<Rightarrow> nat \<Rightarrow> (bytes \<times> nat) option" where
  "format_timestamp lt wall_ns buf buf_size =
     (if buf_size = 0 then Some (buf, 0)
      else let (tm_val, us) = decompose_wall_ns lt wall_ns in
        do { (buf', n) \<leftarrow> snprintf buf buf_size
               (date_text tm_val @ '' '' @ clock_text tm_val @ micros_text us);
             Some (buf', clip_len n buf_size) })"

definition format_date :: "localtime \<Rightarrow> u64 \<Rightarrow> bytes \<Rightarrow> nat \<Rightarrow> (bytes \<times> nat) option" where
  "format_date lt wall_ns buf buf_size =
     (if buf_size = 0 then Some (buf, 0)
      else let (tm_val, us) = decompose_wall_ns lt wall_ns in
        do { (buf', n) \<leftarrow> snprintf buf buf_size (date_text tm_val);
             Some (buf', clip_len n buf_size) })"

definition format_time :: "localtime \<Rightarrow> u64 \<Rightarrow> bytes \<Rightarrow> nat \<Rightarrow> (bytes \<times> nat) option" where
  "format_time lt wall_ns buf buf_size =
     (if buf_size = 0 then Some (buf, 0)
      else let (tm_val, us) = decompose_wall_ns lt wall_ns in
        do { (buf', n) \<leftarrow> snprintf buf buf_size (clock_text tm_val @ micros_text us);
             Some (buf', clip_len n buf_size) })"

subsection \<open>The texts\<close>

definition timestamp_text :: "localtime \<Rightarrow> u64 \<Rightarrow> string" where
  "timestamp_text lt w = (case decompose_wall_ns lt w of (m, us) \<Rightarrow>
     date_text m @ '' '' @ clock_text m @ micros_text us)"

lemma micros_lt: "unat ((w mod 1000000000) div (1000 :: u64)) < 10 ^ 6"
proof -
  have "unat (w mod 1000000000) < 1000000000" by (simp add: unat_mod)
  then show ?thesis by (simp add: unat_div)
qed

lemma unat_micros: "unat (snd (decompose_wall_ns lt w)) = (unat w mod 10 ^ 9) div 10 ^ 3"
  using micros_lt [of w] by (simp add: decompose_wall_ns_def unsigned_ucast_eq unat_div unat_mod take_bit_eq_mod)

text \<open>A formatting function stores as much of its text as fits and returns the stored length.\<close>

lemma snprintf_clip:
  assumes "0 < n" "n \<le> length buf" "txt \<noteq> []"
  shows "\<exists>buf'. do { (b, k) \<leftarrow> snprintf buf n txt; Some (b, clip_len k n) } =
      Some (buf', length (take (n - 1) txt)) \<and> holds_text n buf (take (n - 1) txt) buf'"
proof -
  have "clip_len (length txt) n = length (take (n - 1) txt)"
    using assms(1,3) by (auto simp: clip_len_def min_def)
  with snprintf_holds [OF assms(1,2), of "txt"] show ?thesis by auto
qed

lemma date_text_nonempty [simp]: "date_text m \<noteq> []"
  by (simp add: date_text_def)

lemma clock_text_nonempty [simp]: "clock_text m \<noteq> []"
  by (simp add: clock_text_def)

lemma fmt_0d_length:
  assumes "i \<in> {- (2 ^ 31)..2 ^ 31 - 1}" "w \<le> 11"
  shows "length (fmt_0d w i) \<le> 11"
proof -
  have "nat i < 10 ^ 10" "nat (- i) < 10 ^ 10" using assms(1) by auto
  then have "length (dec_digits (nat i)) \<le> 10" "length (dec_digits (nat (- i))) \<le> 10"
    by (intro dec_digits_length; simp)+
  with assms(2) show ?thesis by (auto simp: fmt_0d_def pad0_length)
qed

lemma fmt_0d_two: "i \<in> {0..99} \<Longrightarrow> length (fmt_0d 2 i) = 2"
  using dec_digits_length [of "nat i" 2] by (auto simp: fmt_0d_def pad0_length)

lemma micros_text_length: "unat us < 10 ^ 6 \<Longrightarrow> length (micros_text us) = 7"
  using dec_digits_length [of "unat us" 6] by (simp add: micros_text_def fmt_0u_def pad0_length)

text \<open>Whatever \<open>localtime_r\<close> did, the printed fields fit a machine \<open>int\<close>.\<close>

definition tm_int :: "tm \<Rightarrow> bool" where
  "tm_int m \<longleftrightarrow> list_all (\<lambda>i. i \<in> {- (2 ^ 31)..2 ^ 31 - 1})
     [tm_year m + 1900, tm_mon m + 1, tm_mday m, tm_hour m, tm_min m, tm_sec m]"

lemma localtime_r_int: "localtime_ok lt \<Longrightarrow> tm_int (localtime_r lt sec)"
  by (auto simp: localtime_r_def localtime_ok_def tm_int_def tm_ok_def zero_tm_def split: option.split) force+

lemma date_text_length: "tm_int m \<Longrightarrow> length (date_text m) \<le> 35"
  using fmt_0d_length [of "tm_year m + 1900" 4] fmt_0d_length [of "tm_mon m + 1" 2] fmt_0d_length [of "tm_mday m" 2]
  by (simp add: tm_int_def date_text_def)

lemma clock_text_length: "tm_int m \<Longrightarrow> length (clock_text m) \<le> 35"
  using fmt_0d_length [of "tm_hour m" 2] fmt_0d_length [of "tm_min m" 2] fmt_0d_length [of "tm_sec m" 2]
  by (simp add: tm_int_def clock_text_def)

lemma timestamp_text_length:
  assumes "localtime_ok lt"
  shows "length (timestamp_text lt w) \<le> 78"
proof -
  obtain m us where d: "decompose_wall_ns lt w = (m, us)" by (cases "decompose_wall_ns lt w")
  then have "m = localtime_r lt (w div 1000000000)" by (simp add: decompose_wall_ns_def)
  then have "tm_int m" using localtime_r_int [OF assms] by simp
  moreover have "unat us < 10 ^ 6"
    using unat_micros [of lt w] d by (simp add: less_mult_imp_div_less)
  ultimately show ?thesis
    using date_text_length [of m] clock_text_length [of m] micros_text_length [of us] d
    by (simp add: timestamp_text_def)
qed

lemma format_timestamp_holds:
  assumes "0 < n" "n \<le> length buf"
  shows "\<exists>buf'. format_timestamp lt w buf n = Some (buf', length (take (n - 1) (timestamp_text lt w))) \<and>
    holds_text n buf (take (n - 1) (timestamp_text lt w)) buf'"
  using snprintf_clip [OF assms, of "timestamp_text lt w"] assms(1)
  by (auto simp: format_timestamp_def timestamp_text_def split: prod.split)

lemma format_date_holds:
  assumes "0 < n" "n \<le> length buf" and "txt = date_text (fst (decompose_wall_ns lt w))"
  shows "\<exists>buf'. format_date lt w buf n = Some (buf', length (take (n - 1) txt)) \<and>
    holds_text n buf (take (n - 1) txt) buf'"
  using snprintf_clip [OF assms(1,2), of "txt"] assms(1,3)
  by (auto simp: format_date_def split: prod.split)

subsection \<open>Properties\<close>

text \<open>
  Every timestamp formatter is safe for every buffer size and reports the length it stored: a zero size
  touches nothing and returns 0; otherwise the buffer receives the longest prefix of the text that leaves
  room for the terminator, the result is the length of that prefix, and no byte beyond the given size changes.
\<close>

lemma format_timestamp_every_size:
  assumes "n \<le> length buf"
  shows "\<exists>buf' k. format_timestamp lt w buf n = Some (buf', k) \<and> length buf' = length buf \<and>
    drop n buf' = drop n buf \<and> k = min (n - 1) (length (timestamp_text lt w)) \<and>
    take k buf' = take k (timestamp_text lt w) \<and> (0 < n \<longrightarrow> buf' ! k = NUL)"
proof (cases "n = 0")
  case True
  then show ?thesis by (simp add: format_timestamp_def)
next
  case False
  then obtain buf' where "format_timestamp lt w buf n = Some (buf', length (take (n - 1) (timestamp_text lt w)))"
    and "holds_text n buf (take (n - 1) (timestamp_text lt w)) buf'"
    using format_timestamp_holds [OF _ assms, of lt w] by auto
  then show ?thesis by (auto simp: holds_text_def min_def)
qed

lemma format_timestamp_every_size_witness:
  "\<exists>buf'. format_timestamp (\<lambda>_. Some \<lparr>tm_sec = 9, tm_min = 8, tm_hour = 7, tm_mday = 6, tm_mon = 4,
      tm_year = 125, tm_yday = 125\<rparr>) 1234567890 (replicate 32 NUL) 12 = Some (buf', 11) \<and>
    take 11 buf' = ''2025-05-06 ''"
proof -
  let ?lt = "\<lambda>_. Some \<lparr>tm_sec = 9, tm_min = 8, tm_hour = 7, tm_mday = 6, tm_mon = 4,
      tm_year = 125, tm_yday = 125\<rparr>"
  have "timestamp_text ?lt 1234567890 = ''2025-05-06 07:08:09.234567''"
    by (simp add: timestamp_text_def decompose_wall_ns_def localtime_r_def date_text_def clock_text_def
        micros_text_def dec_eval)
  with format_timestamp_every_size [of 12 "replicate 32 NUL" ?lt 1234567890] show ?thesis by (auto simp: numeral_eq_Suc)
qed

text \<open>
  The fixed-width form. When \<open>localtime_r\<close> keeps its documented ranges and the year has four digits, the
  timestamp has exactly 26 characters: the date, a space, the time of day and six digits of microseconds that
  read back as the microseconds of the clock value.
\<close>

lemma timestamp_text_layout:
  assumes "lt (uint (w div 1000000000)) = Some m" and "tm_ok m" and "tm_year m + 1900 \<in> {0..9999}"
  shows "length (timestamp_text lt w) = 26 \<and>
    take 10 (timestamp_text lt w) = date_text m \<and>
    take 8 (drop 11 (timestamp_text lt w)) = clock_text m \<and>
    read_dec (drop 20 (timestamp_text lt w)) = (unat w mod 10 ^ 9) div 10 ^ 3"
proof -
  obtain us where d: "decompose_wall_ns lt w = (m, us)"
    using assms(1) by (simp add: decompose_wall_ns_def localtime_r_def)
  have us: "unat us = (unat w mod 10 ^ 9) div 10 ^ 3" using unat_micros [of lt w] d by simp
  then have "unat us < 10 ^ 6" by (simp add: less_mult_imp_div_less)
  then have 1: "length (micros_text us) = 7" by (rule micros_text_length)
  have "length (fmt_0d 4 (tm_year m + 1900)) = 4"
    using assms(3) dec_digits_length [of "nat (tm_year m + 1900)" 4] by (auto simp: fmt_0d_def pad0_length)
  then have 2: "length (date_text m) = 10"
    using assms(2) fmt_0d_two [of "tm_mon m + 1"] fmt_0d_two [of "tm_mday m"] by (simp add: date_text_def tm_ok_def)
  have 3: "length (clock_text m) = 8"
    using assms(2) fmt_0d_two [of "tm_hour m"] fmt_0d_two [of "tm_min m"] fmt_0d_two [of "tm_sec m"]
    by (simp add: clock_text_def tm_ok_def)
  have "read_dec (drop 1 (micros_text us)) = unat us" by (simp add: micros_text_def fmt_0u_def)
  with 1 2 3 d us show ?thesis by (simp add: timestamp_text_def)
qed

lemma timestamp_text_layout_witness:
  "length (timestamp_text (\<lambda>_. Some \<lparr>tm_sec = 9, tm_min = 8, tm_hour = 7, tm_mday = 6, tm_mon = 4,
      tm_year = 125, tm_yday = 125\<rparr>) 1234567890) = 26"
proof -
  let ?m = "\<lparr>tm_sec = 9, tm_min = 8, tm_hour = 7, tm_mday = 6, tm_mon = 4, tm_year = 125, tm_yday = 125\<rparr>"
  have "tm_ok ?m" "tm_year ?m + 1900 \<in> {0..9999}" by (simp_all add: tm_ok_def)
  with timestamp_text_layout [of "\<lambda>_. Some ?m" 1234567890 ?m] show ?thesis by simp
qed

text \<open>
  The Windows monotonic clock multiplies the tick count by \<open>10 ^ 9\<close> in 64 bits before it divides. The
  reading is the elapsed nanoseconds as long as the product fits; from then on it is smaller. With the usual
  counter of 10 MHz the reading falls back after half an hour of uptime.
\<close>

lemma windows_monotonic_exact_iff:
  assumes "0 < freq"
  shows "(unat ticks * 10 ^ 9 < 2 ^ 64 \<longrightarrow>
            unat (windows_monotonic_now_ns freq ticks) = unat ticks * 10 ^ 9 div unat freq) \<and>
         windows_monotonic_now_ns 10000000 (1845 * 10000000) < windows_monotonic_now_ns 10000000 (1844 * 10000000)"
proof -
  have "unat (ticks * 1000000000) = unat ticks * 10 ^ 9" if "unat ticks * 10 ^ 9 < 2 ^ 64"
    using that by (simp add: unat_word_ariths)
  then show ?thesis by (auto simp: windows_monotonic_now_ns_def unat_div)
qed

lemma windows_monotonic_exact_iff_witness:
  "unat (windows_monotonic_now_ns 10000000 50000000) = 5 * 10 ^ 9"
  using windows_monotonic_exact_iff [of 10000000 50000000] by simp

end
