(* ===== verification/Formatter.thy ===== *)
theory Formatter
  imports Log_Entry Timestamp
begin

text \<open>
  The formatter interface (\<open>formatter_interface.hpp\<close>) and what its two implementations share: a
  function body as a sequence of statements over the output buffer and the write position, the relation
  between that state and the text written so far, and the rules that carry the relation through a body.
  The locale \<open>formatter\<close> is the contract the sinks rely on.
\<close>

subsection \<open>Statement sequences over a buffer\<close>

type_synonym fmt_st = "bytes \<times> nat"

text \<open>Statements run one after the other; \<open>None\<close> is undefined behaviour.\<close>

fun seq_steps :: "('s \<Rightarrow> 's option) list \<Rightarrow> 's \<Rightarrow> 's option" where
  "seq_steps [] s = Some s"
| "seq_steps (f # fs) s = do { s' \<leftarrow> f s; seq_steps fs s' }"

text \<open>
  The state \<open>(buf, pos)\<close> holds the text \<open>s\<close>: its bytes are the first \<open>pos\<close> of the buffer, one byte of the
  given size \<open>n\<close> is left for the terminator, nothing from \<open>n\<close> on has changed. With \<open>z\<close> the terminator is in
  place.
\<close>

definition st_holds :: "bool \<Rightarrow> nat \<Rightarrow> bytes \<Rightarrow> string \<Rightarrow> fmt_st \<Rightarrow> bool" where
  "st_holds z n old s st \<longleftrightarrow> (case st of (buf, pos) \<Rightarrow>
     pos = length s \<and> pos < n \<and> n \<le> length buf \<and> length buf = length old \<and> take pos buf = s \<and>
     drop n buf = drop n old \<and> (z \<longrightarrow> buf ! pos = NUL))"

text \<open>A statement that never misbehaves and turns the text \<open>s\<close> into \<open>g s\<close>.\<close>

definition renders :: "bool \<Rightarrow> nat \<Rightarrow> bytes \<Rightarrow> (fmt_st \<Rightarrow> fmt_st option) \<Rightarrow> (string \<Rightarrow> string) \<Rightarrow> bool" where
  "renders z n old f g \<longleftrightarrow>
     (\<forall>s st. st_holds z n old s st \<longrightarrow> (\<exists>st'. f st = Some st' \<and> st_holds z n old (g s) st'))"

text \<open>Appending what fits.\<close>

definition clip_app :: "nat \<Rightarrow> string \<Rightarrow> string \<Rightarrow> string" where
  "clip_app n x s = s @ take (n - 1 - length s) x"

named_theorems renders_intros \<open>statements and the text they append\<close>

lemma rendersD:
  "renders z n old f g \<Longrightarrow> st_holds z n old s st \<Longrightarrow> \<exists>st'. f st = Some st' \<and> st_holds z n old (g s) st'"
  unfolding renders_def by blast

lemma clip_app_Nil [simp]: "clip_app n [] = id"
  by (simp add: clip_app_def fun_eq_iff)

lemma clip_app_append: "clip_app n y (clip_app n x s) = clip_app n (x @ y) s"
proof (cases "length x \<le> n - 1 - length s")
  case True
  then have "n - 1 - (length s + length x) = n - 1 - length s - length x" by simp
  with True show ?thesis by (simp add: clip_app_def)
next
  case False
  then show ?thesis by (simp add: clip_app_def)
qed

lemma clip_app_start: "clip_app n x [] = take (n - 1) x"
  by (simp add: clip_app_def)

lemma renders_skip [renders_intros]: "renders z n old Some id"
  by (simp add: renders_def)

lemma renders_skip_clip: "renders z n old Some (clip_app n [])"
  by (simp add: renders_skip)

lemma renders_bind:
  "renders z n old f g \<Longrightarrow> renders z n old f' g' \<Longrightarrow> renders z n old (\<lambda>st. do { st' \<leftarrow> f st; f' st' }) (g' \<circ> g)"
  unfolding renders_def by fastforce

lemma renders_seq:
  "list_all2 (renders z n old) fs gs \<Longrightarrow> renders z n old (seq_steps fs) (fold (\<lambda>g. g) gs)"
proof (induction fs arbitrary: gs)
  case Nil
  then show ?case using renders_skip [of z n old] by (auto simp: renders_def id_def)
next
  case (Cons f fs)
  then obtain g gs' where gs: "gs = g # gs'" and f: "renders z n old f g" and r: "list_all2 (renders z n old) fs gs'"
    by (auto simp: list_all2_Cons1)
  from renders_bind [OF f Cons.IH [OF r]] show ?case by (simp add: gs renders_def)
qed

lemma fold_clip_app: "fold (\<lambda>g. g) (map (clip_app n) xs) s = clip_app n (concat xs) s"
  by (induction xs arbitrary: s) (simp_all add: clip_app_append)

text \<open>A sequence of appending statements appends the concatenation of their texts.\<close>

lemma renders_seq_clip:
  assumes "list_all2 (\<lambda>f x. renders z n old f (clip_app n x)) fs xs"
  shows "renders z n old (seq_steps fs) (clip_app n (concat xs))"
proof -
  have "list_all2 (renders z n old) fs (map (clip_app n) xs)"
    using assms by (simp add: list_all2_conv_all_nth)
  from renders_seq [OF this] show ?thesis by (simp add: fold_clip_app [abs_def])
qed

lemma renders_seq_map:
  "(\<And>x. x \<in> set xs \<Longrightarrow> renders z n old (f x) (clip_app n (t x))) \<Longrightarrow>
   renders z n old (seq_steps (map f xs)) (clip_app n (concat (map t xs)))"
  by (rule renders_seq_clip) (simp add: list_all2_conv_all_nth)

text \<open>Copying the bytes that fit, the core of both append helpers.\<close>

lemma st_holds_copy:
  assumes "st_holds False n old s (buf, pos)" "k \<le> n - 1 - pos" "k \<le> length data"
  shows "\<exists>buf'. memcpy buf pos data k = Some buf' \<and> st_holds False n old (s @ take k data) (buf', pos + k)"
  using assms by (auto simp: st_holds_def memcpy_def)

lemma st_holds_NUL:
  assumes "st_holds False n old s (buf, pos)"
  shows "\<exists>buf'. store_byte buf pos NUL = Some buf' \<and> st_holds True n old s (buf', pos)"
  using assms by (auto simp: st_holds_def store_byte_def)

lemma st_holds_weaken: "st_holds z n old s st \<Longrightarrow> st_holds False n old s st"
  by (simp add: st_holds_def split: prod.splits)

lemma st_holds_text: "st_holds True n old s (buf, pos) \<Longrightarrow> pos = length s \<and> holds_text n old s buf"
  by (auto simp: st_holds_def holds_text_def)

text \<open>Numbers are printed into a scratch array of 128 bytes whose previous content does not matter.\<close>

lemma snprintf_scratch:
  assumes "length temp = 128" "length txt < 128"
  shows "\<exists>temp'. snprintf temp 128 txt = Some (temp', length txt) \<and> length temp' = 128 \<and> take (length txt) temp' = txt"
  using snprintf_holds [of 128 temp "txt"] assms by (auto simp: holds_text_def)

text \<open>Texts joined by a separator, and the loop that writes them with the separator before all but the first.\<close>

fun join :: "string \<Rightarrow> string list \<Rightarrow> string" where
  "join sep [] = []"
| "join sep [x] = x"
| "join sep (x # xs) = x @ sep @ join sep xs"

lemma join_snoc: "join sep (xs @ [x]) = (if xs = [] then x else join sep xs @ sep @ x)"
  by (induction sep xs rule: join.induct) simp_all

lemma concat_join:
  "concat (map (\<lambda>i. (if 0 < i then sep else []) @ f i) [0..<k]) = join sep (map f [0..<k])"
  by (induction k) (simp_all add: join_snoc)

lemma dec_digits_u32: "length (dec_digits (unat (w :: u32))) < 128"
  using dec_digits_length [of "unat w" 10] unsigned_less [of w, where ?'a = nat] by simp

lemma dec_digits_u64: "length (dec_digits (unat (w :: u64))) < 128"
  using dec_digits_length [of "unat w" 20] unsigned_less [of w, where ?'a = nat] by simp

subsection \<open>The contract\<close>

text \<open>
  \<open>fmt entry buf n\<close> is \<open>Format(entry, buf, n)\<close>, \<open>ok\<close> the entries it accepts and \<open>out entry n\<close> the text it
  stores.
\<close>

locale formatter =
  fixes ok :: "LogEntry \<Rightarrow> bool"
    and fmt :: "LogEntry \<Rightarrow> bytes \<Rightarrow> nat \<Rightarrow> (bytes \<times> nat) option"
    and out :: "LogEntry \<Rightarrow> nat \<Rightarrow> string"
  assumes fmt_zero: "fmt e buf 0 = Some (buf, 0)"
    and fmt_some: "ok e \<Longrightarrow> 0 < n \<Longrightarrow> n \<le> length buf \<Longrightarrow>
      \<exists>buf'. fmt e buf n = Some (buf', length (out e n)) \<and> holds_text n buf (out e n) buf'"
begin

lemma fmt_total: "ok e \<Longrightarrow> n \<le> length buf \<Longrightarrow> \<exists>buf' k. fmt e buf n = Some (buf', k) \<and> length buf' = length buf"
  using fmt_zero [of e buf] fmt_some [of e n buf] by (cases "n = 0") (auto simp: holds_text_def)

lemma fmt_result:
  assumes "ok e" "0 < n" "n \<le> length buf" "fmt e buf n = Some (buf', k)"
  shows "k < n \<and> take k buf' = out e n \<and> length buf' = length buf \<and> drop n buf' = drop n buf \<and> buf' ! k = NUL"
  using fmt_some [OF assms(1-3)] assms(4) by (auto simp: holds_text_def)

end

end
