(* ===== verification/Pattern_Formatter.thy ===== *)
theory Pattern_Formatter
  imports Formatter
begin

text \<open>
  The pattern formatter (\<open>pattern_formatter.hpp\<close>, \<open>pattern_formatter.cpp\<close>): the compilation of a pattern
  into format operations and the rendering of an entry by running the operations. \<open>pattern_text\<close> reads the
  pattern directly and is the reference for both. The bytes of the scratch array \<open>temp\<close> are indeterminate
  when a formatting call starts; they are the argument \<open>junk\<close> of the definitions that declare it.
\<close>

subsection \<open>Format operations\<close>

datatype OpType =
    Literal | Date | Time | Microseconds | LevelFull | LevelShort | FileName | FilePath | FuncName
  | PrettyFunc | Line | ThreadId | ProcessId | ThreadName | SequenceId | Tags | Message
  | ColorStart | ColorReset

record FormatOp =
  op_type :: OpType
  op_literal :: string

record PatternFormatter =
  pattern :: string
  enable_color :: bool
  ops :: "FormatOp list"

text \<open>The cases of the \<open>switch\<close> that push an operation.\<close>

definition placeholder :: "char \<Rightarrow> OpType option" where
  "placeholder c =
     (if c = CHR ''D'' then Some Date else if c = CHR ''T'' then Some Time
      else if c = CHR ''e'' then Some Microseconds else if c = CHR ''L'' then Some LevelFull
      else if c = CHR ''l'' then Some LevelShort else if c = CHR ''f'' then Some FileName
      else if c = CHR ''F'' then Some FilePath else if c = CHR ''n'' then Some FuncName
      else if c = CHR ''N'' then Some PrettyFunc else if c = CHR ''#'' then Some Line
      else if c = CHR ''t'' then Some ThreadId else if c = CHR ''P'' then Some ProcessId
      else if c = CHR ''k'' then Some ThreadName else if c = CHR ''q'' then Some SequenceId
      else if c = CHR ''g'' then Some Tags else if c = CHR ''m'' then Some Message
      else if c = CHR ''C'' then Some ColorStart else if c = CHR ''R'' then Some ColorReset
      else None)"

definition flush_literal :: "string \<Rightarrow> FormatOp list \<Rightarrow> FormatOp list" where
  "flush_literal literal os =
     (if literal \<noteq> [] then os @ [\<lparr>op_type = Literal, op_literal = literal\<rparr>] else os)"

text \<open>The loop over the pattern: the rest of the pattern, the pending literal, the operations so far.\<close>

fun CompilePattern_loop :: "string \<Rightarrow> string \<Rightarrow> FormatOp list \<Rightarrow> FormatOp list" where
  "CompilePattern_loop [] literal os = flush_literal literal os"
| "CompilePattern_loop (ch # rest) literal os =
     (if ch \<noteq> CHR ''%'' then CompilePattern_loop rest (literal @ [ch]) os
      else case rest of
        [] \<Rightarrow> CompilePattern_loop rest (literal @ [CHR ''%'']) os
      | nxt # rest' \<Rightarrow>
          (case placeholder nxt of
             Some ty \<Rightarrow> CompilePattern_loop rest' [] (flush_literal literal os @ [\<lparr>op_type = ty, op_literal = []\<rparr>])
           | None \<Rightarrow>
               if nxt = CHR ''%'' then CompilePattern_loop rest' (literal @ [CHR ''%'']) os
               else CompilePattern_loop rest' (literal @ [CHR ''%'', nxt]) os))"

definition CompilePattern :: "string \<Rightarrow> FormatOp list" where
  "CompilePattern p = CompilePattern_loop p [] []"

definition PatternFormatter_init :: "string \<Rightarrow> bool \<Rightarrow> PatternFormatter" where
  "PatternFormatter_init p color = \<lparr>pattern = p, enable_color = color, ops = CompilePattern p\<rparr>"

definition default_pattern :: string where
  "default_pattern = ''[%D %T%e] [%C%L%R] [tid:%t] [%f:%#::%n] %g %m''"

subsection \<open>Rendering\<close>

definition append_data :: "nat \<Rightarrow> bytes \<Rightarrow> nat \<Rightarrow> fmt_st \<Rightarrow> fmt_st option" where
  "append_data buf_size data len st = (case st of (buf, pos) \<Rightarrow>
     if buf_size = 0 \<or> len = 0 then Some (buf, pos)
     else let avail = (if pos < buf_size then buf_size - 1 - pos else 0) in
       if avail = 0 then Some (buf, pos)
       else let to_copy = (if len < avail then len else avail) in
         do { buf1 \<leftarrow> memcpy buf pos data to_copy;
              buf2 \<leftarrow> store_byte buf1 (pos + to_copy) NUL;
              Some (buf2, pos + to_copy) })"

definition append_cstr :: "nat \<Rightarrow> c_ptr \<Rightarrow> fmt_st \<Rightarrow> fmt_st option" where
  "append_cstr buf_size p st = (case p of
     None \<Rightarrow> Some st
   | Some data \<Rightarrow> do { len \<leftarrow> strlen data; append_data buf_size data len st })"

text \<open>\<open>n = snprintf(temp, sizeof(temp), ...); if (n > 0) append_data(temp, n)\<close>.\<close>

definition append_printed :: "nat \<Rightarrow> bytes \<Rightarrow> string \<Rightarrow> fmt_st \<Rightarrow> fmt_st option" where
  "append_printed buf_size temp txt st =
     do { (temp', n) \<leftarrow> snprintf temp 128 txt;
          if 0 < n then append_data buf_size temp' n st else Some st }"

definition tag_at :: "LogEntry \<Rightarrow> nat \<Rightarrow> LogTag option" where
  "tag_at e i = (if i < length (tags e) then Some (tags e ! i) else None)"

definition append_tag :: "nat \<Rightarrow> LogEntry \<Rightarrow> nat \<Rightarrow> fmt_st \<Rightarrow> fmt_st option" where
  "append_tag buf_size e i st =
     do { t \<leftarrow> tag_at e i;
          seq_steps
            [(if 0 < i then append_data buf_size (c_lit ''|'') 1 else Some),
             append_cstr buf_size (Some (tag_key t)),
             append_data buf_size (c_lit ''='') 1,
             append_cstr buf_size (Some (tag_value t))] st }"

definition level_color :: "LogLevel \<Rightarrow> string" where
  "level_color lv = (case lv of
     TRACE \<Rightarrow> CHR 0x1B # ''[37m''
   | DEBUG \<Rightarrow> CHR 0x1B # ''[36m''
   | INFO \<Rightarrow> CHR 0x1B # ''[32m''
   | WARN \<Rightarrow> CHR 0x1B # ''[33m''
   | ERROR \<Rightarrow> CHR 0x1B # ''[31m''
   | FATAL \<Rightarrow> CHR 0x1B # ''[1;31m''
   | OFF \<Rightarrow> '''')"

definition color_reset :: string where
  "color_reset = CHR 0x1B # ''[0m''"

text \<open>One iteration of the loop over the operations.\<close>

definition format_op :: "localtime \<Rightarrow> bytes \<Rightarrow> bool \<Rightarrow> LogEntry \<Rightarrow> nat \<Rightarrow> FormatOp \<Rightarrow> fmt_st \<Rightarrow> fmt_st option" where
  "format_op lt junk color e buf_size op st = (case op_type op of
     Literal \<Rightarrow> append_data buf_size (op_literal op) (length (op_literal op)) st
   | Date \<Rightarrow> do { (temp, len) \<leftarrow> format_date lt (wall_clock_ns e) junk 128; append_data buf_size temp len st }
   | Time \<Rightarrow> append_printed buf_size junk (clock_text (localtime_r lt (wall_clock_ns e div 1000000000))) st
   | Microseconds \<Rightarrow>
       append_printed buf_size junk (micros_text (ucast ((wall_clock_ns e div 1000) mod 1000000))) st
   | LevelFull \<Rightarrow> append_data buf_size (to_string (level e)) (length (to_string (level e))) st
   | LevelShort \<Rightarrow> append_data buf_size [to_short_char (level e)] 1 st
   | FileName \<Rightarrow> append_cstr buf_size (file_name e) st
   | FilePath \<Rightarrow> append_cstr buf_size (file_path e) st
   | FuncName \<Rightarrow> append_cstr buf_size (function_name e) st
   | PrettyFunc \<Rightarrow> append_cstr buf_size (pretty_function e) st
   | Line \<Rightarrow> append_printed buf_size junk (dec_digits (unat (line e))) st
   | ThreadId \<Rightarrow> append_printed buf_size junk (dec_digits (unat (thread_id e))) st
   | ProcessId \<Rightarrow> append_printed buf_size junk (dec_digits (unat (process_id e))) st
   | ThreadName \<Rightarrow> append_cstr buf_size (Some (thread_name e)) st
   | SequenceId \<Rightarrow> append_printed buf_size junk (dec_digits (unat (sequence_id e))) st
   | Tags \<Rightarrow>
       if 0 < tag_count e
       then seq_steps
              [append_data buf_size (c_lit ''['') 1,
               seq_steps (map (append_tag buf_size e) [0..<unat (tag_count e)]),
               append_data buf_size (c_lit '']'') 1] st
       else Some st
   | Message \<Rightarrow> append_data buf_size (msg e) (unat (msg_len e)) st
   | ColorStart \<Rightarrow> if \<not> color then Some st else append_cstr buf_size (Some (c_lit (level_color (level e)))) st
   | ColorReset \<Rightarrow> if color then append_cstr buf_size (Some (c_lit color_reset)) st else Some st)"

definition PatternFormatter_Format ::
  "localtime \<Rightarrow> bytes \<Rightarrow> PatternFormatter \<Rightarrow> LogEntry \<Rightarrow> bytes \<Rightarrow> nat \<Rightarrow> (bytes \<times> nat) option" where
  "PatternFormatter_Format lt junk pf e buf buf_size =
     (if buf_size = 0 then Some (buf, 0)
      else do { buf1 \<leftarrow> store_byte buf 0 NUL;
                seq_steps (map (format_op lt junk (enable_color pf) e buf_size) (ops pf)) (buf1, 0) })"

subsection \<open>Reference: the text of a pattern\<close>

definition tags_text :: "LogEntry \<Rightarrow> string" where
  "tags_text e =
     (if entry_tags e = [] then []
      else ''['' @ join ''|'' (map (\<lambda>t. c_str (tag_key t) @ ''='' @ c_str (tag_value t)) (entry_tags e)) @ '']'')"

fun field_text :: "localtime \<Rightarrow> bool \<Rightarrow> LogEntry \<Rightarrow> OpType \<Rightarrow> string" where
  "field_text lt color e Literal = []"
| "field_text lt color e Date = date_text (localtime_r lt (wall_clock_ns e div 1000000000))"
| "field_text lt color e Time = clock_text (localtime_r lt (wall_clock_ns e div 1000000000))"
| "field_text lt color e Microseconds = ''.'' @ fmt_0u 6 (unat (wall_clock_ns e) div 10 ^ 3 mod 10 ^ 6)"
| "field_text lt color e LevelFull = to_string (level e)"
| "field_text lt color e LevelShort = [to_short_char (level e)]"
| "field_text lt color e FileName = ptr_text (file_name e)"
| "field_text lt color e FilePath = ptr_text (file_path e)"
| "field_text lt color e FuncName = ptr_text (function_name e)"
| "field_text lt color e PrettyFunc = ptr_text (pretty_function e)"
| "field_text lt color e Line = dec_digits (unat (line e))"
| "field_text lt color e ThreadId = dec_digits (unat (thread_id e))"
| "field_text lt color e ProcessId = dec_digits (unat (process_id e))"
| "field_text lt color e ThreadName = c_str (thread_name e)"
| "field_text lt color e SequenceId = dec_digits (unat (sequence_id e))"
| "field_text lt color e Tags = tags_text e"
| "field_text lt color e Message = entry_msg e"
| "field_text lt color e ColorStart = (if color then level_color (level e) else [])"
| "field_text lt color e ColorReset = (if color then color_reset else [])"

definition op_text :: "localtime \<Rightarrow> bool \<Rightarrow> LogEntry \<Rightarrow> FormatOp \<Rightarrow> string" where
  "op_text lt color e op = (if op_type op = Literal then op_literal op else field_text lt color e (op_type op))"

text \<open>The meaning of the letters, as a table of its own.\<close>

definition pattern_letters :: "(char \<times> OpType) list" where
  "pattern_letters = zip ''DTeLlfFnN#tPkqgmCR''
     [Date, Time, Microseconds, LevelFull, LevelShort, FileName, FilePath, FuncName, PrettyFunc, Line, ThreadId, ProcessId,
      ThreadName, SequenceId, Tags, Message, ColorStart, ColorReset]"

text \<open>
  A pattern read from left to right: \<open>%x\<close> with a letter \<open>x\<close> of the table is the field, \<open>%%\<close> a percent sign, any
  other \<open>%x\<close> and a final \<open>%\<close> stand for themselves.
\<close>

fun pattern_text :: "(OpType \<Rightarrow> string) \<Rightarrow> string \<Rightarrow> string" where
  "pattern_text f [] = []"
| "pattern_text f [c] = [c]"
| "pattern_text f (c # d # p) =
     (if c \<noteq> CHR ''%'' then c # pattern_text f (d # p)
      else case map_of pattern_letters d of
        Some ty \<Rightarrow> f ty @ pattern_text f p
      | None \<Rightarrow> (if d = CHR ''%'' then [d] else [c, d]) @ pattern_text f p)"

subsection \<open>Compilation\<close>

lemma placeholder_letters: "map_of pattern_letters c = placeholder c"
  by (simp add: pattern_letters_def placeholder_def)

lemma placeholder_not_Literal [simp]: "placeholder c \<noteq> Some Literal"
  by (simp add: placeholder_def)

lemma placeholder_percent [simp]: "placeholder CHR ''%'' = None"
  by (simp add: placeholder_def)

lemma concat_flush_literal:
  "concat (map (op_text lt color e) (flush_literal literal os)) = concat (map (op_text lt color e) os) @ literal"
  by (simp add: flush_literal_def op_text_def)

lemma CompilePattern_loop_text:
  "concat (map (op_text lt color e) (CompilePattern_loop p literal os)) =
     concat (map (op_text lt color e) os) @ literal @ pattern_text (field_text lt color e) p"
proof (induction p literal os rule: CompilePattern_loop.induct)
  case (1 literal os)
  then show ?case by (simp add: concat_flush_literal)
next
  case (2 ch rest literal os)
  show ?case
  proof (cases rest)
    case Nil
    then show ?thesis using "2.IH"(1,2) by (cases "ch = CHR ''%''") (simp_all add: concat_flush_literal)
  next
    case (Cons nxt rest')
    show ?thesis
    proof (cases "ch = CHR ''%''")
      case False
      with "2.IH"(1) show ?thesis by (simp add: Cons)
    next
      case True
      show ?thesis
      proof (cases "placeholder nxt")
        case None
        with True "2.IH"(3,4) Cons show ?thesis by (simp add: placeholder_letters)
      next
        case (Some ty)
        then have "ty \<noteq> Literal" by auto
        then have "op_text lt color e \<lparr>op_type = ty, op_literal = []\<rparr> = field_text lt color e ty"
          by (simp add: op_text_def)
        with True "2.IH"(5) Cons Some show ?thesis by (simp add: concat_flush_literal placeholder_letters)
      qed
    qed
  qed
qed

text \<open>No operation of a compiled pattern is an empty literal, and no two literals are adjacent.\<close>

fun ops_compact :: "FormatOp list \<Rightarrow> bool" where
  "ops_compact [] \<longleftrightarrow> True"
| "ops_compact [op] \<longleftrightarrow> (op_type op = Literal \<longleftrightarrow> op_literal op \<noteq> [])"
| "ops_compact (op # op' # os) \<longleftrightarrow> (op_type op = Literal \<longleftrightarrow> op_literal op \<noteq> []) \<and>
     \<not> (op_type op = Literal \<and> op_type op' = Literal) \<and> ops_compact (op' # os)"

lemma ops_compact_snoc:
  "ops_compact (os @ [op]) \<longleftrightarrow> ops_compact os \<and> (op_type op = Literal \<longleftrightarrow> op_literal op \<noteq> []) \<and>
     (os \<noteq> [] \<longrightarrow> \<not> (op_type (last os) = Literal \<and> op_type op = Literal))"
  by (induction os rule: ops_compact.induct) auto

lemma CompilePattern_loop_compact:
  "ops_compact os \<Longrightarrow> os = [] \<or> op_type (last os) \<noteq> Literal \<Longrightarrow> ops_compact (CompilePattern_loop p literal os)"
proof (induction p literal os rule: CompilePattern_loop.induct)
  case (1 literal os)
  then show ?case by (auto simp: flush_literal_def ops_compact_snoc)
next
  case (2 ch rest literal os)
  have push: "ops_compact (flush_literal literal os @ [\<lparr>op_type = ty, op_literal = []\<rparr>])" if "ty \<noteq> Literal" for ty
    using that "2.prems" by (auto simp: flush_literal_def ops_compact_snoc)
  show ?case
  proof (cases "ch = CHR ''%'' \<and> rest \<noteq> []")
    case False
    with "2.IH"(1,2) "2.prems" show ?thesis by (cases rest) auto
  next
    case True
    then obtain nxt rest' where r: "rest = nxt # rest'" by (cases rest) auto
    show ?thesis
    proof (cases "placeholder nxt")
      case None
      with True r "2.IH"(3,4) "2.prems" show ?thesis by auto
    next
      case (Some ty)
      then have "ty \<noteq> Literal" by auto
      with True r Some "2.IH"(5) push [of ty] show ?thesis by simp
    qed
  qed
qed

subsection \<open>Rendering is safe and stores the text\<close>

lemma renders_append_data [renders_intros]:
  assumes "len \<le> length data"
  shows "renders True n old (append_data n data len) (clip_app n (take len data))"
proof -
  have "\<exists>st'. append_data n data len (buf, pos) = Some st' \<and> st_holds True n old (clip_app n (take len data) s) st'"
    if h: "st_holds True n old s (buf, pos)" for s buf pos
  proof (cases "len = 0 \<or> n - 1 - pos = 0")
    case True
    with h show ?thesis by (auto simp: append_data_def st_holds_def clip_app_def)
  next
    case False
    define k where "k = (if len < n - 1 - pos then len else n - 1 - pos)"
    have k: "k \<le> n - 1 - pos" "k \<le> length data" using assms by (auto simp: k_def)
    from h have pos: "pos = length s" "pos < n" by (auto simp: st_holds_def)
    obtain buf1 where 1: "memcpy buf pos data k = Some buf1"
      and "st_holds False n old (s @ take k data) (buf1, pos + k)"
      using st_holds_copy [OF st_holds_weaken [OF h] k] by blast
    then obtain buf2 where "store_byte buf1 (pos + k) NUL = Some buf2"
      and "st_holds True n old (s @ take k data) (buf2, pos + k)"
      using st_holds_NUL by blast
    moreover have "take k data = take (n - 1 - length s) (take len data)" by (simp add: k_def pos min_def)
    moreover have "append_data n data len (buf, pos) = do { buf1 \<leftarrow> memcpy buf pos data k;
        buf2 \<leftarrow> store_byte buf1 (pos + k) NUL; Some (buf2, pos + k) }"
      using False pos by (simp add: append_data_def k_def)
    ultimately show ?thesis using 1 by (simp add: clip_app_def)
  qed
  then show ?thesis unfolding renders_def by force
qed

lemma renders_append_cstr [renders_intros]:
  "terminated m \<Longrightarrow> renders True n old (append_cstr n (Some m)) (clip_app n (c_str m))"
  using renders_append_data [of "length (c_str m)" m n old] c_str_length_less [of m]
  by (simp add: append_cstr_def [abs_def] strlen_terminated)

lemma renders_append_ptr [renders_intros]:
  "wf_ptr p \<Longrightarrow> renders True n old (append_cstr n p) (clip_app n (ptr_text p))"
  using renders_append_cstr [of _ n old] renders_skip [of True n old]
  by (cases p) (simp_all add: wf_ptr_def ptr_text_def append_cstr_def [abs_def])

lemma renders_append_printed [renders_intros]:
  assumes "length temp = 128" "length s < 128"
  shows "renders True n old (append_printed n temp s) (clip_app n s)"
proof -
  obtain temp' where "snprintf temp 128 s = Some (temp', length s)" "length temp' = 128" "take (length s) temp' = s"
    using snprintf_scratch [OF assms] by blast
  with renders_append_data [of "length s" temp' n old] renders_skip [of True n old] assms show ?thesis
    by (cases "s = []") (simp_all add: append_printed_def [abs_def])
qed

lemma renders_append_lit: "renders True n old (append_data n (c_lit [c]) 1) (clip_app n [c])"
  using renders_append_data [of 1 "c_lit [c]" n old] by (simp add: c_lit_def)

lemma wf_entry_tag:
  assumes "wf_entry cfg e" "i < unat (tag_count e)"
  shows "tag_at e i = Some (tags e ! i)" "terminated (tag_key (tags e ! i))" "terminated (tag_value (tags e ! i))"
  using assms by (auto simp: wf_entry_def wf_entry_head_def tag_at_def list_all_length wf_tag_def)

lemma entry_tags_nth:
  assumes "wf_entry cfg e"
  shows "entry_tags e = map (\<lambda>i. tags e ! i) [0..<unat (tag_count e)]"
  using assms by (intro nth_equalityI) (auto simp: entry_tags_def wf_entry_def wf_entry_head_def)

lemma renders_append_tag:
  assumes "wf_entry cfg e" "i < unat (tag_count e)"
  shows "renders True n old (append_tag n e i)
    (clip_app n ((if 0 < i then ''|'' else []) @ c_str (tag_key (tags e ! i)) @ ''='' @ c_str (tag_value (tags e ! i))))"
proof -
  have "renders True n old (if 0 < i then append_data n (c_lit ''|'') 1 else Some)
      (clip_app n (if 0 < i then ''|'' else []))"
    using renders_append_lit renders_skip by simp
  then have "renders True n old (append_tag n e i) (clip_app n (concat [if 0 < i then ''|'' else [],
      c_str (tag_key (tags e ! i)), ''='', c_str (tag_value (tags e ! i))]))"
    unfolding append_tag_def [abs_def] wf_entry_tag(1) [OF assms] bind.bind_lunit
    by (intro renders_seq_clip list.rel_intros renders_append_lit renders_append_cstr wf_entry_tag [OF assms])
  then show ?thesis by simp
qed

lemma renders_tags:
  assumes "wf_entry cfg e" "0 < tag_count e"
  shows "renders True n old
    (seq_steps [append_data n (c_lit ''['') 1, seq_steps (map (append_tag n e) [0..<unat (tag_count e)]),
                append_data n (c_lit '']'') 1])
    (clip_app n (tags_text e))"
proof -
  let ?kv = "\<lambda>i. c_str (tag_key (tags e ! i)) @ ''='' @ c_str (tag_value (tags e ! i))"
  have "renders True n old (seq_steps (map (append_tag n e) [0..<unat (tag_count e)]))
      (clip_app n (concat (map (\<lambda>i. (if 0 < i then ''|'' else []) @ ?kv i) [0..<unat (tag_count e)])))"
    using renders_append_tag [OF assms(1), of _ n old] by (intro renders_seq_map) simp
  then have "renders True n old
    (seq_steps [append_data n (c_lit ''['') 1, seq_steps (map (append_tag n e) [0..<unat (tag_count e)]),
                append_data n (c_lit '']'') 1])
    (clip_app n (concat [''['', join ''|'' (map ?kv [0..<unat (tag_count e)]), '']'']))"
    unfolding concat_join by (intro renders_seq_clip list.rel_intros renders_append_lit)
  moreover have "unat (tag_count e) \<noteq> 0" using assms(2) by (simp add: word_gt_0 unat_eq_zero)
  then have "tags_text e = ''['' @ join ''|'' (map ?kv [0..<unat (tag_count e)]) @ '']''"
    using entry_tags_nth [OF assms(1)] by (simp add: tags_text_def comp_def)
  ultimately show ?thesis by simp
qed

lemma unat_pattern_micros:
  "unat (ucast ((w div 1000) mod 1000000 :: u64) :: u32) = unat w div 10 ^ 3 mod 10 ^ 6"
proof -
  have "unat ((w div 1000) mod 1000000 :: u64) < 1000000" by (simp add: unat_mod)
  then show ?thesis by (simp add: unsigned_ucast_eq unat_div unat_mod take_bit_eq_mod)
qed

lemma level_color_NUL: "NUL \<notin> set (level_color l)" "NUL \<notin> set color_reset"
  by (cases l) (simp_all add: level_color_def color_reset_def)

lemmas level_color_lit = level_color_NUL [THEN c_str_c_lit]

lemma renders_format_date:
  assumes "localtime_ok lt" "length junk = 128"
  shows "renders True n old (\<lambda>st. do { (temp, len) \<leftarrow> format_date lt w junk 128; append_data n temp len st })
    (clip_app n (date_text (localtime_r lt (w div 1000000000))))"
proof -
  let ?t = "date_text (localtime_r lt (w div 1000000000))"
  have "length ?t \<le> 35" using date_text_length localtime_r_int [OF assms(1)] by blast
  moreover obtain temp where "format_date lt w junk 128 = Some (temp, length (take 127 ?t))"
    and "holds_text 128 junk (take 127 ?t) temp"
    using format_date_holds [of 128 junk ?t lt w] assms(2) by (auto simp: decompose_wall_ns_def)
  ultimately show ?thesis
    using renders_append_data [of "length ?t" temp n old] assms(2) by (simp add: holds_text_def)
qed

lemma renders_format_op:
  assumes "wf_entry cfg e" "localtime_ok lt" "length junk = 128"
  shows "renders True n old (format_op lt junk color e n op) (clip_app n (op_text lt color e op))"
proof -
  note wf = assms(1) [unfolded wf_entry_def wf_entry_head_def]
  have clock: "length (clock_text (localtime_r lt s)) < 128" for s
    using clock_text_length [OF localtime_r_int [OF assms(2), of s]] by simp
  have micros: "length (micros_text (ucast ((w div 1000) mod 1000000 :: u64))) < 128" for w
    using micros_text_length unat_pattern_micros [of w] by simp
  have us: "micros_text (ucast ((w div 1000) mod 1000000 :: u64)) = ''.'' @ fmt_0u 6 (unat w div 10 ^ 3 mod 10 ^ 6)" for w
    unfolding micros_text_def unat_pattern_micros by simp
  have no_tags: "tags_text e = []" if "\<not> 0 < tag_count e"
    using that by (simp add: tags_text_def entry_tags_def word_gt_0)
  note unf = format_op_def [abs_def] op_text_def
  show ?thesis
  proof (cases "op_type op")
    case Literal
    then show ?thesis using renders_append_data [of "length (op_literal op)" "op_literal op" n old] by (simp add: unf)
  next
    case Date
    then show ?thesis using renders_format_date [OF assms(2,3)] by (simp add: unf)
  next
    case Microseconds
    then show ?thesis using renders_append_printed [OF assms(3) micros, of n old] by (simp add: unf us)
  next
    case Tags
    then show ?thesis using renders_tags [OF assms(1)] renders_skip no_tags
      by (cases "0 < tag_count e") (simp_all add: unf del: seq_steps.simps One_nat_def)
  next
    case Message
    then show ?thesis using renders_append_data [of "unat (msg_len e)" "msg e" n old] wf by (simp add: unf entry_msg_def)
  next
    case ColorStart
    then show ?thesis using renders_append_cstr [of "c_lit (level_color (level e))" n old] renders_skip
      by (cases color) (simp_all add: unf level_color_lit)
  next
    case ColorReset
    then show ?thesis using renders_append_cstr [of "c_lit color_reset" n old] renders_skip
      by (cases color) (simp_all add: unf level_color_lit)
  next
    case LevelShort
    then show ?thesis using renders_append_data [of 1 "[to_short_char (level e)]" n old] by (simp add: unf)
  next
    case LevelFull
    then show ?thesis using renders_append_data [of "length (to_string (level e))" "to_string (level e)" n old] by (simp add: unf)
  qed (use wf in \<open>auto simp: unf clock assms(3) dec_digits_u32 dec_digits_u64
      intro!: renders_append_printed renders_append_ptr renders_append_cstr\<close>)
qed

definition pattern_out :: "localtime \<Rightarrow> PatternFormatter \<Rightarrow> LogEntry \<Rightarrow> nat \<Rightarrow> string" where
  "pattern_out lt pf e n = take (n - 1) (concat (map (op_text lt (enable_color pf) e) (ops pf)))"

lemma PatternFormatter_Format_holds:
  assumes "wf_entry cfg e" "localtime_ok lt" "length junk = 128" "0 < n" "n \<le> length buf"
  shows "\<exists>buf'. PatternFormatter_Format lt junk pf e buf n = Some (buf', length (pattern_out lt pf e n)) \<and>
    holds_text n buf (pattern_out lt pf e n) buf'"
proof -
  have "st_holds True n buf [] (buf[0 := NUL], 0)" using assms(4,5) by (cases buf) (simp_all add: st_holds_def drop_Cons')
  moreover have "renders True n buf (seq_steps (map (format_op lt junk (enable_color pf) e n) (ops pf)))
      (clip_app n (concat (map (op_text lt (enable_color pf) e) (ops pf))))"
    using renders_format_op [OF assms(1-3)] by (intro renders_seq_map)
  ultimately obtain buf' pos where
    "seq_steps (map (format_op lt junk (enable_color pf) e n) (ops pf)) (buf[0 := NUL], 0) = Some (buf', pos)"
    "st_holds True n buf (pattern_out lt pf e n) (buf', pos)"
    using rendersD by (force simp: clip_app_start pattern_out_def)
  moreover have "store_byte buf 0 NUL = Some (buf[0 := NUL])" using assms(4,5) by (intro store_byte_Some) (rule less_le_trans)
  ultimately show ?thesis
    using assms(4) by (auto simp: PatternFormatter_Format_def dest: st_holds_text)
qed

interpretation pattern_fmt: formatter
  "\<lambda>e. wf_entry cfg e \<and> localtime_ok lt \<and> length junk = 128"
  "PatternFormatter_Format lt junk pf" "pattern_out lt pf" for cfg lt junk pf
  by unfold_locales (simp add: PatternFormatter_Format_def, blast intro: PatternFormatter_Format_holds)

lemma pattern_out_init:
  "pattern_out lt (PatternFormatter_init p color) e n = take (n - 1) (pattern_text (field_text lt color e) p)"
  using CompilePattern_loop_text [of lt color e p "[]" "[]"]
  by (simp add: pattern_out_def PatternFormatter_init_def CompilePattern_def)

subsection \<open>Properties\<close>

text \<open>
  C18: formatting an entry with a pattern is memory safe and exact. For every well-formed entry, every pattern
  and every buffer size, \<open>Format\<close> returns, touches no byte beyond the size it was given, and (for a positive
  size) stores the longest prefix of the pattern's text that leaves room for the terminator, terminates it and
  returns its length. The text is the one a direct reading of the pattern gives, so compiling to operations
  and rendering them loses nothing.
\<close>

theorem PatternFormatter_Format_correct:
  assumes "wf_entry cfg e" and "localtime_ok lt" and "length junk = 128" and "n \<le> length buf"
  shows "\<exists>buf' k. PatternFormatter_Format lt junk (PatternFormatter_init p color) e buf n = Some (buf', k) \<and>
    k = min (n - 1) (length (pattern_text (field_text lt color e) p)) \<and>
    take k buf' = take k (pattern_text (field_text lt color e) p) \<and>
    (0 < n \<longrightarrow> buf' ! k = NUL) \<and> length buf' = length buf \<and> drop n buf' = drop n buf"
proof (cases "n = 0")
  case True
  then show ?thesis by (simp add: pattern_fmt.fmt_zero)
next
  case False
  let ?pf = "PatternFormatter_init p color"
  from False assms obtain buf' where
    "PatternFormatter_Format lt junk ?pf e buf n = Some (buf', length (pattern_out lt ?pf e n))"
    "holds_text n buf (pattern_out lt ?pf e n) buf'"
    using pattern_fmt.fmt_some [of cfg e lt junk n buf ?pf] by blast
  then show ?thesis by (auto simp: pattern_out_init holds_text_def min_def)
qed

theorem PatternFormatter_Format_correct_witness:
  "\<exists>buf'. PatternFormatter_Format (\<lambda>_. None) (replicate 128 NUL) (PatternFormatter_init ''%L %q%%%z'' False)
      ((zero_entry (platform_config False))\<lparr>sequence_id := 42\<rparr>) (replicate 16 NUL) 16 = Some (buf', 11) \<and>
    take 11 buf' = ''TRACE 42%%z''"
proof -
  let ?e = "(zero_entry (platform_config False))\<lparr>sequence_id := 42\<rparr>"
  have "wf_entry (platform_config False) (zero_entry (platform_config False))"
    by (intro wf_zero_entry valid_platform_config)
  then have "wf_entry (platform_config False) ?e" by (simp add: wf_entry_def wf_entry_head_def)
  moreover have "pattern_text (field_text (\<lambda>_. None) False ?e) ''%L %q%%%z'' = ''TRACE 42%%z''"
    by (simp add: pattern_letters_def zero_entry_def dec_eval)
  ultimately show ?thesis
    using PatternFormatter_Format_correct [of "platform_config False" ?e "\<lambda>_. None" "replicate 128 NUL" 16
        "replicate 16 NUL" "''%L %q%%%z''" False]
    by (auto simp: localtime_ok_def numeral_eq_Suc)
qed

text \<open>
  C24: compiling a pattern preserves its meaning and is minimal. The texts of the operations, one after the other, are
  the text that a direct reading of the pattern with its own table of letters gives, so each letter stands for its
  field; there is no empty literal, no two literals in a row, and only literals carry text. Every letter of the
  table is compiled to the operation of its field, and no other character is.
\<close>

theorem CompilePattern_correct:
  "ops_compact (CompilePattern p) \<and>
   concat (map (op_text lt color e) (CompilePattern p)) = pattern_text (field_text lt color e) p \<and>
   map op_type (CompilePattern [CHR ''%'', c]) =
     (case map_of pattern_letters c of Some ty \<Rightarrow> [ty] | None \<Rightarrow> [Literal])"
  using CompilePattern_loop_compact [of "[]" p "[]"] CompilePattern_loop_text [of lt color e p "[]" "[]"]
  by (simp add: CompilePattern_def placeholder_letters flush_literal_def split: option.split)

text \<open>All letters of the table in one pattern, on an entry whose fields differ.\<close>

lemma pattern_letters_example:
  "pattern_text (field_text (\<lambda>_. None) False ((zero_entry (platform_config False))
      \<lparr>file_name := Some (c_lit ''f.c''), file_path := Some (c_lit ''/a/f.c''), function_name := Some (c_lit ''g''),
       pretty_function := Some (c_lit ''int g()''), line := 7, thread_id := 11, process_id := 12, sequence_id := 13\<rparr>))
     ''%f %F %n %N %# %t %P %q %L %l%%'' = ''f.c /a/f.c g int g() 7 11 12 13 TRACE T%''"
  by code_simp

text \<open>
  The two ways the library prints a time agree. The pattern \<open>%D %T%e\<close>, rendered by the pattern formatter,
  is the text of \<open>format_timestamp\<close>, although the two divide the clock value differently.
\<close>

lemma pattern_timestamp_agrees:
  "pattern_text (field_text lt color e) ''%D %T%e'' = timestamp_text lt (wall_clock_ns e)"
proof -
  have "(n :: nat) div 10 ^ 3 mod 10 ^ 6 = n mod 10 ^ 9 div 10 ^ 3" for n
    using mod_mult2_eq [of n "10 ^ 3" "10 ^ 6"] by simp
  with unat_micros [of lt "wall_clock_ns e"] show ?thesis
    by (simp add: pattern_letters_def timestamp_text_def decompose_wall_ns_def micros_text_def)
qed

end
