(* ===== verification/Json_Formatter.thy ===== *)
theory Json_Formatter
  imports Formatter
begin

text \<open>
  The JSON formatter (\<open>json_formatter.hpp\<close>, \<open>json_formatter.cpp\<close>): the escaping loop, the two append
  helpers and the whole \<open>Format\<close> as the sequence of its statements. The pointer \<open>buf + pos\<close> that
  \<open>Format\<close> hands to \<open>EscapeJsonString\<close> is the buffer with an offset. The scratch array \<open>tmp\<close> is
  overwritten before each use; its previous bytes are the argument \<open>junk\<close>. The reference is the text of a
  JSON object, and a small JSON parser reads it back.
\<close>

subsection \<open>Escaping\<close>

definition hex_digits :: bytes where
  "hex_digits = ''0123456789ABCDEF''"

definition json_quote :: char where "json_quote = CHR 0x22"
definition json_bslash :: char where "json_bslash = CHR 0x5C"

text \<open>The bytes one iteration of the escaping loop stores for the byte \<open>c\<close>.\<close>

definition escape_char :: "char \<Rightarrow> string" where
  "escape_char c =
     (if c = json_quote then [json_bslash, json_quote]
      else if c = json_bslash then [json_bslash, json_bslash]
      else if c = CHR 0x0A then [json_bslash, CHR ''n'']
      else if c = CHR 0x0D then [json_bslash, CHR ''r'']
      else if c = CHR 0x09 then [json_bslash, CHR ''t'']
      else if of_char c \<le> (0x1F :: nat)
      then [json_bslash, CHR ''u'',
            hex_digits ! (of_char c div 2 ^ 12 mod 16), hex_digits ! (of_char c div 2 ^ 8 mod 16),
            hex_digits ! (of_char c div 2 ^ 4 mod 16), hex_digits ! (of_char c mod 16)]
      else [c])"

text \<open>\<open>dst[pos++] = x\<close> for each byte in turn.\<close>

fun store_bytes :: "bytes \<Rightarrow> nat \<Rightarrow> bytes \<Rightarrow> bytes option" where
  "store_bytes dst p [] = Some dst"
| "store_bytes dst p (x # xs) = do { dst' \<leftarrow> store_byte dst p x; store_bytes dst' (p + 1) xs }"

text \<open>
  The loop: the source from index \<open>i\<close> on, the iterations left, the destination \<open>buf + off\<close> of
  \<open>dst_size\<close> bytes and the position in it.
\<close>

fun EscapeJsonString_loop :: "bytes \<Rightarrow> nat \<Rightarrow> bytes \<Rightarrow> nat \<Rightarrow> nat \<Rightarrow> nat \<Rightarrow> (bytes \<times> nat) option" where
  "EscapeJsonString_loop src 0 buf off dst_size pos = Some (buf, pos)"
| "EscapeJsonString_loop [] (Suc m) buf off dst_size pos = None"
| "EscapeJsonString_loop (c # src) (Suc m) buf off dst_size pos =
     (if pos \<ge> dst_size then Some (buf, pos)
      else if pos + length (escape_char c) > dst_size then Some (buf, pos)
      else do { buf' \<leftarrow> store_bytes buf (off + pos) (escape_char c);
                EscapeJsonString_loop src m buf' off dst_size (pos + length (escape_char c)) })"

definition EscapeJsonString :: "bytes \<Rightarrow> nat \<Rightarrow> bytes \<Rightarrow> nat \<Rightarrow> nat \<Rightarrow> (bytes \<times> nat) option" where
  "EscapeJsonString src src_len buf off dst_size =
     (if dst_size = 0 then Some (buf, 0) else EscapeJsonString_loop src src_len buf off dst_size 0)"

subsection \<open>Appending\<close>

definition safe_append :: "nat \<Rightarrow> bytes \<Rightarrow> nat \<Rightarrow> fmt_st \<Rightarrow> fmt_st option" where
  "safe_append buf_size src src_len st = (case st of (buf, pos) \<Rightarrow>
     if pos \<ge> buf_size - 1 then Some (buf, pos)
     else let avail = buf_size - 1 - pos; n = (if src_len < avail then src_len else avail) in
       do { buf' \<leftarrow> memcpy buf pos src n; Some (buf', pos + n) })"

definition safe_append_str :: "nat \<Rightarrow> bytes \<Rightarrow> fmt_st \<Rightarrow> fmt_st option" where
  "safe_append_str buf_size s st = do { n \<leftarrow> strlen s; safe_append buf_size s n st }"

definition append_escaped :: "nat \<Rightarrow> bytes \<Rightarrow> nat \<Rightarrow> fmt_st \<Rightarrow> fmt_st option" where
  "append_escaped buf_size src src_len st = (case st of (buf, pos) \<Rightarrow>
     if pos \<ge> buf_size - 1 then Some (buf, pos)
     else let avail = buf_size - 1 - pos in
       do { (buf', n) \<leftarrow> EscapeJsonString src src_len buf pos avail;
            Some (buf', pos + (if n > avail then avail else n)) })"

text \<open>\<open>append_escaped(s, strlen(s))\<close>, under \<open>if (s)\<close> for the pointers.\<close>

definition append_escaped_str :: "nat \<Rightarrow> bytes \<Rightarrow> fmt_st \<Rightarrow> fmt_st option" where
  "append_escaped_str buf_size s st = do { n \<leftarrow> strlen s; append_escaped buf_size s n st }"

definition append_escaped_ptr :: "nat \<Rightarrow> c_ptr \<Rightarrow> fmt_st \<Rightarrow> fmt_st option" where
  "append_escaped_ptr buf_size p st = (case p of None \<Rightarrow> Some st | Some s \<Rightarrow> append_escaped_str buf_size s st)"

text \<open>\<open>n = snprintf(tmp, sizeof(tmp), ...); if (n > 0) pos = safe_append(..., tmp, n)\<close>.\<close>

definition safe_append_printed :: "nat \<Rightarrow> bytes \<Rightarrow> string \<Rightarrow> fmt_st \<Rightarrow> fmt_st option" where
  "safe_append_printed buf_size tmp txt st =
     do { (tmp', n) \<leftarrow> snprintf tmp 128 txt;
          if 0 < n then safe_append buf_size tmp' n st else Some st }"

definition safe_append_timestamp :: "localtime \<Rightarrow> nat \<Rightarrow> bytes \<Rightarrow> u64 \<Rightarrow> fmt_st \<Rightarrow> fmt_st option" where
  "safe_append_timestamp lt buf_size tmp w st =
     do { (tmp', ts_len) \<leftarrow> format_timestamp lt w tmp 128; safe_append buf_size tmp' ts_len st }"

text \<open>A string literal with an explicit length, \<open>safe_append(buf, buf_size, pos, "...", n)\<close>.\<close>

definition safe_append_lit :: "nat \<Rightarrow> string \<Rightarrow> fmt_st \<Rightarrow> fmt_st option" where
  "safe_append_lit buf_size s st = safe_append buf_size (c_lit s) (length s) st"

definition json_nl :: "bool \<Rightarrow> string" where "json_nl pretty = (if pretty then [CHR 0x0A] else [])"
definition json_ind :: "bool \<Rightarrow> string" where "json_ind pretty = (if pretty then ''  '' else [])"
definition json_sep :: "bool \<Rightarrow> string" where "json_sep pretty = (if pretty then '': '' else '':'')"
definition json_comma :: "bool \<Rightarrow> string" where "json_comma pretty = (if pretty then '','' @ [CHR 0x0A] else '','')"

definition in_quotes :: "string \<Rightarrow> string" where
  "in_quotes s = [json_quote] @ s @ [json_quote]"

definition json_tag :: "bool \<Rightarrow> nat \<Rightarrow> LogEntry \<Rightarrow> nat \<Rightarrow> fmt_st \<Rightarrow> fmt_st option" where
  "json_tag pretty n e t st =
     (if t < length (tags e)
      then seq_steps
        [(if 0 < t then safe_append_lit n '','' else Some),
         safe_append_lit n [json_quote],
         append_escaped_str n (tag_key (tags e ! t)),
         safe_append_lit n [json_quote],
         safe_append_str n (c_lit (json_sep pretty)),
         safe_append_lit n [json_quote],
         append_escaped_str n (tag_value (tags e ! t)),
         safe_append_lit n [json_quote]] st
      else None)"

text \<open>The statements between the opening and the closing of a field: indentation, name and separator.\<close>

definition json_name :: "bool \<Rightarrow> nat \<Rightarrow> string \<Rightarrow> (fmt_st \<Rightarrow> fmt_st option) list" where
  "json_name pretty n name =
     [safe_append_str n (c_lit (json_ind pretty)),
      safe_append_lit n (in_quotes name),
      safe_append_str n (c_lit (json_sep pretty))]"

definition json_statements :: "localtime \<Rightarrow> bytes \<Rightarrow> bool \<Rightarrow> LogEntry \<Rightarrow> nat \<Rightarrow> (fmt_st \<Rightarrow> fmt_st option) list" where
  "json_statements lt junk pretty e n =
     [safe_append_lit n ''{'', safe_append_str n (c_lit (json_nl pretty))] @
     json_name pretty n ''ts'' @
     [safe_append_lit n [json_quote], safe_append_timestamp lt n junk (wall_clock_ns e), safe_append_lit n [json_quote],
      safe_append_str n (c_lit (json_comma pretty))] @
     json_name pretty n ''level'' @
     [safe_append_lit n [json_quote], safe_append n (to_string (level e)) (length (to_string (level e))),
      safe_append_lit n [json_quote], safe_append_str n (c_lit (json_comma pretty))] @
     json_name pretty n ''file'' @
     [safe_append_lit n [json_quote], append_escaped_ptr n (file_name e), safe_append_lit n [json_quote],
      safe_append_str n (c_lit (json_comma pretty))] @
     json_name pretty n ''line'' @
     [safe_append_printed n junk (dec_digits (unat (line e))), safe_append_str n (c_lit (json_comma pretty))] @
     json_name pretty n ''func'' @
     [safe_append_lit n [json_quote], append_escaped_ptr n (function_name e), safe_append_lit n [json_quote],
      safe_append_str n (c_lit (json_comma pretty))] @
     json_name pretty n ''tid'' @
     [safe_append_printed n junk (dec_digits (unat (thread_id e))), safe_append_str n (c_lit (json_comma pretty))] @
     json_name pretty n ''pid'' @
     [safe_append_printed n junk (dec_digits (unat (process_id e))), safe_append_str n (c_lit (json_comma pretty))] @
     json_name pretty n ''thread'' @
     [safe_append_lit n [json_quote], append_escaped_str n (thread_name e), safe_append_lit n [json_quote],
      safe_append_str n (c_lit (json_comma pretty))] @
     json_name pretty n ''seq'' @
     [safe_append_printed n junk (dec_digits (unat (sequence_id e))), safe_append_str n (c_lit (json_comma pretty))] @
     json_name pretty n ''tags'' @
     [safe_append_lit n ''{'',
      seq_steps (map (json_tag pretty n e) [0..<unat (tag_count e)]),
      safe_append_lit n ''}'', safe_append_str n (c_lit (json_comma pretty))] @
     json_name pretty n ''msg'' @
     [safe_append_lit n [json_quote], append_escaped n (msg e) (unat (msg_len e)), safe_append_lit n [json_quote],
      safe_append_str n (c_lit (json_nl pretty)), safe_append_lit n ''}'']"

definition JsonFormatter_Format ::
  "localtime \<Rightarrow> bytes \<Rightarrow> bool \<Rightarrow> LogEntry \<Rightarrow> bytes \<Rightarrow> nat \<Rightarrow> (bytes \<times> nat) option" where
  "JsonFormatter_Format lt junk pretty e buf buf_size =
     (if buf_size = 0 then Some (buf, 0)
      else do { (buf', pos) \<leftarrow> seq_steps (json_statements lt junk pretty e buf_size) (buf, 0);
                buf'' \<leftarrow> store_byte buf' pos NUL;
                Some (buf'', pos) })"

subsection \<open>Reference: what fits of a piece of text\<close>

text \<open>
  Plain pieces are cut at any byte, escaped pieces only between two escape sequences.
\<close>

datatype piece = Plain string | Escaped string

definition escape :: "string \<Rightarrow> string" where
  "escape s = concat (map escape_char s)"

fun piece_text :: "piece \<Rightarrow> string" where
  "piece_text (Plain s) = s"
| "piece_text (Escaped s) = escape s"

fun escape_fit :: "nat \<Rightarrow> string \<Rightarrow> string" where
  "escape_fit k [] = []"
| "escape_fit k (c # s) =
     (if length (escape_char c) \<le> k then escape_char c @ escape_fit (k - length (escape_char c)) s else [])"

fun piece_fit :: "nat \<Rightarrow> piece \<Rightarrow> string" where
  "piece_fit k (Plain s) = take k s"
| "piece_fit k (Escaped s) = escape_fit k s"

definition add_piece :: "nat \<Rightarrow> piece \<Rightarrow> string \<Rightarrow> string" where
  "add_piece n p s = s @ piece_fit (n - 1 - length s) p"

lemma escape_char_nonempty: "0 < length (escape_char c)"
  by (simp add: escape_char_def)

lemma store_bytes_holds:
  "st_holds False n old s (buf, pos) \<Longrightarrow> length x \<le> n - 1 - pos \<Longrightarrow>
   \<exists>buf'. store_bytes buf pos x = Some buf' \<and> st_holds False n old (s @ x) (buf', pos + length x)"
proof (induction x arbitrary: s buf pos)
  case Nil
  then show ?case by simp
next
  case (Cons c x)
  from Cons.prems have "store_byte buf pos c = Some (buf[pos := c])"
    and h: "st_holds False n old (s @ [c]) (buf[pos := c], pos + 1)"
    by (auto simp: st_holds_def store_byte_def take_Suc_conv_app_nth)
  moreover have "\<exists>buf'. store_bytes (buf[pos := c]) (pos + 1) x = Some buf' \<and>
      st_holds False n old ((s @ [c]) @ x) (buf', pos + 1 + length x)"
    using Cons.prems(2) by (intro Cons.IH [OF h]) simp
  ultimately show ?case by auto
qed

lemma EscapeJsonString_loop_holds:
  "st_holds False n old s (buf, off + pos) \<Longrightarrow> off + dst_size = n - 1 \<Longrightarrow> m \<le> length src \<Longrightarrow>
   \<exists>buf' k. EscapeJsonString_loop src m buf off dst_size pos = Some (buf', k) \<and> k \<le> dst_size \<and>
     st_holds False n old (s @ escape_fit (dst_size - pos) (take m src)) (buf', off + k)"
proof (induction src m buf off dst_size pos arbitrary: s rule: EscapeJsonString_loop.induct)
  case (1 src buf off dst_size pos)
  then show ?case by (auto simp: st_holds_def)
next
  case (2 m buf off dst_size pos)
  then show ?case by simp
next
  case (3 c src m buf off dst_size pos)
  let ?e = "escape_char c"
  from "3.prems" have le: "pos \<le> dst_size" by (auto simp: st_holds_def)
  show ?case
  proof (cases "pos + length ?e \<le> dst_size")
    case False
    with "3.prems" le show ?thesis by auto
  next
    case True
    then have lt: "\<not> dst_size \<le> pos" using escape_char_nonempty [of c] by linarith
    from True "3.prems"(2) have "length ?e \<le> n - 1 - (off + pos)" by simp
    from store_bytes_holds [OF "3.prems"(1) this] obtain buf' where
      b: "store_bytes buf (off + pos) ?e = Some buf'" "st_holds False n old (s @ ?e) (buf', off + (pos + length ?e))"
      by (auto simp: add.assoc)
    from True lt have "\<not> dst_size < pos + length ?e" "length ?e \<le> dst_size - pos" by simp_all
    with "3.IH" [OF lt this(1) b "3.prems"(2)] "3.prems"(3) lt b(1) show ?thesis by simp
  qed
qed

lemma renders_safe_append [renders_intros]:
  assumes "len \<le> length src"
  shows "renders False n old (safe_append n src len) (add_piece n (Plain (take len src)))"
proof -
  have "\<exists>st'. safe_append n src len (buf, pos) = Some st' \<and> st_holds False n old (add_piece n (Plain (take len src)) s) st'"
    if h: "st_holds False n old s (buf, pos)" for s buf pos
  proof (cases "pos \<ge> n - 1")
    case True
    with h show ?thesis by (auto simp: safe_append_def st_holds_def add_piece_def)
  next
    case False
    define k where "k = (if len < n - 1 - pos then len else n - 1 - pos)"
    have k: "k \<le> n - 1 - pos" "k \<le> length src" using assms by (auto simp: k_def)
    have "pos = length s" using h by (simp add: st_holds_def)
    then have "take k src = take (n - 1 - length s) (take len src)" by (simp add: k_def min_def)
    moreover have "safe_append n src len (buf, pos) = do { buf' \<leftarrow> memcpy buf pos src k; Some (buf', pos + k) }"
      using False by (simp add: safe_append_def k_def)
    ultimately show ?thesis using st_holds_copy [OF h k] by (auto simp: add_piece_def)
  qed
  then show ?thesis unfolding renders_def by force
qed

lemma renders_append_escaped [renders_intros]:
  assumes "len \<le> length src"
  shows "renders False n old (append_escaped n src len) (add_piece n (Escaped (take len src)))"
proof -
  have "\<exists>st'. append_escaped n src len (buf, pos) = Some st' \<and> st_holds False n old (add_piece n (Escaped (take len src)) s) st'"
    if h: "st_holds False n old s (buf, pos)" for s buf pos
  proof (cases "pos \<ge> n - 1")
    case True
    have "escape_fit 0 x = []" for x using escape_char_nonempty by (cases x) simp_all
    with h True show ?thesis by (auto simp: append_escaped_def st_holds_def add_piece_def)
  next
    case False
    from h have "pos = length s" by (simp add: st_holds_def)
    with False EscapeJsonString_loop_holds [of n old s buf pos 0 "n - 1 - pos" len src] h assms show ?thesis
      by (auto simp: append_escaped_def EscapeJsonString_def add_piece_def Let_def)
  qed
  then show ?thesis unfolding renders_def by force
qed

subsection \<open>The pieces of an entry\<close>

definition add_pieces :: "nat \<Rightarrow> piece list \<Rightarrow> string \<Rightarrow> string" where
  "add_pieces n ps = fold (add_piece n) ps"

text \<open>The statements \<open>fs\<close> write the pieces \<open>ps\<close>.\<close>

definition writes :: "nat \<Rightarrow> bytes \<Rightarrow> (fmt_st \<Rightarrow> fmt_st option) list \<Rightarrow> piece list \<Rightarrow> bool" where
  "writes n old fs ps \<longleftrightarrow> renders False n old (seq_steps fs) (add_pieces n ps)"

lemma writes_Nil: "writes n old [] []"
  by (simp add: writes_def renders_def add_pieces_def)

lemma writes_Cons_seq: "renders False n old f (add_pieces n qs) \<Longrightarrow> writes n old fs ps \<Longrightarrow> writes n old (f # fs) (qs @ ps)"
  unfolding writes_def add_pieces_def fold_append
  by (drule (1) renders_bind) (simp add: renders_def)

lemma writes_Cons: "renders False n old f (add_piece n p) \<Longrightarrow> writes n old fs ps \<Longrightarrow> writes n old (f # fs) (p # ps)"
  using writes_Cons_seq [of n old f "[p]" fs ps] by (simp add: add_pieces_def)

lemma writes_map:
  "(\<And>x. x \<in> set xs \<Longrightarrow> renders False n old (f x) (add_pieces n (t x))) \<Longrightarrow> writes n old (map f xs) (concat (map t xs))"
  by (induction xs) (auto intro: writes_Nil writes_Cons_seq)

lemma renders_lit [renders_intros]: "renders False n old (safe_append_lit n s) (add_piece n (Plain s))"
  using renders_safe_append [of "length s" "c_lit s" n old] by (simp add: safe_append_lit_def [abs_def] c_lit_def)

lemma renders_str [renders_intros]:
  "NUL \<notin> set s \<Longrightarrow> renders False n old (safe_append_str n (c_lit s)) (add_piece n (Plain s))"
  using renders_lit [of n old s]
  by (simp add: safe_append_str_def [abs_def] safe_append_lit_def [abs_def] strlen_terminated c_str_c_lit)

lemma renders_escaped_str [renders_intros]:
  "terminated m \<Longrightarrow> renders False n old (append_escaped_str n m) (add_piece n (Escaped (c_str m)))"
  using renders_append_escaped [of "length (c_str m)" m n old] c_str_length_less [of m]
  by (simp add: append_escaped_str_def [abs_def] strlen_terminated)

lemma renders_escaped_ptr [renders_intros]:
  "wf_ptr p \<Longrightarrow> renders False n old (append_escaped_ptr n p) (add_piece n (Escaped (ptr_text p)))"
  using renders_escaped_str [of _ n old]
  by (cases p) (simp_all add: wf_ptr_def ptr_text_def append_escaped_ptr_def [abs_def] renders_def add_piece_def)

lemma renders_printed [renders_intros]:
  assumes "length tmp = 128" "length s < 128"
  shows "renders False n old (safe_append_printed n tmp s) (add_piece n (Plain s))"
proof -
  obtain tmp' where "snprintf tmp 128 s = Some (tmp', length s)" "length tmp' = 128" "take (length s) tmp' = s"
    using snprintf_scratch [OF assms] by blast
  with renders_safe_append [of "length s" tmp' n old] assms show ?thesis
    by (cases "s = []") (simp_all add: safe_append_printed_def [abs_def] renders_def add_piece_def)
qed

lemma renders_timestamp [renders_intros]:
  assumes "localtime_ok lt" "length tmp = 128"
  shows "renders False n old (safe_append_timestamp lt n tmp w) (add_piece n (Plain (timestamp_text lt w)))"
proof -
  have "length (timestamp_text lt w) \<le> 78" by (rule timestamp_text_length [OF assms(1)])
  moreover obtain tmp' where "format_timestamp lt w tmp 128 = Some (tmp', length (take 127 (timestamp_text lt w)))"
    and "holds_text 128 tmp (take 127 (timestamp_text lt w)) tmp'"
    using format_timestamp_holds [of 128 tmp lt w] assms(2) by auto
  ultimately show ?thesis
    using renders_safe_append [of "length (timestamp_text lt w)" tmp' n old] assms(2)
    by (simp add: holds_text_def safe_append_timestamp_def [abs_def])
qed

definition name_pieces :: "bool \<Rightarrow> string \<Rightarrow> piece list" where
  "name_pieces pretty name = [Plain (json_ind pretty), Plain (in_quotes name), Plain (json_sep pretty)]"

definition quoted_pieces :: "piece \<Rightarrow> piece list" where
  "quoted_pieces p = [Plain [json_quote], p, Plain [json_quote]]"

definition tag_pieces :: "bool \<Rightarrow> LogTag \<Rightarrow> piece list" where
  "tag_pieces pretty t =
     quoted_pieces (Escaped (c_str (tag_key t))) @ [Plain (json_sep pretty)] @ quoted_pieces (Escaped (c_str (tag_value t)))"

definition json_pieces :: "localtime \<Rightarrow> bool \<Rightarrow> LogEntry \<Rightarrow> piece list" where
  "json_pieces lt pretty e = (let comma = [Plain (json_comma pretty)] in
     [Plain ''{'', Plain (json_nl pretty)] @
     name_pieces pretty ''ts'' @ quoted_pieces (Plain (timestamp_text lt (wall_clock_ns e))) @ comma @
     name_pieces pretty ''level'' @ quoted_pieces (Plain (to_string (level e))) @ comma @
     name_pieces pretty ''file'' @ quoted_pieces (Escaped (ptr_text (file_name e))) @ comma @
     name_pieces pretty ''line'' @ [Plain (dec_digits (unat (line e)))] @ comma @
     name_pieces pretty ''func'' @ quoted_pieces (Escaped (ptr_text (function_name e))) @ comma @
     name_pieces pretty ''tid'' @ [Plain (dec_digits (unat (thread_id e)))] @ comma @
     name_pieces pretty ''pid'' @ [Plain (dec_digits (unat (process_id e)))] @ comma @
     name_pieces pretty ''thread'' @ quoted_pieces (Escaped (c_str (thread_name e))) @ comma @
     name_pieces pretty ''seq'' @ [Plain (dec_digits (unat (sequence_id e)))] @ comma @
     name_pieces pretty ''tags'' @ [Plain ''{''] @
       concat (map (\<lambda>t. (if 0 < t then [Plain '',''] else []) @ tag_pieces pretty (tags e ! t)) [0..<unat (tag_count e)]) @
       [Plain ''}''] @ comma @
     name_pieces pretty ''msg'' @ quoted_pieces (Escaped (entry_msg e)) @ [Plain (json_nl pretty), Plain ''}''])"

lemma json_ws_NUL: "NUL \<notin> set (json_nl p)" "NUL \<notin> set (json_ind p)" "NUL \<notin> set (json_sep p)" "NUL \<notin> set (json_comma p)"
  by (simp_all add: json_nl_def json_ind_def json_sep_def json_comma_def)

lemmas writes_intros = writes_Cons writes_Nil renders_lit renders_str renders_escaped_str
  renders_escaped_ptr renders_printed renders_timestamp json_ws_NUL

lemma writes_tag:
  assumes "wf_entry cfg e" "t < unat (tag_count e)"
  shows "renders False n old (json_tag pretty n e t)
    (add_pieces n ((if 0 < t then [Plain '',''] else []) @ tag_pieces pretty (tags e ! t)))"
proof -
  from assms have t: "t < length (tags e)" "wf_tag cfg (tags e ! t)"
    by (auto simp: wf_entry_def wf_entry_head_def list_all_length)
  have "renders False n old (if 0 < t then safe_append_lit n '','' else Some)
      (add_pieces n (if 0 < t then [Plain '',''] else []))"
    using renders_lit renders_skip [of False n old] by (simp add: add_pieces_def)
  then have "writes n old
    [(if 0 < t then safe_append_lit n '','' else Some), safe_append_lit n [json_quote],
     append_escaped_str n (tag_key (tags e ! t)), safe_append_lit n [json_quote],
     safe_append_str n (c_lit (json_sep pretty)), safe_append_lit n [json_quote],
     append_escaped_str n (tag_value (tags e ! t)), safe_append_lit n [json_quote]]
    ((if 0 < t then [Plain '',''] else []) @ tag_pieces pretty (tags e ! t))"
    unfolding tag_pieces_def quoted_pieces_def append.simps
    using t(2) [unfolded wf_tag_def] by (intro writes_Cons_seq) (auto intro!: writes_intros)
  with t(1) show ?thesis by (simp add: writes_def json_tag_def [abs_def] del: seq_steps.simps)
qed

lemma writes_json:
  assumes "wf_entry cfg e" "localtime_ok lt" "length junk = 128"
  shows "writes n old (json_statements lt junk pretty e n) (json_pieces lt pretty e)"
proof -
  note wf = assms(1) [unfolded wf_entry_def wf_entry_head_def]
  have lv: "renders False n old (safe_append n (to_string (level e)) (length (to_string (level e))))
      (add_piece n (Plain (to_string (level e))))"
    using renders_safe_append [of "length (to_string (level e))" "to_string (level e)" n old] by simp
  have m: "renders False n old (append_escaped n (msg e) (unat (msg_len e))) (add_piece n (Escaped (entry_msg e)))"
    unfolding entry_msg_def using wf by (intro renders_append_escaped) simp
  have tg: "renders False n old (seq_steps (map (json_tag pretty n e) [0..<unat (tag_count e)]))
      (add_pieces n (concat (map (\<lambda>t. (if 0 < t then [Plain '',''] else []) @ tag_pieces pretty (tags e ! t))
        [0..<unat (tag_count e)])))"
    using writes_map [of "[0..<unat (tag_count e)]" n old "json_tag pretty n e"] writes_tag [OF assms(1), of _ n old pretty]
    by (simp add: writes_def)
  from wf show ?thesis
    unfolding json_statements_def json_pieces_def Let_def quoted_pieces_def json_name_def name_pieces_def
      append_assoc append.simps
    by (intro writes_Cons_seq [OF tg] lv m writes_intros assms(2,3) dec_digits_u32 dec_digits_u64) simp_all
qed

subsection \<open>Safety, and the exact text when it fits\<close>

definition json_out :: "localtime \<Rightarrow> bool \<Rightarrow> LogEntry \<Rightarrow> nat \<Rightarrow> string" where
  "json_out lt pretty e n = add_pieces n (json_pieces lt pretty e) []"

lemma JsonFormatter_Format_holds:
  assumes "wf_entry cfg e" "localtime_ok lt" "length junk = 128" "0 < n" "n \<le> length buf"
  shows "\<exists>buf'. JsonFormatter_Format lt junk pretty e buf n = Some (buf', length (json_out lt pretty e n)) \<and>
    holds_text n buf (json_out lt pretty e n) buf'"
proof -
  have "st_holds False n buf [] (buf, 0)" using assms(4,5) by (simp add: st_holds_def)
  from rendersD [OF writes_json [OF assms(1-3), of n buf pretty, unfolded writes_def] this]
  obtain buf1 pos where 1: "seq_steps (json_statements lt junk pretty e n) (buf, 0) = Some (buf1, pos)"
    and "st_holds False n buf (json_out lt pretty e n) (buf1, pos)"
    by (auto simp: json_out_def)
  then obtain buf2 where 2: "store_byte buf1 pos NUL = Some buf2" and "st_holds True n buf (json_out lt pretty e n) (buf2, pos)"
    using st_holds_NUL by blast
  then have "pos = length (json_out lt pretty e n) \<and> holds_text n buf (json_out lt pretty e n) buf2"
    by (intro st_holds_text)
  with 1 2 assms(4) show ?thesis by (simp add: JsonFormatter_Format_def)
qed

interpretation json_fmt: formatter
  "\<lambda>e. wf_entry cfg e \<and> localtime_ok lt \<and> length junk = 128"
  "JsonFormatter_Format lt junk pretty" "json_out lt pretty" for cfg lt junk pretty
  by unfold_locales (simp add: JsonFormatter_Format_def, blast intro: JsonFormatter_Format_holds)

lemma escape_fit_exact: "length (escape s) \<le> k \<Longrightarrow> escape_fit k s = escape s"
  by (induction s arbitrary: k) (auto simp: escape_def)

lemma add_piece_exact: "length s + length (piece_text p) \<le> n - 1 \<Longrightarrow> add_piece n p s = s @ piece_text p"
  by (cases p) (simp_all add: add_piece_def escape_fit_exact)

lemma add_pieces_exact:
  "length s + length (concat (map piece_text ps)) \<le> n - 1 \<Longrightarrow> add_pieces n ps s = s @ concat (map piece_text ps)"
  by (induction ps arbitrary: s) (simp_all add: add_pieces_def add_piece_exact)

subsection \<open>Reference: a JSON parser\<close>

datatype json = JStr string | JNum nat | JObj "(string \<times> json) list"

definition is_ws :: "char \<Rightarrow> bool" where
  "is_ws c \<longleftrightarrow> c \<in> {CHR 0x20, CHR 0x0A, CHR 0x0D, CHR 0x09}"

definition skip_ws :: "string \<Rightarrow> string" where
  "skip_ws s = dropWhile is_ws s"

definition is_digit :: "char \<Rightarrow> bool" where
  "is_digit c \<longleftrightarrow> c \<in> set ''0123456789''"

definition hex_val :: "char \<Rightarrow> nat" where
  "hex_val c = length (takeWhile (\<lambda>d. d \<noteq> c) hex_digits)"

definition unescape_char :: "char \<Rightarrow> char option" where
  "unescape_char d =
     (if d = json_quote \<or> d = json_bslash then Some d
      else if d = CHR ''n'' then Some (CHR 0x0A) else if d = CHR ''r'' then Some (CHR 0x0D)
      else if d = CHR ''t'' then Some (CHR 0x09) else None)"

definition read_hex4 :: "string \<Rightarrow> char" where
  "read_hex4 s = char_of (foldl (\<lambda>n c. 16 * n + hex_val c) 0 s)"

text \<open>The rest of a string literal, after its opening quote: the characters and what follows.\<close>

fun parse_string :: "string \<Rightarrow> (string \<times> string) option" where
  "parse_string [] = None"
| "parse_string (c # s) =
     (if c = json_quote then Some ([], s)
      else if c \<noteq> json_bslash
      then (if of_char c < (0x20 :: nat) then None else map_option (apfst ((#) c)) (parse_string s))
      else case s of
        [] \<Rightarrow> None
      | d # s' \<Rightarrow>
          (if d = CHR ''u''
           then case s' of
               a # b # x # y # t \<Rightarrow> map_option (apfst ((#) (read_hex4 [a, b, x, y]))) (parse_string t)
             | _ \<Rightarrow> None
           else case unescape_char d of
               None \<Rightarrow> None
             | Some ch \<Rightarrow> map_option (apfst ((#) ch)) (parse_string s')))"

fun parse_value :: "nat \<Rightarrow> string \<Rightarrow> (json \<times> string) option"
and parse_members :: "nat \<Rightarrow> string \<Rightarrow> ((string \<times> json) list \<times> string) option" where
  "parse_value 0 s = None"
| "parse_value (Suc f) s = (case skip_ws s of
     [] \<Rightarrow> None
   | c # r \<Rightarrow>
       if c = json_quote then map_option (apfst JStr) (parse_string r)
       else if c = CHR ''{''
       then (if take 1 (skip_ws r) = ''}'' then Some (JObj [], drop 1 (skip_ws r))
             else map_option (apfst JObj) (parse_members f r))
       else if is_digit c
       then Some (JNum (read_dec (takeWhile is_digit (c # r))), dropWhile is_digit (c # r))
       else None)"
| "parse_members 0 s = None"
| "parse_members (Suc f) s =
     (if take 1 (skip_ws s) \<noteq> [json_quote] then None
      else do {
        (k, r) \<leftarrow> parse_string (drop 1 (skip_ws s));
        if take 1 (skip_ws r) \<noteq> '':'' then None
        else do {
          (v, r2) \<leftarrow> parse_value f (drop 1 (skip_ws r));
          (if take 1 (skip_ws r2) = '',''
           then map_option (apfst ((#) (k, v))) (parse_members f (drop 1 (skip_ws r2)))
           else if take 1 (skip_ws r2) = ''}'' then Some ([(k, v)], drop 1 (skip_ws r2))
           else None) } })"

definition json_parse :: "nat \<Rightarrow> string \<Rightarrow> json option" where
  "json_parse f s = (case parse_value f s of Some (v, []) \<Rightarrow> Some v | _ \<Rightarrow> None)"

subsection \<open>Strings and numbers read back\<close>

lemma hex_val_digit: "i < 16 \<Longrightarrow> hex_val (hex_digits ! i) = i"
  by (simp add: hex_val_def hex_digits_def numeral_eq_Suc less_Suc_eq) (elim disjE; simp)

lemma read_hex4_control:
  assumes "of_char c \<le> (0x1F :: nat)"
  shows "read_hex4 [hex_digits ! (of_char c div 2 ^ 12 mod 16), hex_digits ! (of_char c div 2 ^ 8 mod 16),
    hex_digits ! (of_char c div 2 ^ 4 mod 16), hex_digits ! (of_char c mod 16)] = c"
proof -
  have "(16 * (16 * (16 * (n div 2 ^ 12 mod 16) + n div 2 ^ 8 mod 16) + n div 2 ^ 4 mod 16) + n mod 16) = n"
    if "n \<le> 0x1F" for n :: nat
    using that by simp
  with assms have "read_hex4 [hex_digits ! (of_char c div 2 ^ 12 mod 16), hex_digits ! (of_char c div 2 ^ 8 mod 16),
    hex_digits ! (of_char c div 2 ^ 4 mod 16), hex_digits ! (of_char c mod 16)] = char_of (of_char c :: nat)"
    unfolding read_hex4_def by (simp add: hex_val_digit)
  then show ?thesis by simp
qed

lemmas json_char_defs = json_quote_def json_bslash_def

lemma parse_string_escape_char: "parse_string (escape_char c @ s) = map_option (apfst ((#) c)) (parse_string s)"
proof (cases "of_char c \<le> (0x1F :: nat) \<and> c \<noteq> CHR 0x0A \<and> c \<noteq> CHR 0x0D \<and> c \<noteq> CHR 0x09")
  case True
  then have "c \<noteq> json_quote" "c \<noteq> json_bslash" by (auto simp: json_char_defs)
  with True read_hex4_control [of c] show ?thesis
    by (simp add: escape_char_def) (simp add: json_char_defs)
next
  case False
  then show ?thesis by (auto simp: escape_char_def json_char_defs unescape_char_def)
qed

lemma parse_string_escape: "parse_string (escape s @ json_quote # r) = Some (s, r)"
  by (induction s) (simp_all add: escape_def parse_string_escape_char)

lemma is_digit_digit_char: "d < 10 \<Longrightarrow> is_digit (digit_char d)"
proof -
  have "\<forall>d\<in>set [0..<10]. is_digit (digit_char d)" by code_simp
  then show "d < 10 \<Longrightarrow> ?thesis" by simp
qed


lemma dec_digits_is_digit: "\<forall>c\<in>set (dec_digits n). is_digit c"
proof (induction n rule: dec_digits.induct)
  case (1 n)
  show ?case
    using 1 is_digit_digit_char [of n] is_digit_digit_char [of "n mod 10"]
    by (subst dec_digits.simps) auto
qed

subsection \<open>The object reads back\<close>

fun print_json :: "string \<Rightarrow> json \<Rightarrow> string" where
  "print_json sep (JStr s) = in_quotes (escape s)"
| "print_json sep (JNum n) = dec_digits n"
| "print_json sep (JObj kvs) =
     ''{'' @ join '','' (map (\<lambda>(k, v). in_quotes (escape k) @ sep @ print_json sep v) kvs) @ ''}''"

text \<open>The contents of an entry as a JSON object.\<close>

definition entry_json :: "localtime \<Rightarrow> LogEntry \<Rightarrow> (string \<times> json) list" where
  "entry_json lt e =
     [(''ts'', JStr (timestamp_text lt (wall_clock_ns e))),
      (''level'', JStr (to_string (level e))),
      (''file'', JStr (ptr_text (file_name e))),
      (''line'', JNum (unat (line e))),
      (''func'', JStr (ptr_text (function_name e))),
      (''tid'', JNum (unat (thread_id e))),
      (''pid'', JNum (unat (process_id e))),
      (''thread'', JStr (c_str (thread_name e))),
      (''seq'', JNum (unat (sequence_id e))),
      (''tags'', JObj (map (\<lambda>t. (c_str (tag_key t), JStr (c_str (tag_value t)))) (entry_tags e))),
      (''msg'', JStr (entry_msg e))]"

definition json_text :: "localtime \<Rightarrow> bool \<Rightarrow> LogEntry \<Rightarrow> string" where
  "json_text lt pretty e = ''{'' @ json_nl pretty @
     join (json_comma pretty)
       (map (\<lambda>(k, v). json_ind pretty @ in_quotes (escape k) @ json_sep pretty @ print_json (json_sep pretty) v)
         (entry_json lt e)) @
     json_nl pretty @ ''}''"

text \<open>A value may be followed by anything but a digit.\<close>

definition no_digit :: "string \<Rightarrow> bool" where
  "no_digit r \<longleftrightarrow> r = [] \<or> \<not> is_digit (hd r)"

definition reads_back :: "nat \<Rightarrow> string \<Rightarrow> json \<Rightarrow> bool" where
  "reads_back d t v \<longleftrightarrow> (\<forall>f\<ge>d. \<forall>w r. list_all is_ws w \<longrightarrow> no_digit r \<longrightarrow> parse_value f (w @ t @ r) = Some (v, r))"

lemma skip_ws_append [simp]: "list_all is_ws w \<Longrightarrow> skip_ws (w @ s) = skip_ws s"
  by (induction w) (simp_all add: skip_ws_def)

lemma skip_ws_token [simp]: "\<not> is_ws c \<Longrightarrow> skip_ws (c # s) = c # s"
  by (simp add: skip_ws_def)

lemma json_quote_distinct [simp]:
  "json_quote \<noteq> CHR ''{''" "json_quote \<noteq> CHR ''}''" "CHR ''{'' \<noteq> json_quote" "CHR ''}'' \<noteq> json_quote"
  by (simp_all add: json_quote_def)

lemma not_ws [simp]: "\<not> is_ws json_quote" "\<not> is_ws CHR ''{''" "\<not> is_ws CHR ''}''" "\<not> is_ws CHR '':''" "\<not> is_ws CHR '',''"
  by (simp_all add: is_ws_def json_quote_def)

lemma reads_back_JStr: "0 < d \<Longrightarrow> reads_back d (in_quotes (escape s)) (JStr s)"
proof -
  have "parse_value (Suc f) (w @ in_quotes (escape s) @ r) = Some (JStr s, r)" if "list_all is_ws w" for f w r
    using that by (simp add: in_quotes_def parse_string_escape)
  then show "0 < d \<Longrightarrow> ?thesis" unfolding reads_back_def by (metis Suc_pred less_le_trans)
qed

lemma reads_back_JNum: "0 < d \<Longrightarrow> reads_back d (dec_digits n) (JNum n)"
proof -
  have "parse_value (Suc f) (w @ dec_digits n @ r) = Some (JNum n, r)" if "list_all is_ws w" "no_digit r" for f w r
  proof -
    obtain c t where ct: "dec_digits n = c # t" using dec_digits_nonempty by (cases "dec_digits n") auto
    then have c: "is_digit c" using dec_digits_is_digit [of n] by simp
    then have "\<not> is_ws c" "c \<noteq> json_quote" "c \<noteq> CHR ''{''" by (auto simp: is_digit_def is_ws_def json_quote_def)
    moreover have "takeWhile is_digit (dec_digits n @ r) = dec_digits n" "dropWhile is_digit (dec_digits n @ r) = r"
      using dec_digits_is_digit [of n] that(2) by (cases r; simp add: no_digit_def takeWhile_append2 dropWhile_append2)+
    ultimately show ?thesis using that(1) ct c by simp (metis read_dec_digits)
  qed
  then show "0 < d \<Longrightarrow> ?thesis" unfolding reads_back_def by (metis Suc_pred less_le_trans)
qed

text \<open>The members of an object: names, separators and values, with white space where the printer puts it.\<close>

lemma parse_members_join:
  assumes ws: "list_all is_ws ind" "list_all is_ws ws1" "list_all is_ws ws2" "list_all is_ws ws3"
    and "\<And>k v. (k, v) \<in> set kvs \<Longrightarrow> reads_back d (pv v) v"
    and "kvs \<noteq> []" "d + length kvs \<le> f"
  shows "list_all is_ws w \<Longrightarrow> parse_members f (w @
    join (CHR '','' # ws2) (map (\<lambda>(k, v). ind @ in_quotes (escape k) @ (CHR '':'' # ws1) @ pv v) kvs) @ ws3 @ CHR ''}'' # r) = Some (kvs, r)"
  using assms(5-7)
proof (induction kvs arbitrary: f w)
  case Nil
  then show ?case by simp
next
  case (Cons kv kvs)
  obtain k v where kv: "kv = (k, v)" by (cases kv)
  obtain f' where f: "f = Suc f'" "d + length kvs \<le> f'" using Cons.prems(4) by (cases f) auto
  have nd: "no_digit (ws3 @ CHR ''}'' # r)" "no_digit (CHR '','' # x)" for x
    using ws(4) by (cases ws3; auto simp: no_digit_def is_digit_def is_ws_def)+
  have val: "parse_value f' (ws1 @ pv v @ r') = Some (v, r')" if "no_digit r'" for r'
    using Cons.prems(2) [of k v] kv f(2) ws(2) that by (simp add: reads_back_def)
  show ?case
  proof (cases "kvs = []")
    case True
    then show ?thesis using Cons.prems(1) ws val [OF nd(1)] f by (simp add: kv in_quotes_def parse_string_escape)
  next
    case False
    then have j: "join s (x # map g kvs) = x @ s @ join s (map g kvs)" for s x and g :: "string \<times> json \<Rightarrow> string"
      by (cases kvs) simp_all
    have "parse_members f' (ws2 @ join (CHR '','' # ws2) (map (\<lambda>(k, v). ind @ in_quotes (escape k) @ (CHR '':'' # ws1) @ pv v) kvs)
        @ ws3 @ CHR ''}'' # r) = Some (kvs, r)"
      using False f(2) ws(3) Cons.prems(2) by (intro Cons.IH) auto
    then show ?thesis using Cons.prems(1) ws val [OF nd(2)] f
      by (simp add: j kv in_quotes_def parse_string_escape)
  qed
qed


lemma reads_back_tags:
  assumes "list_all is_ws ws1"
  shows "reads_back (length kvs + 3) (print_json (CHR '':'' # ws1) (JObj (map (\<lambda>(k, v). (k, JStr v)) kvs)))
    (JObj (map (\<lambda>(k, v). (k, JStr v)) kvs))"
proof -
  let ?kvs = "map (\<lambda>(k, v). (k, JStr v)) kvs"
  have step: "parse_value (Suc f) (w @ print_json (CHR '':'' # ws1) (JObj ?kvs) @ r) = Some (JObj ?kvs, r)"
    if w: "list_all is_ws w" and f: "length kvs + 1 < Suc f" for f w r
  proof (cases "kvs = []")
    case True
    with w show ?thesis by simp
  next
    case False
    then obtain k v t where t: "map (\<lambda>(k, v). in_quotes (escape k) @ (CHR '':'' # ws1) @ print_json (CHR '':'' # ws1) v) ?kvs =
        (json_quote # escape k @ json_quote # v) # t"
      by (cases kvs) (auto simp: in_quotes_def)
    then have "\<exists>x. join '','' (map (\<lambda>(k, v). in_quotes (escape k) @ (CHR '':'' # ws1) @ print_json (CHR '':'' # ws1) v) ?kvs) =
        json_quote # x"
      by (cases t) auto
    moreover have "parse_members f ([] @ join (CHR '','' # []) (map (\<lambda>(k, v). [] @ in_quotes (escape k) @ (CHR '':'' # ws1)
        @ print_json (CHR '':'' # ws1) v) ?kvs) @ [] @ CHR ''}'' # r) = Some (?kvs, r)"
      using False f assms by (intro parse_members_join [where d = 1]) (auto intro: reads_back_JStr)
    ultimately show ?thesis using w by auto
  qed
  show ?thesis
    unfolding reads_back_def
  proof (intro allI impI)
    fix f w r
    assume "length kvs + 3 \<le> f" "list_all is_ws w"
    then show "parse_value f (w @ print_json (CHR '':'' # ws1) (JObj ?kvs) @ r) = Some (JObj ?kvs, r)"
      using step [of w "f - 1" r] by (cases f) (simp_all del: parse_value.simps print_json.simps)
  qed
qed

text \<open>The pieces spell out the object: the unescaped fields contain nothing to escape.\<close>

definition plain_char :: "char \<Rightarrow> bool" where
  "plain_char c \<longleftrightarrow> escape_char c = [c]"

lemma escape_plain: "list_all plain_char s \<Longrightarrow> escape s = s"
  by (induction s) (simp_all add: escape_def plain_char_def)

lemma plain_digit: "is_digit c \<Longrightarrow> plain_char c"
proof -
  have "list_all plain_char ''0123456789''" by code_simp
  then show "is_digit c \<Longrightarrow> ?thesis" by (auto simp: is_digit_def)
qed

lemma plain_dec_digits: "list_all plain_char (dec_digits n)"
  using dec_digits_is_digit plain_digit by (auto simp: list_all_iff)

lemma plain_punct: "list_all plain_char ''-:. 0''"
  by code_simp

lemma plain_fmt: "list_all plain_char (fmt_0d w i)" "list_all plain_char (fmt_0u w n)"
  using plain_dec_digits plain_punct by (auto simp: fmt_0d_def fmt_0u_def pad0_def list_all_iff)

lemma plain_timestamp: "list_all plain_char (timestamp_text lt w)"
  using plain_fmt plain_punct
  by (simp add: timestamp_text_def date_text_def clock_text_def micros_text_def split: prod.split)

lemma plain_to_string: "list_all plain_char (to_string l)"
  by (cases l) (simp_all add: plain_char_def escape_char_def json_char_defs)

lemma escape_names:
  "escape ''ts'' = ''ts''" "escape ''level'' = ''level''" "escape ''file'' = ''file''" "escape ''line'' = ''line''"
  "escape ''func'' = ''func''" "escape ''tid'' = ''tid''" "escape ''pid'' = ''pid''" "escape ''thread'' = ''thread''"
  "escape ''seq'' = ''seq''" "escape ''tags'' = ''tags''" "escape ''msg'' = ''msg''"
  by code_simp+

lemma tag_pieces_text:
  assumes "wf_entry cfg e"
  shows "concat (map piece_text (concat (map (\<lambda>t. (if 0 < t then [Plain '',''] else []) @ tag_pieces pretty (tags e ! t))
      [0..<unat (tag_count e)]))) =
    join '','' (map (\<lambda>t. in_quotes (escape (c_str (tag_key t))) @ json_sep pretty @ in_quotes (escape (c_str (tag_value t))))
      (entry_tags e))"
proof -
  let ?tt = "\<lambda>t. in_quotes (escape (c_str (tag_key t))) @ json_sep pretty @ in_quotes (escape (c_str (tag_value t)))"
  have t: "concat (map piece_text (tag_pieces pretty t)) = ?tt t" for t
    by (simp add: tag_pieces_def quoted_pieces_def in_quotes_def)
  have "concat (map piece_text (concat (map (\<lambda>t. (if 0 < t then [Plain '',''] else []) @ tag_pieces pretty (tags e ! t)) xs))) =
    concat (map (\<lambda>i. (if 0 < i then '','' else []) @ ?tt (tags e ! i)) xs)" for xs
    by (induction xs) (simp_all add: t)
  moreover have "entry_tags e = map (\<lambda>i. tags e ! i) [0..<unat (tag_count e)]"
    using assms by (intro nth_equalityI) (auto simp: entry_tags_def wf_entry_def wf_entry_head_def)
  ultimately show ?thesis by (simp add: concat_join comp_def)
qed

lemma json_pieces_text:
  assumes "wf_entry cfg e"
  shows "concat (map piece_text (json_pieces lt pretty e)) = json_text lt pretty e"
  unfolding json_pieces_def Let_def map_append concat_append tag_pieces_text [OF assms]
  by (simp add: name_pieces_def quoted_pieces_def json_text_def entry_json_def escape_names comp_def
      escape_plain [OF plain_timestamp] escape_plain [OF plain_to_string] in_quotes_def)

lemma json_ws_is_ws:
  "list_all is_ws (json_nl p)" "list_all is_ws (json_ind p)"
  "json_sep p = CHR '':'' # (if p then '' '' else [])" "json_comma p = CHR '','' # (if p then [CHR 0x0A] else [])"
  "list_all is_ws (if p then '' '' else [])" "list_all is_ws (if p then [CHR 0x0A] else [])"
  by (simp_all add: json_nl_def json_ind_def json_sep_def json_comma_def is_ws_def)

lemma entry_json_reads_back:
  assumes "list_all is_ws ws1" "(k, v) \<in> set (entry_json lt e)"
  shows "reads_back (length (entry_tags e) + 3) (print_json (CHR '':'' # ws1) v) v"
proof (cases v)
  case (JStr s)
  then show ?thesis by (simp add: reads_back_JStr)
next
  case (JNum n)
  then show ?thesis by (simp add: reads_back_JNum)
next
  case (JObj kvs)
  with assms(2) have "v = JObj (map (\<lambda>(k, v). (k, JStr v)) (map tag_text (entry_tags e)))"
    by (auto simp: entry_json_def tag_text_def)
  then show ?thesis using reads_back_tags [OF assms(1), of "map tag_text (entry_tags e)"] by (simp only: length_map)
qed

lemma json_parse_text:
  assumes "15 + length (entry_tags e) \<le> f"
  shows "json_parse f (json_text lt pretty e) = Some (JObj (entry_json lt e))"
proof -
  let ?d = "length (entry_tags e) + 3"
  obtain ws1 ws2 where ws: "json_sep pretty = CHR '':'' # ws1" "json_comma pretty = CHR '','' # ws2"
    "list_all is_ws ws1" "list_all is_ws ws2"
    using json_ws_is_ws [of pretty] by blast
  let ?body = "join (CHR '','' # ws2)
    (map (\<lambda>(k, v). json_ind pretty @ in_quotes (escape k) @ (CHR '':'' # ws1) @ print_json (CHR '':'' # ws1) v) (entry_json lt e))"
  obtain f' where f: "f = Suc f'" "?d + length (entry_json lt e) \<le> f'"
    using assms by (cases f) (auto simp: entry_json_def)
  have "entry_json lt e \<noteq> []" by (simp add: entry_json_def)
  then have "parse_members f' (json_nl pretty @ ?body @ json_nl pretty @ CHR ''}'' # []) = Some (entry_json lt e, [])"
    by (intro parse_members_join [where d = ?d] json_ws_is_ws(1,2) ws(3,4) f(2)) (rule entry_json_reads_back [OF ws(3)])
  moreover have "take 1 (skip_ws (json_nl pretty @ ?body @ json_nl pretty @ CHR ''}'' # [])) \<noteq> ''}''"
    by (simp add: json_ws_is_ws entry_json_def in_quotes_def)
  ultimately show ?thesis by (simp add: json_parse_def json_text_def f(1) ws(1,2))
qed

lemma store_bytes_explicit:
  "p + length x \<le> length buf \<Longrightarrow> store_bytes buf p x = Some (take p buf @ x @ drop (p + length x) buf)"
proof (induction x arbitrary: buf p)
  case Nil
  then show ?case by simp
next
  case (Cons c x)
  then have "store_bytes (buf[p := c]) (p + 1) x = Some (take (p + 1) (buf[p := c]) @ x @ drop (p + 1 + length x) (buf[p := c]))"
    by (intro Cons.IH) simp
  with Cons.prems show ?case by (simp add: store_byte_def take_Suc_conv_app_nth)
qed

lemma EscapeJsonString_loop_explicit:
  "off + dst_size \<le> length buf \<Longrightarrow> pos \<le> dst_size \<Longrightarrow> m \<le> length src \<Longrightarrow>
   \<exists>j\<le>m. let x = escape (take j src) in
     EscapeJsonString_loop src m buf off dst_size pos =
       Some (take (off + pos) buf @ x @ drop (off + pos + length x) buf, pos + length x) \<and>
     pos + length x \<le> dst_size \<and> (j < m \<longrightarrow> dst_size < pos + length (escape (take (Suc j) src)))"
proof (induction src m buf off dst_size pos rule: EscapeJsonString_loop.induct)
  case (1 src buf off dst_size pos)
  then show ?case by (simp add: escape_def)
next
  case (2 m buf off dst_size pos)
  then show ?case by simp
next
  case (3 c src m buf off dst_size pos)
  let ?e = "escape_char c"
  show ?case
  proof (cases "pos + length ?e \<le> dst_size")
    case False
    with "3.prems" show ?thesis by (intro exI [of _ 0]) (simp add: escape_def)
  next
    case True
    then have lt: "\<not> dst_size \<le> pos" using escape_char_nonempty [of c] by linarith
    let ?b = "take (off + pos) buf @ ?e @ drop (off + pos + length ?e) buf"
    have b: "store_bytes buf (off + pos) ?e = Some ?b" using True "3.prems"(1) by (intro store_bytes_explicit) simp
    have "\<not> dst_size < pos + length ?e" using True by simp
    from "3.IH" [OF lt this b] True "3.prems" obtain j where j: "j \<le> m"
      "let x = escape (take j src) in EscapeJsonString_loop src m ?b off dst_size (pos + length ?e) =
         Some (take (off + (pos + length ?e)) ?b @ x @ drop (off + (pos + length ?e) + length x) ?b, pos + length ?e + length x) \<and>
       pos + length ?e + length x \<le> dst_size \<and> (j < m \<longrightarrow> dst_size < pos + length ?e + length (escape (take (Suc j) src)))"
      by auto
    with True lt b "3.prems" show ?thesis by (intro exI [of _ "Suc j"]) (simp add: Let_def escape_def ac_simps)
  qed
qed

lemma json_out_exact:
  assumes "wf_entry cfg e" and "length (json_text lt pretty e) < n"
  shows "json_out lt pretty e n = json_text lt pretty e"
  using add_pieces_exact [of "[]" "json_pieces lt pretty e" n] json_pieces_text [OF assms(1), of lt pretty] assms(2)
  by (simp add: json_out_def)

subsection \<open>Properties\<close>

text \<open>
  C22: formatting an entry as JSON is memory safe and exact. For every well-formed entry and every buffer size, zero
  included, \<open>Format\<close> returns, changes no byte beyond the size, terminates its output and returns its length, which
  is below the size. The pieces of the JSON object are stored in their order, each as far as it fits the room left:
  names, numbers and punctuation cut at any byte, escaped strings cut between two escape sequences. Uncut they are
  the object, which is what is stored when the buffer has room for it.
\<close>

theorem JsonFormatter_Format_correct:
  assumes "wf_entry cfg e" and "localtime_ok lt" and "length junk = 128" and "n \<le> length buf"
  shows "if n = 0 then JsonFormatter_Format lt junk pretty e buf n = Some (buf, 0)
    else \<exists>buf' k. JsonFormatter_Format lt junk pretty e buf n = Some (buf', k) \<and> k < n \<and> buf' ! k = NUL \<and>
      length buf' = length buf \<and> drop n buf' = drop n buf \<and>
      take k buf' = fold (\<lambda>p s. s @ piece_fit (n - 1 - length s) p) (json_pieces lt pretty e) [] \<and>
      concat (map piece_text (json_pieces lt pretty e)) = json_text lt pretty e \<and>
      (length (json_text lt pretty e) < n \<longrightarrow> take k buf' = json_text lt pretty e)"
proof (cases "n = 0")
  case True
  then show ?thesis by (simp add: JsonFormatter_Format_def)
next
  case False
  then obtain buf' where "JsonFormatter_Format lt junk pretty e buf n = Some (buf', length (json_out lt pretty e n))"
    and h: "holds_text n buf (json_out lt pretty e n) buf'"
    using json_fmt.fmt_some [of cfg e lt junk n buf pretty] assms by blast
  moreover have "json_out lt pretty e n = fold (\<lambda>p s. s @ piece_fit (n - 1 - length s) p) (json_pieces lt pretty e) []"
    by (simp add: json_out_def add_pieces_def add_piece_def [abs_def])
  ultimately show ?thesis using False json_out_exact [OF assms(1)] json_pieces_text [OF assms(1), of lt pretty]
    by (auto simp: holds_text_def)
qed

text \<open>A buffer of 20 bytes cuts the time stamp.\<close>

lemma zero_entry_cut:
  "fold (\<lambda>p s. s @ piece_fit (20 - 1 - length s) p) (json_pieces (\<lambda>_. None) False (zero_entry (platform_config False))) [] =
   ''{'' @ in_quotes ''ts'' @ '':'' @ [json_quote] @ ''1900-01-00 0''"
  by code_simp

theorem JsonFormatter_Format_correct_witness:
  "\<exists>buf' k. JsonFormatter_Format (\<lambda>_. None) (replicate 128 NUL) False (zero_entry (platform_config False))
      (replicate 64 NUL) 20 = Some (buf', k) \<and> buf' ! k = NUL \<and>
     take k buf' = ''{'' @ in_quotes ''ts'' @ '':'' @ [json_quote] @ ''1900-01-00 0''"
  using JsonFormatter_Format_correct [of "platform_config False" "zero_entry (platform_config False)" "\<lambda>_. None"
      "replicate 128 NUL" 20 "replicate 64 NUL" False] wf_zero_entry [OF valid_platform_config, of False]
  unfolding zero_entry_cut by (auto simp: localtime_ok_def)

text \<open>
  C17: no entry can break the object it is printed in. As soon as the buffer has room for the whole object, reading
  what \<open>Format\<close> stored with a JSON parser gives back every field that \<open>Format\<close> prints: the formatted time, level, file,
  line, function, thread and process, thread name, sequence number, tags and message, whatever bytes the strings
  contain, in the compact and in the pretty layout. (\<open>Format\<close> prints no \<open>file_path\<close>, \<open>pretty_function\<close>, \<open>column\<close> and
  \<open>timestamp_ns\<close>.)
\<close>

theorem json_round_trip:
  assumes "wf_entry cfg e" and "localtime_ok lt" and "length junk = 128" and "length (json_text lt pretty e) < n" and "n \<le> length buf"
  shows "\<exists>buf' k. JsonFormatter_Format lt junk pretty e buf n = Some (buf', k) \<and>
    json_parse (15 + unat (tag_count e)) (take k buf') = Some (JObj (entry_json lt e))"
proof -
  have "json_parse (15 + unat (tag_count e)) (json_text lt pretty e) = Some (JObj (entry_json lt e))"
    using assms(1) by (intro json_parse_text) (simp add: entry_tags_def)
  moreover have "0 < n" using assms(4) by simp
  ultimately show ?thesis
    using json_fmt.fmt_some [of cfg e lt junk n buf pretty] json_out_exact [OF assms(1,4)] assms by (auto simp: holds_text_def)
qed

lemma zero_entry_json_length: "length (json_text (\<lambda>_. None) True (zero_entry (platform_config False))) < 2048"
  by code_simp

theorem json_round_trip_witness:
  "\<exists>buf' k. JsonFormatter_Format (\<lambda>_. None) (replicate 128 NUL) True (zero_entry (platform_config False)) (replicate 2048 NUL) 2048 = Some (buf', k) \<and>
    json_parse 15 (take k buf') = Some (JObj (entry_json (\<lambda>_. None) (zero_entry (platform_config False))))"
  using json_round_trip [OF wf_zero_entry [OF valid_platform_config], of "\<lambda>_. None" "replicate 128 NUL" True False 2048 "replicate 2048 NUL"]
    zero_entry_json_length
  by (simp add: localtime_ok_def) (simp add: zero_entry_def)

text \<open>
  The escaping loop. Whatever room it has, it stores whole escape sequences only, the sequences of the
  longest prefix of the source that fits, stays inside its destination and returns the length it stored; a
  string parser reads that prefix back.
\<close>

lemma EscapeJsonString_correct:
  assumes "off + dst_size \<le> length buf" and "len \<le> length src"
  shows "\<exists>buf' k m. EscapeJsonString src len buf off dst_size = Some (buf', k) \<and> k \<le> dst_size \<and> m \<le> len \<and>
    buf' = take off buf @ escape (take m src) @ drop (off + k) buf \<and> k = length (escape (take m src)) \<and>
    (m < len \<longrightarrow> dst_size < length (escape (take (Suc m) src))) \<and>
    parse_string (escape (take m src) @ [json_quote]) = Some (take m src, [])"
proof (cases "dst_size = 0")
  case True
  show ?thesis
  proof (cases "len = 0")
    case True
    with \<open>dst_size = 0\<close> assms show ?thesis by (simp add: EscapeJsonString_def escape_def json_quote_def)
  next
    case False
    then obtain c src' where "src = c # src'" using assms(2) by (cases src) auto
    with \<open>dst_size = 0\<close> assms False escape_char_nonempty [of c] show ?thesis
      by (intro exI [of _ buf] exI [of _ 0]) (simp add: EscapeJsonString_def escape_def json_quote_def)
  qed
next
  case False
  with EscapeJsonString_loop_explicit [of off dst_size buf 0 len src] assms obtain j where "j \<le> len"
    "let x = escape (take j src) in EscapeJsonString src len buf off dst_size =
       Some (take off buf @ x @ drop (off + length x) buf, length x) \<and>
     length x \<le> dst_size \<and> (j < len \<longrightarrow> dst_size < length (escape (take (Suc j) src)))"
    by (auto simp: EscapeJsonString_def)
  then show ?thesis using parse_string_escape [of "take j src" "[]"] by (auto simp: Let_def)
qed

lemma EscapeJsonString_correct_witness:
  "\<exists>buf' m. EscapeJsonString ''ab'' 2 (replicate 9 NUL) 3 6 = Some (buf', length (escape (take m ''ab''))) \<and>
     buf' = replicate 3 NUL @ escape (take m ''ab'') @ drop (3 + length (escape (take m ''ab''))) (replicate 9 NUL)"
  using EscapeJsonString_correct [of 3 6 "replicate 9 NUL" 2 "''ab''"] by auto

end
