(* ===== verification/Log_Context.thy ===== *)
theory Log_Context
  imports Log_Entry Fixed_Vector "HOL-Library.Multiset"
begin

text \<open>
  The logging context (\<open>log_context.hpp\<close>, \<open>log_context.cpp\<close>): the process-wide tags and names in
  the record \<open>LogContext\<close>, the thread-local tags, name and cached thread id in the record \<open>Tls\<close>, one
  value per thread. Operations on the global tags run under the context's mutex and are atomic steps on the
  record. The thread and process ids the system reports are arguments. \<open>ctx_tags\<close> and \<open>tls_texts\<close> are
  the abstract views: the keys and values as texts, in order.
\<close>

subsection \<open>State\<close>

record LogContext =
  global_tags :: "LogTag FixedVector"
  process_name :: bytes
  app_version :: bytes

record Tls =
  tls_tags :: "LogTag FixedVector"
  tls_thread_name :: bytes
  tls_thread_id :: u32
  tls_thread_id_cached :: bool

definition LogContext_init :: "config \<Rightarrow> LogContext" where
  "LogContext_init cfg =
     \<lparr>global_tags = fv_init (replicate 16 (zero_tag cfg)),
      process_name = replicate 64 NUL, app_version = replicate 32 NUL\<rparr>"

definition Tls_init :: "config \<Rightarrow> Tls" where
  "Tls_init cfg =
     \<lparr>tls_tags = fv_init (replicate (BR_LOG_MAX_TAGS cfg) (zero_tag cfg)),
      tls_thread_name = replicate 32 NUL, tls_thread_id = 0, tls_thread_id_cached = False\<rparr>"

subsection \<open>Operations\<close>

text \<open>\<open>strncpy(dst, src, n - 1); dst[n - 1] = '\0'\<close> for an array of \<open>n\<close> bytes.\<close>

definition copy_str :: "bytes \<Rightarrow> bytes \<Rightarrow> nat \<Rightarrow> bytes option" where
  "copy_str dst src n = do { dst' \<leftarrow> strncpy dst src (n - 1); store_byte dst' (n - 1) NUL }"

text \<open>The search loops: the first index of the given order whose key equals \<open>key\<close>.\<close>

fun find_key :: "config \<Rightarrow> LogTag FixedVector \<Rightarrow> bytes \<Rightarrow> nat list \<Rightarrow> nat option option" where
  "find_key cfg v key [] = Some None"
| "find_key cfg v key (i # is) =
     do { t \<leftarrow> fv_get v i;
          eq \<leftarrow> strncmp_eq (tag_key t) key (BR_LOG_MAX_TAG_KEY_LEN cfg);
          if eq then Some (Some i) else find_key cfg v key is }"

definition make_tag :: "config \<Rightarrow> bytes \<Rightarrow> bytes \<Rightarrow> LogTag option" where
  "make_tag cfg key val =
     do { k \<leftarrow> copy_str (tag_key (zero_tag cfg)) key (BR_LOG_MAX_TAG_KEY_LEN cfg);
          v \<leftarrow> copy_str (tag_value (zero_tag cfg)) val (BR_LOG_MAX_TAG_VAL_LEN cfg);
          Some \<lparr>tag_key = k, tag_value = v\<rparr> }"

definition SetGlobalTag :: "config \<Rightarrow> c_ptr \<Rightarrow> c_ptr \<Rightarrow> LogContext \<Rightarrow> LogContext option" where
  "SetGlobalTag cfg key val c = (case (key, val) of
     (Some k, Some v) \<Rightarrow>
       do { hit \<leftarrow> find_key cfg (global_tags c) k [0..<Size (global_tags c)];
            (case hit of
               Some i \<Rightarrow>
                 do { t \<leftarrow> fv_get (global_tags c) i;
                      v' \<leftarrow> copy_str (tag_value t) v (BR_LOG_MAX_TAG_VAL_LEN cfg);
                      g \<leftarrow> fv_set (global_tags c) i (t\<lparr>tag_value := v'\<rparr>);
                      Some (c\<lparr>global_tags := g\<rparr>) }
             | None \<Rightarrow>
                 do { t \<leftarrow> make_tag cfg k v;
                      Some (c\<lparr>global_tags := snd (PushBack (global_tags c) t)\<rparr>) }) }
   | _ \<Rightarrow> Some c)"

text \<open>The last element moves into the gap.\<close>

definition swap_remove :: "LogTag FixedVector \<Rightarrow> nat \<Rightarrow> LogTag FixedVector option" where
  "swap_remove v i = (let last = Size v - 1 in
     do { v' \<leftarrow> (if i \<noteq> last then do { t \<leftarrow> fv_get v last; fv_set v i t } else Some v);
          Some (snd (PopBack v')) })"

definition RemoveGlobalTag :: "config \<Rightarrow> c_ptr \<Rightarrow> LogContext \<Rightarrow> LogContext option" where
  "RemoveGlobalTag cfg key c = (case key of
     None \<Rightarrow> Some c
   | Some k \<Rightarrow>
       do { hit \<leftarrow> find_key cfg (global_tags c) k [0..<Size (global_tags c)];
            (case hit of
               None \<Rightarrow> Some c
             | Some i \<Rightarrow> do { g \<leftarrow> swap_remove (global_tags c) i; Some (c\<lparr>global_tags := g\<rparr>) }) })"

definition SetProcessName :: "c_ptr \<Rightarrow> LogContext \<Rightarrow> LogContext option" where
  "SetProcessName name c = (case name of
     None \<Rightarrow> Some c
   | Some s \<Rightarrow> do { b \<leftarrow> copy_str (process_name c) s 64; Some (c\<lparr>process_name := b\<rparr>) })"

definition SetAppVersion :: "c_ptr \<Rightarrow> LogContext \<Rightarrow> LogContext option" where
  "SetAppVersion version c = (case version of
     None \<Rightarrow> Some c
   | Some s \<Rightarrow> do { b \<leftarrow> copy_str (app_version c) s 32; Some (c\<lparr>app_version := b\<rparr>) })"

definition SetThreadName :: "c_ptr \<Rightarrow> Tls \<Rightarrow> Tls option" where
  "SetThreadName name s = (case name of
     None \<Rightarrow> Some s
   | Some n \<Rightarrow> do { b \<leftarrow> copy_str (tls_thread_name s) n 32; Some (s\<lparr>tls_thread_name := b\<rparr>) })"

definition GetThreadName :: "Tls \<Rightarrow> bytes" where
  "GetThreadName s = tls_thread_name s"

definition GetThreadId :: "u64 \<Rightarrow> Tls \<Rightarrow> u32 \<times> Tls" where
  "GetThreadId os_tid s =
     (let s' = (if \<not> tls_thread_id_cached s
                then s\<lparr>tls_thread_id := ucast os_tid, tls_thread_id_cached := True\<rparr> else s)
      in (tls_thread_id s', s'))"

definition PushScopedTag :: "config \<Rightarrow> c_ptr \<Rightarrow> c_ptr \<Rightarrow> Tls \<Rightarrow> Tls option" where
  "PushScopedTag cfg key val s = (case (key, val) of
     (Some k, Some v) \<Rightarrow>
       do { t \<leftarrow> make_tag cfg k v; Some (s\<lparr>tls_tags := snd (PushBack (tls_tags s) t)\<rparr>) }
   | _ \<Rightarrow> Some s)"

definition PopScopedTag :: "config \<Rightarrow> c_ptr \<Rightarrow> Tls \<Rightarrow> Tls option" where
  "PopScopedTag cfg key s = (case key of
     None \<Rightarrow> Some s
   | Some k \<Rightarrow>
       if Empty (tls_tags s) then Some s
       else do { hit \<leftarrow> find_key cfg (tls_tags s) k (rev [0..<Size (tls_tags s)]);
                 (case hit of
                    None \<Rightarrow> Some s
                  | Some i \<Rightarrow> do { g \<leftarrow> swap_remove (tls_tags s) i; Some (s\<lparr>tls_tags := g\<rparr>) }) })"

text \<open>One of the two loops of \<open>FillTags\<close>: the tags still to copy, the count, the entry's array.\<close>

fun FillTags_loop :: "config \<Rightarrow> LogTag list \<Rightarrow> nat \<Rightarrow> LogTag list \<Rightarrow> (nat \<times> LogTag list) option" where
  "FillTags_loop cfg [] cnt arr = Some (cnt, arr)"
| "FillTags_loop cfg (t # ts) cnt arr =
     (if cnt \<ge> BR_LOG_MAX_TAGS cfg then Some (cnt, arr)
      else if cnt < length arr then FillTags_loop cfg ts (cnt + 1) (arr[cnt := t]) else None)"

definition FillTags :: "config \<Rightarrow> LogContext \<Rightarrow> Tls \<Rightarrow> LogEntry \<Rightarrow> LogEntry option" where
  "FillTags cfg c s e =
     do { (cnt1, arr1) \<leftarrow> FillTags_loop cfg (fv_list (global_tags c)) 0 (tags e);
          (cnt2, arr2) \<leftarrow> FillTags_loop cfg (fv_list (tls_tags s)) cnt1 arr1;
          Some (e\<lparr>tags := arr2, tag_count := of_nat cnt2\<rparr>) }"

definition FillThreadInfo :: "u32 \<Rightarrow> u64 \<Rightarrow> Tls \<Rightarrow> LogEntry \<Rightarrow> (LogEntry \<times> Tls) option" where
  "FillThreadInfo pid os_tid s e = (let (tid, s') = GetThreadId os_tid s in
     do { b \<leftarrow> memcpy (thread_name e) 0 (tls_thread_name s') 32;
          Some (e\<lparr>process_id := pid, thread_id := tid, thread_name := b\<rparr>, s') })"

subsection \<open>Invariants and abstract views\<close>

definition tags_wf :: "config \<Rightarrow> nat \<Rightarrow> LogTag FixedVector \<Rightarrow> bool" where
  "tags_wf cfg cap v \<longleftrightarrow> fv_wf cap v \<and> list_all (wf_tag cfg) (fv_list v)"

definition ctx_wf :: "config \<Rightarrow> LogContext \<Rightarrow> bool" where
  "ctx_wf cfg c \<longleftrightarrow> tags_wf cfg 16 (global_tags c) \<and>
     length (process_name c) = 64 \<and> terminated (process_name c) \<and>
     length (app_version c) = 32 \<and> terminated (app_version c)"

definition tls_wf :: "config \<Rightarrow> Tls \<Rightarrow> bool" where
  "tls_wf cfg s \<longleftrightarrow> tags_wf cfg (BR_LOG_MAX_TAGS cfg) (tls_tags s) \<and>
     length (tls_thread_name s) = 32 \<and> terminated (tls_thread_name s)"

definition tag_texts :: "LogTag FixedVector \<Rightarrow> (string \<times> string) list" where
  "tag_texts v = map tag_text (fv_list v)"

definition ctx_tags :: "LogContext \<Rightarrow> (string \<times> string) list" where
  "ctx_tags c = tag_texts (global_tags c)"

definition tls_texts :: "Tls \<Rightarrow> (string \<times> string) list" where
  "tls_texts s = tag_texts (tls_tags s)"

text \<open>What is left of a key or a value in its array.\<close>

definition stored_key :: "config \<Rightarrow> bytes \<Rightarrow> string" where
  "stored_key cfg k = take (BR_LOG_MAX_TAG_KEY_LEN cfg - 1) (c_str k)"

definition stored_value :: "config \<Rightarrow> bytes \<Rightarrow> string" where
  "stored_value cfg v = take (BR_LOG_MAX_TAG_VAL_LEN cfg - 1) (c_str v)"

subsection \<open>Bounded copies and key comparison\<close>

lemma copy_str_ok:
  assumes "0 < n" "length dst = n" "terminated src"
  shows "\<exists>b. copy_str dst src n = Some b \<and> length b = n \<and> terminated b \<and> c_str b = take (n - 1) (c_str src)"
proof -
  let ?s = "take (n - 1) (c_str src)"
  let ?b = "?s @ replicate (n - length ?s) NUL"
  have l: "length ?s < n" using assms(1) by simp
  have "drop (n - 1) dst = [dst ! (n - 1)]" using assms(1,2) by (metis Cons_nth_drop_Suc Suc_diff_1 drop_all le_refl lessI)
  then have "copy_str dst src n = Some ((?s @ replicate (n - 1 - length ?s) NUL @ [dst ! (n - 1)])[n - 1 := NUL])"
    using assms by (simp add: copy_str_def strncpy_def terminated_def c_str_def store_byte_def Let_def)
  moreover have "(?s @ replicate (n - 1 - length ?s) NUL @ [dst ! (n - 1)])[n - 1 := NUL] = ?b"
    using l assms(1) by (simp add: list_update_append replicate_append_same Suc_diff_Suc [symmetric])
  ultimately have b: "copy_str dst src n = Some ?b" by simp
  obtain m where "n - length ?s = Suc m" using l by (metis Suc_diff_Suc)
  moreover have "NUL \<notin> set ?s" by (auto dest: in_set_takeD)
  ultimately have "c_str ?b = ?s" "terminated ?b" by (auto simp: terminated_def)
  with b show ?thesis using l by simp
qed

lemma strncmp_eq_iff:
  "NUL \<in> set (take n a) \<Longrightarrow> terminated b \<Longrightarrow> strncmp_eq a b n = Some (c_str a = c_str b)"
proof (induction a b n rule: strncmp_eq.induct)
  case (2 x xs y ys n)
  then show ?case by (auto simp: c_str_Cons)
qed (auto simp: terminated_def)

lemma wf_tag_key_eq:
  "wf_tag cfg t \<Longrightarrow> terminated k \<Longrightarrow>
   strncmp_eq (tag_key t) k (BR_LOG_MAX_TAG_KEY_LEN cfg) = Some (fst (tag_text t) = c_str k)"
  by (subst strncmp_eq_iff) (auto simp: wf_tag_def terminated_def tag_text_def)

lemma tags_wf_get:
  "tags_wf cfg cap v \<Longrightarrow> i < length (fv_list v) \<Longrightarrow> fv_get v i = Some (fv_list v ! i) \<and> wf_tag cfg (fv_list v ! i)"
  using fv.get_ok [of cap v i] by (simp add: tags_wf_def list_all_length)

lemma find_key_eq:
  assumes "tags_wf cfg cap v" "terminated k"
  shows "set is \<subseteq> {..<length (fv_list v)} \<Longrightarrow>
    find_key cfg v k is = Some (find (\<lambda>i. fst (tag_texts v ! i) = c_str k) is)"
proof (induction "is")
  case Nil
  then show ?case by simp
next
  case (Cons i "is")
  with tags_wf_get [OF assms(1), of i] assms(2) show ?case
    by (auto simp: wf_tag_key_eq tag_texts_def)
qed

lemma make_tag_ok:
  assumes "valid_config cfg" "terminated k" "terminated v"
  shows "\<exists>t. make_tag cfg k v = Some t \<and> wf_tag cfg t \<and> tag_text t = (stored_key cfg k, stored_value cfg v)"
proof -
  obtain a where "copy_str (tag_key (zero_tag cfg)) k (BR_LOG_MAX_TAG_KEY_LEN cfg) = Some a" and
    "length a = BR_LOG_MAX_TAG_KEY_LEN cfg" "terminated a" "c_str a = stored_key cfg k"
    using copy_str_ok [of "BR_LOG_MAX_TAG_KEY_LEN cfg" "tag_key (zero_tag cfg)" k] assms valid_configD [OF assms(1)]
    by (auto simp: zero_tag_def stored_key_def)
  moreover obtain b where "copy_str (tag_value (zero_tag cfg)) v (BR_LOG_MAX_TAG_VAL_LEN cfg) = Some b" and
    "length b = BR_LOG_MAX_TAG_VAL_LEN cfg" "terminated b" "c_str b = stored_value cfg v"
    using copy_str_ok [of "BR_LOG_MAX_TAG_VAL_LEN cfg" "tag_value (zero_tag cfg)" v] assms valid_configD [OF assms(1)]
    by (auto simp: zero_tag_def stored_value_def)
  ultimately show ?thesis by (simp add: make_tag_def wf_tag_def tag_text_def)
qed

text \<open>Adding a tag: at the end when there is room, otherwise nothing.\<close>

lemma PushBack_tag:
  assumes "tags_wf cfg cap v" "wf_tag cfg t"
  shows "tags_wf cfg cap (snd (PushBack v t))"
    and "tag_texts (snd (PushBack v t)) = (if length (tag_texts v) < cap then tag_texts v @ [tag_text t] else tag_texts v)"
  using assms fv.push_elems(1,2) [of cap v t] by (auto simp: tags_wf_def tag_texts_def)

text \<open>Removing the tag at an index.\<close>

definition swap_remove_list :: "'a list \<Rightarrow> nat \<Rightarrow> 'a list" where
  "swap_remove_list xs i = butlast (xs[i := last xs])"

lemma swap_remove_ok:
  assumes "tags_wf cfg cap v" "i < length (fv_list v)"
  shows "\<exists>v'. swap_remove v i = Some v' \<and> tags_wf cfg cap v' \<and> tag_texts v' = swap_remove_list (tag_texts v) i"
proof -
  let ?xs = "fv_list v"
  have wf: "fv_wf cap v" and all: "list_all (wf_tag cfg) ?xs" using assms(1) by (auto simp: tags_wf_def)
  have ne: "?xs \<noteq> []" using assms(2) by auto
  have last: "fv_get v (Size v - 1) = Some (last ?xs)" "wf_tag cfg (last ?xs)"
    using tags_wf_get [OF assms(1), of "Size v - 1"] ne fv_wf_Size [OF wf]
    by (auto simp: last_conv_nth)
  obtain v1 where v1: "(if i \<noteq> Size v - 1 then do { t \<leftarrow> fv_get v (Size v - 1); fv_set v i t } else Some v) = Some v1"
    "fv_wf cap v1" "fv_list v1 = ?xs[i := last ?xs]"
  proof (cases "i = Size v - 1")
    case True
    have "?xs[i := last ?xs] = ?xs" using True ne fv_wf_Size [OF wf] by (auto simp: last_conv_nth)
    with True wf show ?thesis by (intro that [of v]) simp_all
  next
    case False
    with fv.set_ok [OF wf assms(2), of "last ?xs"] last(1) show ?thesis by (auto intro: that)
  qed
  have "list_all (wf_tag cfg) (?xs[i := last ?xs])"
    using all last(2) by (auto simp: list_all_iff dest!: set_update_subset_insert [THEN subsetD])
  moreover have "list_all P (butlast ys)" if "list_all P ys" for P :: "LogTag \<Rightarrow> bool" and ys
    using that by (auto simp: list_all_iff dest: in_set_butlastD)
  ultimately have "tags_wf cfg cap (snd (PopBack v1))"
    using fv.pop_elems [OF v1(2)] v1(3) by (simp add: tags_wf_def)
  moreover have "tag_texts (snd (PopBack v1)) = swap_remove_list (tag_texts v) i"
    using fv.pop_elems(2) [OF v1(2)] v1(3) assms(2)
    by (cases "?xs = []") (auto simp: tag_texts_def swap_remove_list_def map_butlast map_update last_map)
  moreover have "swap_remove v i = Some (snd (PopBack v1))"
    unfolding swap_remove_def Let_def v1(1) by simp
  ultimately show ?thesis by blast
qed

lemma swap_remove_list_mset:
  assumes "i < length xs"
  shows "mset (swap_remove_list xs i) = mset xs - {#xs ! i#}"
proof -
  let ?ys = "xs[i := last xs]"
  have "xs \<noteq> []" using assms by auto
  then have "?ys \<noteq> []" "last ?ys = last xs" by (auto simp: last_list_update)
  then have "mset ?ys = add_mset (last xs) (mset (butlast ?ys))"
    by (metis append_butlast_last_id mset.simps(2) mset_append union_mset_add_mset_right add_mset_add_single mset_single_iff_right union_commute)
  moreover have "mset ?ys = add_mset (last xs) (mset xs - {#xs ! i#})" using assms by (rule mset_update)
  ultimately show ?thesis by (simp add: swap_remove_list_def)
qed

text \<open>The first index with a given key, and the map the list stands for.\<close>

lemma find_first:
  "find (\<lambda>i. fst (ts ! i) = k) [0..<length ts] = Some i \<Longrightarrow> i < length ts \<and> fst (ts ! i) = k \<and> (\<forall>j<i. fst (ts ! j) \<noteq> k)"
  by (auto simp: find_Some_iff)

lemma find_none:
  "find (\<lambda>i. fst (ts ! i) = k) [0..<length ts] = None \<longleftrightarrow> k \<notin> fst ` set ts"
  by (force simp: find_None_iff in_set_conv_nth)

lemma map_of_update_first:
  "i < length ts \<Longrightarrow> fst (ts ! i) = k \<Longrightarrow> \<forall>j<i. fst (ts ! j) \<noteq> k \<Longrightarrow> map_of (ts[i := (k, v)]) = (map_of ts)(k \<mapsto> v)"
proof (induction ts arbitrary: i)
  case Nil
  then show ?case by simp
next
  case (Cons t ts)
  show ?case
  proof (cases i)
    case 0
    with Cons.prems show ?thesis by (cases t) (auto simp: fun_eq_iff)
  next
    case (Suc j)
    with Cons.prems have "fst t \<noteq> k" "\<forall>l<j. fst (ts ! l) \<noteq> k" by (auto simp: nth_Cons split: nat.splits)
    with Cons.IH [of j] Cons.prems Suc show ?thesis by (cases t) (auto simp: fun_eq_iff)
  qed
qed

lemma map_of_swap_remove:
  assumes "i < length ts" "fst (ts ! i) = k" "distinct (map fst ts)"
  shows "map_of (swap_remove_list ts i) = (map_of ts)(k := None)" "distinct (map fst (swap_remove_list ts i))"
proof -
  let ?rs = "swap_remove_list ts i"
  have m: "mset ts = add_mset (ts ! i) (mset ?rs)" using assms(1) by (simp add: swap_remove_list_mset)
  then have f: "mset (map fst ts) = add_mset k (mset (map fst ?rs))" using assms(2) by simp
  have "distinct (k # map fst ?rs)" using assms(3) f by (metis mset.simps(2) mset_eq_imp_distinct_iff)
  then show d: "distinct (map fst ?rs)" by simp
  have "set ts = insert (ts ! i) (set ?rs)" using arg_cong [OF m, of set_mset] by simp
  moreover have "(k', v) \<noteq> ts ! i" if "k' \<noteq> k" for k' v using that assms(2) by (metis fst_conv)
  ultimately have "map_of ?rs k' = map_of ts k'" if "k' \<noteq> k" for k'
    using that map_of_eq_Some_iff [OF d, of k'] map_of_eq_Some_iff [OF assms(3), of k']
    by (metis insert_iff not_Some_eq)
  moreover have "map_of ?rs k = None" using \<open>distinct (k # map fst ?rs)\<close> by (simp add: map_of_eq_None_iff)
  ultimately show "map_of ?rs = (map_of ts)(k := None)" by (auto simp: fun_eq_iff)
qed

subsection \<open>Every operation keeps the invariants\<close>

lemma ctx_wf_tags: "ctx_wf cfg c \<Longrightarrow> tags_wf cfg cap (global_tags c) \<longleftrightarrow> cap = 16"
  by (auto simp: ctx_wf_def tags_wf_def fv_wf_def)

lemma Size_texts: "tags_wf cfg cap v \<Longrightarrow> Size v = length (tag_texts v)"
  by (auto simp: tags_wf_def tag_texts_def dest: fv_wf_Size)

lemma find_key_global:
  assumes "tags_wf cfg cap v" "terminated k"
  shows "find_key cfg v k [0..<Size v] = Some (find (\<lambda>i. fst (tag_texts v ! i) = c_str k) [0..<length (tag_texts v)])"
  using find_key_eq [OF assms, of "[0..<Size v]"] Size_texts [OF assms(1)]
  by (simp add: tag_texts_def atLeast0LessThan)

text \<open>What setting a tag does to the texts.\<close>

definition set_tag_text :: "nat \<Rightarrow> string \<Rightarrow> string \<Rightarrow> string \<Rightarrow> (string \<times> string) list \<Rightarrow> (string \<times> string) list" where
  "set_tag_text cap k sk v ts = (case find (\<lambda>i. fst (ts ! i) = k) [0..<length ts] of
     Some i \<Rightarrow> ts[i := (k, v)]
   | None \<Rightarrow> if length ts < cap then ts @ [(sk, v)] else ts)"

lemma SetGlobalTag_ok:
  assumes "valid_config cfg" "ctx_wf cfg c" "terminated k" "terminated v"
  shows "\<exists>c'. SetGlobalTag cfg (Some k) (Some v) c = Some c' \<and> ctx_wf cfg c' \<and>
    process_name c' = process_name c \<and> app_version c' = app_version c \<and>
    ctx_tags c' = set_tag_text 16 (c_str k) (stored_key cfg k) (stored_value cfg v) (ctx_tags c)"
proof -
  let ?g = "global_tags c"
  have wf: "tags_wf cfg 16 ?g" using assms(2) by (simp add: ctx_wf_def)
  show ?thesis
  proof (cases "find (\<lambda>i. fst (tag_texts ?g ! i) = c_str k) [0..<length (tag_texts ?g)]")
    case None
    obtain t where "make_tag cfg k v = Some t" "wf_tag cfg t" "tag_text t = (stored_key cfg k, stored_value cfg v)"
      using make_tag_ok [OF assms(1,3,4)] by blast
    with None PushBack_tag [OF wf, of t] find_key_global [OF wf assms(3)] assms(2) show ?thesis
      by (simp add: SetGlobalTag_def ctx_wf_def ctx_tags_def set_tag_text_def)
  next
    case (Some i)
    then have i: "i < length (fv_list ?g)" "fst (tag_text (fv_list ?g ! i)) = c_str k"
      using find_first [OF Some] by (auto simp: tag_texts_def)
    let ?t = "fv_list ?g ! i"
    have t: "fv_get ?g i = Some ?t" "wf_tag cfg ?t" using tags_wf_get [OF wf i(1)] by auto
    obtain b where b: "copy_str (tag_value ?t) v (BR_LOG_MAX_TAG_VAL_LEN cfg) = Some b"
      "length b = BR_LOG_MAX_TAG_VAL_LEN cfg" "terminated b" "c_str b = stored_value cfg v"
      using copy_str_ok [of "BR_LOG_MAX_TAG_VAL_LEN cfg" "tag_value ?t" v] assms(4) t(2) valid_configD [OF assms(1)]
      by (auto simp: wf_tag_def stored_value_def)
    obtain g where g: "fv_set ?g i (?t\<lparr>tag_value := b\<rparr>) = Some g" "fv_wf 16 g"
      "fv_list g = (fv_list ?g)[i := ?t\<lparr>tag_value := b\<rparr>]"
      using fv.set_ok [of 16 ?g i] wf i(1) by (auto simp: tags_wf_def)
    have "tags_wf cfg 16 g"
      using g wf t(2) b i(1) by (auto simp: tags_wf_def list_all_length nth_list_update wf_tag_def)
    moreover have "tag_texts g = (tag_texts ?g)[i := (c_str k, stored_value cfg v)]"
      using g(3) b(4) i by (simp add: tag_texts_def map_update tag_text_def)
    ultimately show ?thesis using Some find_key_global [OF wf assms(3)] t b g assms(2)
      by (simp add: SetGlobalTag_def ctx_wf_def ctx_tags_def set_tag_text_def)
  qed
qed

lemma RemoveGlobalTag_ok:
  assumes "ctx_wf cfg c" "terminated k"
  shows "\<exists>c'. RemoveGlobalTag cfg (Some k) c = Some c' \<and> ctx_wf cfg c' \<and>
    ctx_tags c' = (case find (\<lambda>i. fst (ctx_tags c ! i) = c_str k) [0..<length (ctx_tags c)] of
      None \<Rightarrow> ctx_tags c | Some i \<Rightarrow> swap_remove_list (ctx_tags c) i)"
proof -
  have wf: "tags_wf cfg 16 (global_tags c)" using assms(1) by (simp add: ctx_wf_def)
  show ?thesis
  proof (cases "find (\<lambda>i. fst (ctx_tags c ! i) = c_str k) [0..<length (ctx_tags c)]")
    case None
    with find_key_global [OF wf assms(2)] assms(1) show ?thesis
      by (simp add: RemoveGlobalTag_def ctx_tags_def)
  next
    case (Some i)
    then have "i < length (fv_list (global_tags c))" using find_first [OF Some] by (simp add: ctx_tags_def tag_texts_def)
    from swap_remove_ok [OF wf this] Some find_key_global [OF wf assms(2)] assms(1) show ?thesis
      by (auto simp: RemoveGlobalTag_def ctx_tags_def ctx_wf_def)
  qed
qed

lemma SetGlobalTag_map:
  assumes "valid_config cfg" and "ctx_wf cfg c" and "terminated k" and "terminated v"
    and "length (c_str k) < BR_LOG_MAX_TAG_KEY_LEN cfg" and "distinct (map fst (ctx_tags c))"
  shows "\<exists>c'. SetGlobalTag cfg (Some k) (Some v) c = Some c' \<and> ctx_wf cfg c' \<and> length (ctx_tags c') \<le> Suc (length (ctx_tags c)) \<and> distinct (map fst (ctx_tags c')) \<and>
    (if c_str k \<in> fst ` set (ctx_tags c) \<or> length (ctx_tags c) < 16
     then map_of (ctx_tags c') = (map_of (ctx_tags c))(c_str k \<mapsto> stored_value cfg v)
     else ctx_tags c' = ctx_tags c)"
proof -
  obtain c' where c': "SetGlobalTag cfg (Some k) (Some v) c = Some c'" "ctx_wf cfg c'"
    "ctx_tags c' = set_tag_text 16 (c_str k) (c_str k) (stored_value cfg v) (ctx_tags c)"
    using SetGlobalTag_ok [OF assms(1-4)] assms(5) by (auto simp: stored_key_def)
  show ?thesis
  proof (cases "find (\<lambda>i. fst (ctx_tags c ! i) = c_str k) [0..<length (ctx_tags c)]")
    case None
    then have "c_str k \<notin> fst ` set (ctx_tags c)" by (simp add: find_none)
    moreover from this have "map_of (ctx_tags c) (c_str k) = None" by (simp add: map_of_eq_None_iff)
    then have "map_of (ctx_tags c @ [(c_str k, x)]) = (map_of (ctx_tags c))(c_str k \<mapsto> x)" for x
      by (auto simp: map_add_def fun_eq_iff split: option.split)
    ultimately show ?thesis using c' None assms(6) by (simp add: set_tag_text_def)
  next
    case (Some i)
    then have i: "i < length (ctx_tags c)" "fst (ctx_tags c ! i) = c_str k" "\<forall>j<i. fst (ctx_tags c ! j) \<noteq> c_str k"
      using find_first [OF Some] by auto
    then have "c_str k \<in> fst ` set (ctx_tags c)" by (metis imageI nth_mem)
    moreover have "map fst ((ctx_tags c)[i := (c_str k, x)]) = map fst (ctx_tags c)" for x
      using i(1,2) by (simp add: map_update list_update_same_conv)
    ultimately show ?thesis using c' Some assms(6) map_of_update_first [OF i] by (simp add: set_tag_text_def)
  qed
qed

subsection \<open>Scoped tags\<close>

lemma find_rev_last: "ts \<noteq> [] \<Longrightarrow> P (length ts - 1) \<Longrightarrow> find P (rev [0..<length ts]) = Some (length ts - 1)"
  by (cases ts rule: rev_cases) simp_all

lemma PushScopedTag_ok:
  assumes "valid_config cfg" "tls_wf cfg s" "terminated k" "terminated v"
  shows "\<exists>s'. PushScopedTag cfg (Some k) (Some v) s = Some s' \<and> tls_wf cfg s' \<and>
    tls_texts s' = (if length (tls_texts s) < BR_LOG_MAX_TAGS cfg
      then tls_texts s @ [(stored_key cfg k, stored_value cfg v)] else tls_texts s)"
proof -
  have wf: "tags_wf cfg (BR_LOG_MAX_TAGS cfg) (tls_tags s)" using assms(2) by (simp add: tls_wf_def)
  obtain t where "make_tag cfg k v = Some t" "wf_tag cfg t" "tag_text t = (stored_key cfg k, stored_value cfg v)"
    using make_tag_ok [OF assms(1,3,4)] by blast
  with PushBack_tag [OF wf, of t] assms(2) show ?thesis
    by (simp add: PushScopedTag_def tls_wf_def tls_texts_def)
qed

lemma PopScopedTag_ok:
  assumes "tls_wf cfg s" "terminated k"
  shows "\<exists>s'. PopScopedTag cfg (Some k) s = Some s' \<and> tls_wf cfg s' \<and>
    tls_texts s' = (case find (\<lambda>i. fst (tls_texts s ! i) = c_str k) (rev [0..<length (tls_texts s)]) of
      None \<Rightarrow> tls_texts s | Some i \<Rightarrow> swap_remove_list (tls_texts s) i)"
proof -
  let ?v = "tls_tags s"
  have wf: "tags_wf cfg (BR_LOG_MAX_TAGS cfg) ?v" using assms(1) by (simp add: tls_wf_def)
  have e: "Empty ?v \<longleftrightarrow> tls_texts s = []"
    using wf fv_wf_Empty by (auto simp: tags_wf_def tls_texts_def tag_texts_def)
  have f: "find_key cfg ?v k (rev [0..<Size ?v]) =
      Some (find (\<lambda>i. fst (tls_texts s ! i) = c_str k) (rev [0..<length (tls_texts s)]))"
    using find_key_eq [OF wf assms(2), of "rev [0..<Size ?v]"] Size_texts [OF wf]
    by (simp add: tls_texts_def tag_texts_def atLeast0LessThan)
  show ?thesis
  proof (cases "find (\<lambda>i. fst (tls_texts s ! i) = c_str k) (rev [0..<length (tls_texts s)])")
    case None
    with e f assms(1) show ?thesis by (simp add: PopScopedTag_def)
  next
    case (Some i)
    then have i: "i < length (tls_texts s)" by (auto simp: find_Some_iff rev_nth)
    then have "i < length (fv_list ?v)" "tls_texts s \<noteq> []" by (auto simp: tls_texts_def tag_texts_def)
    with swap_remove_ok [OF wf, of i] e f Some assms(1) show ?thesis
      by (auto simp: PopScopedTag_def tls_texts_def tls_wf_def)
  qed
qed

text \<open>
  A block of code guarded by a \<open>ScopedTag\<close>: the constructor, the inner blocks, the destructor.
\<close>

datatype scope = Scope (scope_key: bytes) (scope_value: bytes) (scope_body: "scope list")

fun run_scope :: "config \<Rightarrow> scope \<Rightarrow> Tls \<Rightarrow> Tls option"
and run_scopes :: "config \<Rightarrow> scope list \<Rightarrow> Tls \<Rightarrow> Tls option" where
  "run_scope cfg (Scope k v body) s =
     do { s1 \<leftarrow> PushScopedTag cfg (Some k) (Some v) s;
          s2 \<leftarrow> run_scopes cfg body s1;
          PopScopedTag cfg (Some k) s2 }"
| "run_scopes cfg [] s = Some s"
| "run_scopes cfg (b # bs) s = do { s' \<leftarrow> run_scope cfg b s; run_scopes cfg bs s' }"

text \<open>Every key fits its array, and the nesting fits the tag array.\<close>

fun scope_fits :: "config \<Rightarrow> nat \<Rightarrow> scope \<Rightarrow> bool"
and scopes_fit :: "config \<Rightarrow> nat \<Rightarrow> scope list \<Rightarrow> bool" where
  "scope_fits cfg d (Scope k v body) \<longleftrightarrow> terminated k \<and> terminated v \<and>
     length (c_str k) < BR_LOG_MAX_TAG_KEY_LEN cfg \<and> d < BR_LOG_MAX_TAGS cfg \<and> scopes_fit cfg (Suc d) body"
| "scopes_fit cfg d [] \<longleftrightarrow> True"
| "scopes_fit cfg d (b # bs) \<longleftrightarrow> scope_fits cfg d b \<and> scopes_fit cfg d bs"

lemma pop_last_scoped:
  assumes "tls_wf cfg s" "terminated k" "tls_texts s = ts @ [(c_str k, v)]"
  shows "\<exists>s'. PopScopedTag cfg (Some k) s = Some s' \<and> tls_wf cfg s' \<and> tls_texts s' = ts"
proof -
  have "find (\<lambda>i. fst (tls_texts s ! i) = c_str k) (rev [0..<length (tls_texts s)]) = Some (length ts)"
    using find_rev_last [of "tls_texts s" "\<lambda>i. fst (tls_texts s ! i) = c_str k"] assms(3) by simp
  with PopScopedTag_ok [OF assms(1,2)] assms(3) show ?thesis
    by (auto simp: swap_remove_list_def)
qed

lemma run_scopes_restore:
  shows "scope_fits cfg d b \<Longrightarrow> valid_config cfg \<Longrightarrow> tls_wf cfg s \<Longrightarrow> d = length (tls_texts s) \<Longrightarrow>
      \<exists>s'. run_scope cfg b s = Some s' \<and> tls_wf cfg s' \<and> tls_texts s' = tls_texts s"
    and "scopes_fit cfg d bs \<Longrightarrow> valid_config cfg \<Longrightarrow> tls_wf cfg s \<Longrightarrow> d = length (tls_texts s) \<Longrightarrow>
      \<exists>s'. run_scopes cfg bs s = Some s' \<and> tls_wf cfg s' \<and> tls_texts s' = tls_texts s"
proof (induction cfg d b and cfg d bs arbitrary: s and s rule: scope_fits_scopes_fit.induct)
  case (1 cfg d k v body)
  then have fits: "terminated k" "terminated v" "stored_key cfg k = c_str k" "length (tls_texts s) < BR_LOG_MAX_TAGS cfg"
    by (auto simp: stored_key_def)
  then obtain s1 where s1: "PushScopedTag cfg (Some k) (Some v) s = Some s1" "tls_wf cfg s1"
    "tls_texts s1 = tls_texts s @ [(c_str k, stored_value cfg v)]"
    using PushScopedTag_ok [OF "1.prems"(2,3) fits(1,2)] by auto
  then obtain s2 where s2: "run_scopes cfg body s1 = Some s2" "tls_wf cfg s2" "tls_texts s2 = tls_texts s1"
    using "1.IH" [of s1] "1.prems" by auto
  with pop_last_scoped [OF s2(2) fits(1), of "tls_texts s"] s1 show ?case by auto
next
  case (2 cfg d)
  then show ?case by simp
next
  case (3 cfg d b bs)
  then obtain s1 where s1: "run_scope cfg b s = Some s1" "tls_wf cfg s1" "tls_texts s1 = tls_texts s"
    using "3.IH"(1) [of s] by auto
  with "3.IH"(2) [of s1] "3.prems" show ?case by auto
qed

text \<open>
  A scope that finds the tag array full: its own tag is dropped, and its destructor removes the last tag with
  the same key, which an enclosing scope or the caller had set.
\<close>

lemma full_scope_pops_outer_tag:
  assumes "valid_config cfg" "tls_wf cfg s" "terminated k" "terminated v" "length (tls_texts s) = BR_LOG_MAX_TAGS cfg"
    and "tls_texts s = ts @ [(c_str k, outer)]"
  shows "\<exists>s'. run_scope cfg (Scope k v []) s = Some s' \<and> tls_texts s' = ts"
proof -
  obtain s1 where s1: "PushScopedTag cfg (Some k) (Some v) s = Some s1" "tls_wf cfg s1" "tls_texts s1 = tls_texts s"
    using PushScopedTag_ok [OF assms(1-4)] assms(5) by auto
  with pop_last_scoped [OF s1(2) assms(3), of ts outer] assms(6) show ?thesis by auto
qed

subsection \<open>Filling an entry\<close>

lemma FillTags_loop_eq:
  "length arr = BR_LOG_MAX_TAGS cfg \<Longrightarrow> cnt \<le> BR_LOG_MAX_TAGS cfg \<Longrightarrow>
   FillTags_loop cfg ts cnt arr = (let j = min (length ts) (BR_LOG_MAX_TAGS cfg - cnt) in
     Some (cnt + j, take cnt arr @ take j ts @ drop (cnt + j) arr))"
proof (induction ts arbitrary: cnt arr)
  case Nil
  then show ?case by simp
next
  case (Cons t ts)
  show ?case
  proof (cases "cnt < BR_LOG_MAX_TAGS cfg")
    case True
    let ?j = "min (length ts) (BR_LOG_MAX_TAGS cfg - (cnt + 1))"
    have j: "min (length (t # ts)) (BR_LOG_MAX_TAGS cfg - cnt) = Suc ?j" using True by (auto simp: min_def)
    have "take (cnt + 1) (arr[cnt := t]) = take cnt arr @ [t]"
      using True Cons.prems(1) by (simp add: take_Suc_conv_app_nth)
    moreover have "FillTags_loop cfg ts (cnt + 1) (arr[cnt := t]) = Some (cnt + 1 + ?j,
        take (cnt + 1) (arr[cnt := t]) @ take ?j ts @ drop (cnt + 1 + ?j) (arr[cnt := t]))"
      using Cons.IH [of "arr[cnt := t]" "cnt + 1"] Cons.prems(1) True by (simp add: Let_def)
    ultimately show ?thesis using True Cons.prems(1) unfolding j by simp
  next
    case False
    with Cons.prems show ?thesis by simp
  qed
qed

lemma FillTags_eq:
  assumes "valid_config cfg" "length (tags e) = BR_LOG_MAX_TAGS cfg"
    and "ts = take (BR_LOG_MAX_TAGS cfg) (fv_list (global_tags c) @ fv_list (tls_tags s))"
  shows "FillTags cfg c s e = Some (e\<lparr>tags := ts @ drop (length ts) (tags e), tag_count := of_nat (length ts)\<rparr>)"
proof -
  let ?M = "BR_LOG_MAX_TAGS cfg" and ?g = "fv_list (global_tags c)" and ?l = "fv_list (tls_tags s)"
  define j where "j = min (length ?g) ?M"
  have "FillTags_loop cfg ?g 0 (tags e) = Some (j, take j ?g @ drop j (tags e))"
    using FillTags_loop_eq [OF assms(2), of 0 ?g] by (simp add: Let_def j_def)
  moreover define i where "i = min (length ?l) (?M - j)"
  have "FillTags_loop cfg ?l j (take j ?g @ drop j (tags e)) =
      Some (j + i, take j ?g @ take i ?l @ drop (j + i) (tags e))"
    using FillTags_loop_eq [of "take j ?g @ drop j (tags e)" cfg j ?l] assms(2)
    by (simp add: Let_def j_def i_def add.commute)
  moreover have "ts = take j ?g @ take i ?l" "length ts = j + i"
    using assms(3) by (auto simp: j_def i_def min_def)
  ultimately show ?thesis by (simp add: FillTags_def)
qed

lemma FillTags_wf:
  assumes "valid_config cfg" "ctx_wf cfg c" "tls_wf cfg s" "wf_entry_head cfg e"
  shows "\<exists>e'. FillTags cfg c s e = Some e' \<and> wf_entry_head cfg e' \<and>
    entry_tags e' = take (BR_LOG_MAX_TAGS cfg) (fv_list (global_tags c) @ fv_list (tls_tags s)) \<and>
    e' = e\<lparr>tags := tags e', tag_count := tag_count e'\<rparr>"
proof -
  define ts where ts: "ts = take (BR_LOG_MAX_TAGS cfg) (fv_list (global_tags c) @ fv_list (tls_tags s))"
  let ?e = "e\<lparr>tags := ts @ drop (length ts) (tags e), tag_count := of_nat (length ts)\<rparr>"
  have len: "length (tags e) = BR_LOG_MAX_TAGS cfg" and all: "list_all (wf_tag cfg) (tags e)"
    using assms(4) by (auto simp: wf_entry_head_def)
  have le: "length ts \<le> BR_LOG_MAX_TAGS cfg" by (simp add: ts)
  then have n: "unat (of_nat (length ts) :: u8) = length ts"
    using valid_configD(3) [OF assms(1)] by (intro unat_of_nat_small) simp
  have "list_all (wf_tag cfg) (fv_list (global_tags c) @ fv_list (tls_tags s))"
    using assms(2,3) by (simp add: ctx_wf_def tls_wf_def tags_wf_def)
  then have "list_all (wf_tag cfg) ts" by (auto simp: ts list_all_iff dest: in_set_takeD)
  with all have "list_all (wf_tag cfg) (ts @ drop (length ts) (tags e))"
    by (auto simp: list_all_iff dest: in_set_dropD)
  with n le len assms(4) have "wf_entry_head cfg ?e" "entry_tags ?e = ts"
    unfolding wf_entry_head_def entry_tags_def by simp_all
  with FillTags_eq [OF assms(1) len ts] show ?thesis by (simp add: ts)
qed

lemma memcpy_name: "length dst = 32 \<Longrightarrow> length src = 32 \<Longrightarrow> memcpy dst 0 src 32 = Some src"
  by (simp add: memcpy_def)

lemma FillThreadInfo_wf:
  assumes "tls_wf cfg s" "wf_entry_head cfg e"
  shows "\<exists>e' s'. FillThreadInfo pid os_tid s e = Some (e', s') \<and> wf_entry_head cfg e' \<and> tls_wf cfg s' \<and>
    process_id e' = pid \<and> thread_id e' = (if tls_thread_id_cached s then tls_thread_id s else ucast os_tid) \<and>
    c_str (thread_name e') = c_str (tls_thread_name s) \<and> tls_texts s' = tls_texts s \<and>
    e' = e\<lparr>process_id := process_id e', thread_id := thread_id e', thread_name := thread_name e'\<rparr>"
  using assms
  by (simp add: FillThreadInfo_def GetThreadId_def Let_def memcpy_name wf_entry_head_def tls_wf_def tls_texts_def)

subsection \<open>The context over time\<close>

lemma copy_field_ok:
  "0 < n \<Longrightarrow> length dst = n \<Longrightarrow> terminated src \<Longrightarrow> copy_str dst src n = Some b \<Longrightarrow> length b = n \<and> terminated b"
  using copy_str_ok [of n dst src] by auto

text \<open>
  The calls a thread can make, as data, on the context and the thread's own data; \<open>None\<close> is an access outside an
  array, in whichever call.
\<close>

datatype ctx_op =
    OpSetGlobalTag c_ptr c_ptr
  | OpRemoveGlobalTag c_ptr
  | OpSetProcessName c_ptr
  | OpSetAppVersion c_ptr
  | OpSetThreadName c_ptr
  | OpPushScopedTag c_ptr c_ptr
  | OpPopScopedTag c_ptr
  | OpGetThreadId u64

fun ctx_do :: "config \<Rightarrow> ctx_op \<Rightarrow> LogContext \<times> Tls \<Rightarrow> (LogContext \<times> Tls) option" where
  "ctx_do cfg (OpSetGlobalTag k v) (c, s) = do { c' \<leftarrow> SetGlobalTag cfg k v c; Some (c', s) }"
| "ctx_do cfg (OpRemoveGlobalTag k) (c, s) = do { c' \<leftarrow> RemoveGlobalTag cfg k c; Some (c', s) }"
| "ctx_do cfg (OpSetProcessName n) (c, s) = do { c' \<leftarrow> SetProcessName n c; Some (c', s) }"
| "ctx_do cfg (OpSetAppVersion n) (c, s) = do { c' \<leftarrow> SetAppVersion n c; Some (c', s) }"
| "ctx_do cfg (OpSetThreadName n) (c, s) = do { s' \<leftarrow> SetThreadName n s; Some (c, s') }"
| "ctx_do cfg (OpPushScopedTag k v) (c, s) = do { s' \<leftarrow> PushScopedTag cfg k v s; Some (c, s') }"
| "ctx_do cfg (OpPopScopedTag k) (c, s) = do { s' \<leftarrow> PopScopedTag cfg k s; Some (c, s') }"
| "ctx_do cfg (OpGetThreadId t) (c, s) = Some (c, snd (GetThreadId t s))"

text \<open>Calls of several threads, each with its number; \<open>tls\<close> holds the thread-local data of every thread.\<close>

fun ctx_run :: "config \<Rightarrow> (nat \<times> ctx_op) list \<Rightarrow> LogContext \<times> (nat \<Rightarrow> Tls) \<Rightarrow> (LogContext \<times> (nat \<Rightarrow> Tls)) option" where
  "ctx_run cfg [] st = Some st"
| "ctx_run cfg ((t, a) # as) (c, tls) = do { (c', s) \<leftarrow> ctx_do cfg a (c, tls t); ctx_run cfg as (c', tls(t := s)) }"

text \<open>The pointers are null or point to C strings.\<close>

fun op_ptrs_ok :: "ctx_op \<Rightarrow> bool" where
  "op_ptrs_ok (OpSetGlobalTag k v) \<longleftrightarrow> wf_ptr k \<and> wf_ptr v"
| "op_ptrs_ok (OpRemoveGlobalTag k) \<longleftrightarrow> wf_ptr k"
| "op_ptrs_ok (OpSetProcessName n) \<longleftrightarrow> wf_ptr n"
| "op_ptrs_ok (OpSetAppVersion n) \<longleftrightarrow> wf_ptr n"
| "op_ptrs_ok (OpSetThreadName n) \<longleftrightarrow> wf_ptr n"
| "op_ptrs_ok (OpPushScopedTag k v) \<longleftrightarrow> wf_ptr k \<and> wf_ptr v"
| "op_ptrs_ok (OpPopScopedTag k) \<longleftrightarrow> wf_ptr k"
| "op_ptrs_ok (OpGetThreadId tid) \<longleftrightarrow> True"

lemma SetGlobalTag_wf:
  assumes "valid_config cfg" "ctx_wf cfg c" "wf_ptr k" "wf_ptr v"
  shows "\<exists>c'. SetGlobalTag cfg k v c = Some c' \<and> ctx_wf cfg c'"
proof (cases "k = None \<or> v = None")
  case True
  with assms show ?thesis by (auto simp: SetGlobalTag_def split: option.split)
next
  case False
  then obtain a b where "k = Some a" "v = Some b" by auto
  with assms SetGlobalTag_ok [OF assms(1,2), of a b] show ?thesis by (auto simp: wf_ptr_def)
qed

lemma RemoveGlobalTag_wf:
  assumes "ctx_wf cfg c" "wf_ptr k"
  shows "\<exists>c'. RemoveGlobalTag cfg k c = Some c' \<and> ctx_wf cfg c'"
proof (cases k)
  case None
  with assms show ?thesis by (simp add: RemoveGlobalTag_def)
next
  case (Some a)
  with assms RemoveGlobalTag_ok [OF assms(1), of a] show ?thesis by (auto simp: wf_ptr_def)
qed

lemma names_wf:
  assumes "ctx_wf cfg c" "tls_wf cfg s" "wf_ptr n"
  shows "\<exists>c'. SetProcessName n c = Some c' \<and> ctx_wf cfg c'"
    and "\<exists>c'. SetAppVersion n c = Some c' \<and> ctx_wf cfg c'"
    and "\<exists>s'. SetThreadName n s = Some s' \<and> tls_wf cfg s'"
  using assms copy_str_ok [of 64 "process_name c"] copy_str_ok [of 32 "app_version c"] copy_str_ok [of 32 "tls_thread_name s"]
  by (cases n; force simp: SetProcessName_def SetAppVersion_def SetThreadName_def wf_ptr_def ctx_wf_def tls_wf_def)+

lemma PushScopedTag_wf:
  assumes "valid_config cfg" "tls_wf cfg s" "wf_ptr k" "wf_ptr v"
  shows "\<exists>s'. PushScopedTag cfg k v s = Some s' \<and> tls_wf cfg s'"
proof (cases "k = None \<or> v = None")
  case True
  with assms show ?thesis by (auto simp: PushScopedTag_def split: option.split)
next
  case False
  then obtain a b where "k = Some a" "v = Some b" by auto
  with assms PushScopedTag_ok [OF assms(1,2), of a b] show ?thesis by (auto simp: wf_ptr_def)
qed

lemma PopScopedTag_wf:
  assumes "tls_wf cfg s" "wf_ptr k"
  shows "\<exists>s'. PopScopedTag cfg k s = Some s' \<and> tls_wf cfg s'"
proof (cases k)
  case None
  with assms show ?thesis by (simp add: PopScopedTag_def)
next
  case (Some a)
  with assms PopScopedTag_ok [OF assms(1), of a] show ?thesis by (auto simp: wf_ptr_def)
qed

lemma GetThreadId_wf: "tls_wf cfg s \<Longrightarrow> tls_wf cfg (snd (GetThreadId t s))"
  by (simp add: GetThreadId_def Let_def tls_wf_def)

text \<open>No call leaves an array, and each keeps the invariants.\<close>

lemma ctx_do_wf:
  assumes "valid_config cfg" "ctx_wf cfg c" "tls_wf cfg s" "op_ptrs_ok a"
  shows "\<exists>c' s'. ctx_do cfg a (c, s) = Some (c', s') \<and> ctx_wf cfg c' \<and> tls_wf cfg s'"
proof (cases a)
  case (OpSetGlobalTag k v)
  with SetGlobalTag_wf [OF assms(1,2), of k v] assms(3,4) show ?thesis by auto
next
  case (OpRemoveGlobalTag k)
  with RemoveGlobalTag_wf [OF assms(2), of k] assms(3,4) show ?thesis by auto
next
  case (OpSetProcessName n)
  with names_wf(1) [OF assms(2,3), of n] assms(3,4) show ?thesis by auto
next
  case (OpSetAppVersion n)
  with names_wf(2) [OF assms(2,3), of n] assms(3,4) show ?thesis by auto
next
  case (OpSetThreadName n)
  with names_wf(3) [OF assms(2,3), of n] assms(2,4) show ?thesis by auto
next
  case (OpPushScopedTag k v)
  with PushScopedTag_wf [OF assms(1,3), of k v] assms(2,4) show ?thesis by auto
next
  case (OpPopScopedTag k)
  with PopScopedTag_wf [OF assms(3), of k] assms(2,4) show ?thesis by auto
next
  case (OpGetThreadId t)
  with GetThreadId_wf [OF assms(3), of t] assms(2) show ?thesis by auto
qed

lemma ctx_run_wf:
  "valid_config cfg \<Longrightarrow> ctx_wf cfg c \<Longrightarrow> \<forall>t. tls_wf cfg (tls t) \<Longrightarrow> list_all (\<lambda>(t, a). op_ptrs_ok a) as \<Longrightarrow>
   \<exists>c' tls'. ctx_run cfg as (c, tls) = Some (c', tls') \<and> ctx_wf cfg c' \<and> (\<forall>t. tls_wf cfg (tls' t))"
proof (induction as arbitrary: c tls)
  case Nil
  then show ?case by simp
next
  case (Cons x as)
  obtain t a where x: "x = (t, a)" by (cases x)
  then obtain c1 s1 where 1: "ctx_do cfg a (c, tls t) = Some (c1, s1)" "ctx_wf cfg c1" "tls_wf cfg s1"
    using ctx_do_wf [OF Cons.prems(1,2), of "tls t" a] Cons.prems(3,4) by auto
  have "\<forall>u. tls_wf cfg ((tls(t := s1)) u)" using 1(3) Cons.prems(3) by simp
  from Cons.IH [OF Cons.prems(1) 1(2) this] Cons.prems(4) 1(1) x show ?case by (simp del: fun_upd_apply)
qed

definition ctx_step :: "config \<Rightarrow> LogContext \<times> Tls \<Rightarrow> LogContext \<times> Tls \<Rightarrow> bool" where
  "ctx_step cfg x y \<longleftrightarrow> (\<exists>a. op_ptrs_ok a \<and> ctx_do cfg a x = Some y)"

lemma ctx_step_wf:
  assumes "ctx_step cfg x y" "valid_config cfg" "ctx_wf cfg (fst x)" "tls_wf cfg (snd x)"
  shows "ctx_wf cfg (fst y) \<and> tls_wf cfg (snd y)"
  using assms ctx_do_wf [OF assms(2-4)] by (auto simp: ctx_step_def) (metis fst_conv option.inject prod.collapse snd_conv)+

lemma ctx_init_wf:
  assumes "valid_config cfg"
  shows "ctx_wf cfg (LogContext_init cfg)" "tls_wf cfg (Tls_init cfg)"
  by (simp_all add: ctx_wf_def tls_wf_def LogContext_init_def Tls_init_def tags_wf_def fv_wf_init terminated_def)

subsection \<open>Properties\<close>

text \<open>
  C29: the context never leaves its arrays. Whatever calls any threads make on a fresh context, in any order, with any
  strings and null pointers, every call returns without an access outside an array, and afterwards the tag arrays
  are within their capacity and every stored key, value and name is a terminated string inside its array.
\<close>

theorem context_invariant:
  assumes "valid_config cfg" and "list_all (\<lambda>(t, a). op_ptrs_ok a) as"
  shows "\<exists>c tls. ctx_run cfg as (LogContext_init cfg, \<lambda>_. Tls_init cfg) = Some (c, tls) \<and>
    ctx_wf cfg c \<and> (\<forall>t. tls_wf cfg (tls t))"
  by (rule ctx_run_wf) (use assms ctx_init_wf [OF assms(1)] in simp_all)

theorem context_invariant_witness:
  "\<exists>c tls. ctx_run (platform_config False)
      [(1, OpSetGlobalTag (Some (c_lit ''env'')) (Some (c_lit ''prod''))), (2, OpSetThreadName (Some (c_lit (replicate 99 CHR ''n'')))),
       (2, OpPushScopedTag (Some (c_lit ''k'')) (Some (c_lit ''v''))), (1, OpSetGlobalTag None (Some (c_lit ''x''))),
       (3, OpGetThreadId 7), (2, OpPopScopedTag (Some (c_lit ''k''))), (1, OpRemoveGlobalTag (Some (c_lit ''env'')))]
      (LogContext_init (platform_config False), \<lambda>_. Tls_init (platform_config False)) = Some (c, tls) \<and>
    ctx_wf (platform_config False) c \<and> tls_wf (platform_config False) (tls 2)"
  using context_invariant [OF valid_platform_config, of
      "[(1, OpSetGlobalTag (Some (c_lit ''env'')) (Some (c_lit ''prod''))), (2, OpSetThreadName (Some (c_lit (replicate 99 CHR ''n'')))),
       (2, OpPushScopedTag (Some (c_lit ''k'')) (Some (c_lit ''v''))), (1, OpSetGlobalTag None (Some (c_lit ''x''))),
       (3, OpGetThreadId 7), (2, OpPopScopedTag (Some (c_lit ''k''))), (1, OpRemoveGlobalTag (Some (c_lit ''env'')))]" False]
  by (fastforce simp: wf_ptr_def simp del: ctx_run.simps)

text \<open>
  C30: looking up a global tag after setting it. In a context whose keys are distinct, a key that is shorter than its
  array is mapped to the stored part of the value, every other key keeps its value and the keys stay distinct; a new
  key is dropped without a trace exactly when all sixteen places are taken.
\<close>

theorem SetGlobalTag_lookup:
  assumes "valid_config cfg" and "ctx_wf cfg c" and "terminated k" and "terminated v"
    and "length (c_str k) < BR_LOG_MAX_TAG_KEY_LEN cfg" and "distinct (map fst (ctx_tags c))"
  shows "\<exists>c'. SetGlobalTag cfg (Some k) (Some v) c = Some c' \<and> ctx_wf cfg c' \<and> distinct (map fst (ctx_tags c')) \<and>
    (if c_str k \<in> fst ` set (ctx_tags c) \<or> length (ctx_tags c) < 16
     then map_of (ctx_tags c') = (map_of (ctx_tags c))(c_str k \<mapsto> stored_value cfg v)
     else ctx_tags c' = ctx_tags c)"
  using SetGlobalTag_map [OF assms] by blast

theorem SetGlobalTag_lookup_witness:
  "\<exists>c'. SetGlobalTag (platform_config False) (Some (c_lit ''env'')) (Some (c_lit ''prod''))
      (LogContext_init (platform_config False)) = Some c' \<and>
    map_of (ctx_tags c') = [''env'' \<mapsto> ''prod'']"
proof -
  let ?cfg = "platform_config False"
  have "ctx_tags (LogContext_init ?cfg) = []" by (simp add: ctx_tags_def LogContext_init_def tag_texts_def)
  moreover have "c_str (c_lit ''env'') = ''env''" "stored_value ?cfg (c_lit ''prod'') = ''prod''"
    by (simp_all add: c_str_c_lit stored_value_def platform_config_def)
  ultimately show ?thesis
    using SetGlobalTag_lookup [OF valid_platform_config ctx_init_wf(1) [OF valid_platform_config],
        of "c_lit ''env''" "c_lit ''prod''" False]
    by (auto simp: platform_config_def)
qed

text \<open>
  Removing a global tag removes exactly that key. The gap is filled with the last tag, so the order may
  change, but the map from keys to values loses the key and nothing else, and keys stay distinct.
\<close>

lemma RemoveGlobalTag_lookup:
  assumes "ctx_wf cfg c" and "terminated k" and "distinct (map fst (ctx_tags c))"
  shows "\<exists>c'. RemoveGlobalTag cfg (Some k) c = Some c' \<and> ctx_wf cfg c' \<and> distinct (map fst (ctx_tags c')) \<and>
    map_of (ctx_tags c') = (map_of (ctx_tags c))(c_str k := None)"
proof -
  obtain c' where c': "RemoveGlobalTag cfg (Some k) c = Some c'" "ctx_wf cfg c'"
    "ctx_tags c' = (case find (\<lambda>i. fst (ctx_tags c ! i) = c_str k) [0..<length (ctx_tags c)] of
      None \<Rightarrow> ctx_tags c | Some i \<Rightarrow> swap_remove_list (ctx_tags c) i)"
    using RemoveGlobalTag_ok [OF assms(1,2)] by blast
  show ?thesis
  proof (cases "find (\<lambda>i. fst (ctx_tags c ! i) = c_str k) [0..<length (ctx_tags c)]")
    case None
    then have "map_of (ctx_tags c) (c_str k) = None" by (simp add: find_none map_of_eq_None_iff)
    with c' None assms(3) show ?thesis by (simp add: fun_upd_idem)
  next
    case (Some i)
    with find_first [OF Some] map_of_swap_remove [of i "ctx_tags c" "c_str k"] assms(3) c' show ?thesis by simp
  qed
qed

lemma RemoveGlobalTag_lookup_witness:
  "\<exists>c'. RemoveGlobalTag (platform_config False) (Some (c_lit ''env'')) (LogContext_init (platform_config False)) = Some c' \<and>
    map_of (ctx_tags c') = Map.empty"
proof -
  have "ctx_tags (LogContext_init (platform_config False)) = []"
    by (simp add: ctx_tags_def LogContext_init_def tag_texts_def)
  with RemoveGlobalTag_lookup [OF ctx_init_wf(1) [OF valid_platform_config], of "c_lit ''env''" False]
  show ?thesis by auto
qed

text \<open>
  C31: scoped tags follow the block structure. Running any properly nested blocks whose keys fit and whose depth
  fits the tag array leaves the thread's tags exactly as they were, order included.
\<close>

theorem scoped_tags_restored:
  assumes "valid_config cfg" and "tls_wf cfg s" and "scopes_fit cfg (length (tls_texts s)) bs"
  shows "\<exists>s'. run_scopes cfg bs s = Some s' \<and> tls_wf cfg s' \<and> tls_texts s' = tls_texts s"
  using assms run_scopes_restore(2) by blast

theorem scoped_tags_restored_witness:
  "\<exists>s'. run_scopes (platform_config False) [Scope (c_lit ''a'') (c_lit ''1'') [Scope (c_lit ''a'') (c_lit ''2'') []]]
      (Tls_init (platform_config False)) = Some s' \<and> tls_texts s' = []"
proof -
  have "tls_texts (Tls_init (platform_config False)) = []"
    by (simp add: tls_texts_def Tls_init_def tag_texts_def)
  with scoped_tags_restored [OF valid_platform_config ctx_init_wf(2) [OF valid_platform_config],
      of False "[Scope (c_lit ''a'') (c_lit ''1'') [Scope (c_lit ''a'') (c_lit ''2'') []]]"]
  show ?thesis by (auto simp: platform_config_def c_str_c_lit)
qed

text \<open>
  C23: the tags of an entry. \<open>FillTags\<close> copies the global tags and then the thread's own, as many as the entry
  has room for and in that order, sets the count accordingly and keeps the entry well-formed; it changes no
  other field.
\<close>

theorem FillTags_correct:
  assumes "valid_config cfg" and "ctx_wf cfg c" and "tls_wf cfg s" and "wf_entry_head cfg e"
  shows "\<exists>e'. FillTags cfg c s e = Some e' \<and> wf_entry_head cfg e' \<and>
    map tag_text (entry_tags e') = take (BR_LOG_MAX_TAGS cfg) (ctx_tags c @ tls_texts s) \<and>
    e' = e\<lparr>tags := tags e', tag_count := tag_count e'\<rparr>"
  using FillTags_wf [OF assms]
  by (auto simp: ctx_tags_def tls_texts_def tag_texts_def take_map)

theorem FillTags_correct_witness:
  "\<exists>c s e'. SetGlobalTag (platform_config False) (Some (c_lit ''env'')) (Some (c_lit ''prod'')) (LogContext_init (platform_config False)) = Some c \<and>
     PushScopedTag (platform_config False) (Some (c_lit ''a'')) (Some (c_lit ''1'')) (Tls_init (platform_config False)) = Some s \<and>
     FillTags (platform_config False) c s (zero_entry (platform_config False)) = Some e' \<and>
     map tag_text (entry_tags e') = [(''env'', ''prod''), (''a'', ''1'')]"
proof -
  let ?cfg = "platform_config False"
  have texts: "stored_key ?cfg (c_lit ''env'') = ''env''" "stored_value ?cfg (c_lit ''prod'') = ''prod''"
    "stored_key ?cfg (c_lit ''a'') = ''a''" "stored_value ?cfg (c_lit ''1'') = ''1''"
    by (simp_all add: c_str_c_lit stored_key_def stored_value_def platform_config_def)
  have init: "ctx_tags (LogContext_init ?cfg) = []" "tls_texts (Tls_init ?cfg) = []"
    by (simp_all add: ctx_tags_def tls_texts_def LogContext_init_def Tls_init_def tag_texts_def)
  have max: "BR_LOG_MAX_TAGS ?cfg = 8" by (simp add: platform_config_def)
  note wf = ctx_init_wf [OF valid_platform_config, of False]
  obtain c where c: "SetGlobalTag ?cfg (Some (c_lit ''env'')) (Some (c_lit ''prod'')) (LogContext_init ?cfg) = Some c" "ctx_wf ?cfg c"
    "ctx_tags c = [(''env'', ''prod'')]"
    using SetGlobalTag_ok [OF valid_platform_config wf(1), of "c_lit ''env''" "c_lit ''prod''"] by (auto simp: set_tag_text_def init texts)
  obtain s where s: "PushScopedTag ?cfg (Some (c_lit ''a'')) (Some (c_lit ''1'')) (Tls_init ?cfg) = Some s" "tls_wf ?cfg s"
    "tls_texts s = [(''a'', ''1'')]"
    using PushScopedTag_ok [OF valid_platform_config wf(2), of "c_lit ''a''" "c_lit ''1''"] by (auto simp: init texts max)
  have "wf_entry_head ?cfg (zero_entry ?cfg)" using wf_zero_entry [OF valid_platform_config, of False] by (simp add: wf_entry_def)
  from FillTags_correct [OF valid_platform_config c(2) s(2) this] c(1,3) s(1,3) show ?thesis by (fastforce simp: max)
qed

text \<open>
  C39: keys longer than their array. A key of \<open>BR_LOG_MAX_TAG_KEY_LEN\<close> characters or more is stored truncated
  but searched for in full, so it is never found again: setting it a second time stores a duplicate, and
  removing or popping it does nothing.
\<close>

theorem long_keys_never_match:
  assumes "valid_config cfg" and "ctx_wf cfg c" and "tls_wf cfg s" and "terminated k" and "terminated v"
    and "BR_LOG_MAX_TAG_KEY_LEN cfg \<le> length (c_str k)"
  shows "(\<exists>c'. SetGlobalTag cfg (Some k) (Some v) c = Some c' \<and>
      ctx_tags c' = (if length (ctx_tags c) < 16 then ctx_tags c @ [(stored_key cfg k, stored_value cfg v)] else ctx_tags c)) \<and>
    RemoveGlobalTag cfg (Some k) c = Some c \<and> PopScopedTag cfg (Some k) s = Some s"
proof -
  have wg: "tags_wf cfg 16 (global_tags c)" and wt: "tags_wf cfg (BR_LOG_MAX_TAGS cfg) (tls_tags s)"
    using assms(2,3) by (auto simp: ctx_wf_def tls_wf_def)
  have none: "fst (tag_texts v ! i) \<noteq> c_str k" if "tags_wf cfg cap v" "i < length (fv_list v)" for v cap i
    using that assms(6) c_str_length_less [of "tag_key (fv_list v ! i)"]
    by (auto simp: tags_wf_def list_all_length wf_tag_def tag_texts_def tag_text_def)
  have f: "find_key cfg v k is = Some None" if "tags_wf cfg cap v" "set is \<subseteq> {..<length (fv_list v)}" for v cap "is"
    using find_key_eq [OF that(1) assms(4) that(2)] none [OF that(1)] that(2) by (auto simp: find_None_iff)
  have "find (\<lambda>i. fst (ctx_tags c ! i) = c_str k) [0..<length (ctx_tags c)] = None"
    using none [OF wg] by (auto simp: find_None_iff ctx_tags_def tag_texts_def)
  then have "set_tag_text 16 (c_str k) sk sv (ctx_tags c) =
      (if length (ctx_tags c) < 16 then ctx_tags c @ [(sk, sv)] else ctx_tags c)" for sk sv
    by (simp add: set_tag_text_def)
  moreover have "find_key cfg (global_tags c) k [0..<Size (global_tags c)] = Some None"
    using f [OF wg] Size_texts [OF wg] by (simp add: tag_texts_def atLeast0LessThan)
  moreover have "find_key cfg (tls_tags s) k (rev [0..<Size (tls_tags s)]) = Some None"
    using f [OF wt] Size_texts [OF wt] by (simp add: tag_texts_def atLeast0LessThan)
  ultimately show ?thesis
    using SetGlobalTag_ok [OF assms(1,2,4,5)] by (auto simp: RemoveGlobalTag_def PopScopedTag_def)
qed

theorem long_keys_never_match_witness:
  "RemoveGlobalTag (platform_config False) (Some (c_lit (replicate 40 CHR ''k''))) (LogContext_init (platform_config False)) =
    Some (LogContext_init (platform_config False))"
  using long_keys_never_match [OF valid_platform_config ctx_init_wf(1) [OF valid_platform_config]
      ctx_init_wf(2) [OF valid_platform_config], of "c_lit (replicate 40 CHR ''k'')" "c_lit ''v''" False]
  by (simp add: c_str_c_lit) (simp add: platform_config_def)

end
