(* ===== verification/Context_Concurrent.thy ===== *)
theory Context_Concurrent
  imports Log_Context
begin

text \<open>
  The global tags under concurrency (\<open>log_context.cpp\<close>): threads inside \<open>SetGlobalTag\<close>, \<open>RemoveGlobalTag\<close> and
  \<open>FillTags\<close>, interleaved at every statement, with the \<open>std::shared_mutex\<close> they take. The tags are changed in
  several steps, so there are moments when a value is half written or a tag is in the array twice; a reader copies
  the tags one by one. The invariant says that what the holder of the lock will have done when it releases it is the
  whole operation of \<open>Log_Context\<close>, and that a reader is copying one consistent state. This is what makes the
  operations on the context single steps for \<open>Logger_Concurrent\<close>.

  History variables: \<open>tag_ops\<close>, the operations in the order of their releases; \<open>tag_reads\<close>, the results of
  \<open>FillTags\<close> on the global tags with the number of operations before each.
\<close>

subsection \<open>Threads, the lock and the steps\<close>

datatype tag_op = SetTag bytes bytes | RemoveTag bytes

text \<open>
  Where a thread is: outside; with the exclusive lock in the search loop, before one of the statements that change
  the tags, or before the release; with the shared lock in the copying loop or before the release.
\<close>

datatype tag_pc =
    TOut
  | TSearch tag_op nat
  | TCopy tag_op bytes nat
  | TTerminate tag_op nat
  | TPush tag_op bytes bytes
  | TMove tag_op nat
  | TPop tag_op
  | TUnlock tag_op
  | TRead "LogTag list" nat "LogTag list"
  | TReadEnd "LogTag list" nat "LogTag list"

record tag_run =
  ctx_now :: LogContext
  tag_pcs :: "nat \<Rightarrow> tag_pc"
  lock_writer :: "nat option"
  lock_readers :: "nat set"
  tag_ops :: "tag_op list"
  tag_reads :: "(nat \<times> LogTag list \<times> nat \<times> LogTag list) list"

definition tag_run_init :: "LogContext \<Rightarrow> tag_run" where
  "tag_run_init c = \<lparr>ctx_now = c, tag_pcs = (\<lambda>_. TOut), lock_writer = None, lock_readers = {}, tag_ops = [], tag_reads = []\<rparr>"

fun op_key :: "tag_op \<Rightarrow> bytes" where
  "op_key (SetTag k v) = k"
| "op_key (RemoveTag k) = k"

fun op_terminated :: "tag_op \<Rightarrow> bool" where
  "op_terminated (SetTag k v) \<longleftrightarrow> terminated k \<and> terminated v"
| "op_terminated (RemoveTag k) \<longleftrightarrow> terminated k"

abbreviation tag_goto :: "tag_run \<Rightarrow> nat \<Rightarrow> tag_pc \<Rightarrow> tag_run" where
  "tag_goto s t p \<equiv> s\<lparr>tag_pcs := (tag_pcs s)(t := p)\<rparr>"

abbreviation tag_put :: "tag_run \<Rightarrow> nat \<Rightarrow> tag_pc \<Rightarrow> LogTag FixedVector \<Rightarrow> tag_run" where
  "tag_put s t p g \<equiv> s\<lparr>ctx_now := (ctx_now s)\<lparr>global_tags := g\<rparr>, tag_pcs := (tag_pcs s)(t := p)\<rparr>"

abbreviation tags_now :: "tag_run \<Rightarrow> LogTag FixedVector" where
  "tags_now s \<equiv> global_tags (ctx_now s)"

text \<open>After the search: the statement a hit or the end of the loop leads to.\<close>

fun after_hit :: "tag_op \<Rightarrow> nat \<Rightarrow> tag_pc" where
  "after_hit (SetTag k v) i = TCopy (SetTag k v) v i"
| "after_hit (RemoveTag k) i = TMove (RemoveTag k) i"

fun after_miss :: "tag_op \<Rightarrow> tag_pc" where
  "after_miss (SetTag k v) = TPush (SetTag k v) k v"
| "after_miss (RemoveTag k) = TUnlock (RemoveTag k)"

text \<open>
  The caller passes C strings, and \<open>FillTags\<close> the tag array of its entry. A null pointer returns before the lock is
  taken. The holder of a lock is a thread inside the operation; the exclusive lock is taken when no one holds it, the
  shared one when there is no writer.
\<close>

inductive tag_step :: "config \<Rightarrow> nat \<Rightarrow> tag_run \<Rightarrow> tag_run \<Rightarrow> bool" for cfg t where
  lock_unique: "tag_pcs s t = TOut \<Longrightarrow> op_terminated op \<Longrightarrow> lock_writer s = None \<Longrightarrow> lock_readers s = {} \<Longrightarrow>
     tag_step cfg t s ((tag_goto s t (TSearch op 0))\<lparr>lock_writer := Some t\<rparr>)"
| search_hit: "tag_pcs s t = TSearch op i \<Longrightarrow> i < Size (tags_now s) \<Longrightarrow> fv_get (tags_now s) i = Some x \<Longrightarrow>
     strncmp_eq (tag_key x) (op_key op) (BR_LOG_MAX_TAG_KEY_LEN cfg) = Some True \<Longrightarrow>
     tag_step cfg t s (tag_goto s t (after_hit op i))"
| search_next: "tag_pcs s t = TSearch op i \<Longrightarrow> i < Size (tags_now s) \<Longrightarrow> fv_get (tags_now s) i = Some x \<Longrightarrow>
     strncmp_eq (tag_key x) (op_key op) (BR_LOG_MAX_TAG_KEY_LEN cfg) = Some False \<Longrightarrow>
     tag_step cfg t s (tag_goto s t (TSearch op (Suc i)))"
| search_end: "tag_pcs s t = TSearch op i \<Longrightarrow> \<not> i < Size (tags_now s) \<Longrightarrow>
     tag_step cfg t s (tag_goto s t (after_miss op))"
| copy_value: "tag_pcs s t = TCopy op v i \<Longrightarrow> fv_get (tags_now s) i = Some x \<Longrightarrow>
     strncpy (tag_value x) v (BR_LOG_MAX_TAG_VAL_LEN cfg - 1) = Some d \<Longrightarrow>
     fv_set (tags_now s) i (x\<lparr>tag_value := d\<rparr>) = Some g \<Longrightarrow>
     tag_step cfg t s (tag_put s t (TTerminate op i) g)"
| terminate: "tag_pcs s t = TTerminate op i \<Longrightarrow> fv_get (tags_now s) i = Some x \<Longrightarrow>
     store_byte (tag_value x) (BR_LOG_MAX_TAG_VAL_LEN cfg - 1) NUL = Some d \<Longrightarrow>
     fv_set (tags_now s) i (x\<lparr>tag_value := d\<rparr>) = Some g \<Longrightarrow>
     tag_step cfg t s (tag_put s t (TUnlock op) g)"
| push_tag: "tag_pcs s t = TPush op k v \<Longrightarrow> make_tag cfg k v = Some x \<Longrightarrow>
     tag_step cfg t s (tag_put s t (TUnlock op) (snd (PushBack (tags_now s) x)))"
| move_last: "tag_pcs s t = TMove op i \<Longrightarrow> i \<noteq> Size (tags_now s) - 1 \<Longrightarrow>
     fv_get (tags_now s) (Size (tags_now s) - 1) = Some x \<Longrightarrow> fv_set (tags_now s) i x = Some g \<Longrightarrow>
     tag_step cfg t s (tag_put s t (TPop op) g)"
| is_last: "tag_pcs s t = TMove op i \<Longrightarrow> i = Size (tags_now s) - 1 \<Longrightarrow> tag_step cfg t s (tag_goto s t (TPop op))"
| pop_back: "tag_pcs s t = TPop op \<Longrightarrow> tag_step cfg t s (tag_put s t (TUnlock op) (snd (PopBack (tags_now s))))"
| unlock_unique: "tag_pcs s t = TUnlock op \<Longrightarrow>
     tag_step cfg t s ((tag_goto s t TOut)\<lparr>lock_writer := None, tag_ops := tag_ops s @ [op]\<rparr>)"
| lock_shared: "tag_pcs s t = TOut \<Longrightarrow> length arr = BR_LOG_MAX_TAGS cfg \<Longrightarrow> lock_writer s = None \<Longrightarrow>
     tag_step cfg t s ((tag_goto s t (TRead arr 0 arr))\<lparr>lock_readers := insert t (lock_readers s)\<rparr>)"
| read_end: "tag_pcs s t = TRead arr0 i arr \<Longrightarrow> \<not> (i < length (fv_list (tags_now s)) \<and> i < BR_LOG_MAX_TAGS cfg) \<Longrightarrow>
     tag_step cfg t s (tag_goto s t (TReadEnd arr0 i arr))"
| read_tag: "tag_pcs s t = TRead arr0 i arr \<Longrightarrow> i < length (fv_list (tags_now s)) \<Longrightarrow> i < BR_LOG_MAX_TAGS cfg \<Longrightarrow>
     i < length arr \<Longrightarrow>
     tag_step cfg t s (tag_goto s t (TRead arr0 (Suc i) (arr[i := fv_list (tags_now s) ! i])))"
| unlock_shared: "tag_pcs s t = TReadEnd arr0 i arr \<Longrightarrow>
     tag_step cfg t s ((tag_goto s t TOut)\<lparr>lock_readers := lock_readers s - {t},
       tag_reads := tag_reads s @ [(length (tag_ops s), arr0, i, arr)]\<rparr>)"

subsection \<open>The operation a thread is in the middle of\<close>

fun apply_op :: "config \<Rightarrow> tag_op \<Rightarrow> LogContext \<Rightarrow> LogContext option" where
  "apply_op cfg (SetTag k v) c = SetGlobalTag cfg (Some k) (Some v) c"
| "apply_op cfg (RemoveTag k) c = RemoveGlobalTag cfg (Some k) c"

fun apply_ops :: "config \<Rightarrow> tag_op list \<Rightarrow> LogContext \<Rightarrow> LogContext option" where
  "apply_ops cfg [] c = Some c"
| "apply_ops cfg (x # xs) c = do { c' \<leftarrow> apply_op cfg x c; apply_ops cfg xs c' }"

lemma apply_ops_append: "apply_ops cfg (xs @ ys) c = do { c' \<leftarrow> apply_ops cfg xs c; apply_ops cfg ys c' }"
  by (induction xs arbitrary: c) (auto cong: Option.bind_cong)

definition store_value :: "nat \<Rightarrow> LogContext \<Rightarrow> (bytes \<Rightarrow> bytes option) \<Rightarrow> LogContext option" where
  "store_value i c h =
     do { x \<leftarrow> fv_get (global_tags c) i; d \<leftarrow> h (tag_value x);
          g \<leftarrow> fv_set (global_tags c) i (x\<lparr>tag_value := d\<rparr>); Some (c\<lparr>global_tags := g\<rparr>) }"

text \<open>What the remaining statements of the thread will make of the context.\<close>

fun finish_change :: "config \<Rightarrow> tag_pc \<Rightarrow> LogContext \<Rightarrow> LogContext option" where
  "finish_change cfg (TCopy op v i) c = store_value i c (\<lambda>d. copy_str d v (BR_LOG_MAX_TAG_VAL_LEN cfg))"
| "finish_change cfg (TTerminate op i) c = store_value i c (\<lambda>d. store_byte d (BR_LOG_MAX_TAG_VAL_LEN cfg - 1) NUL)"
| "finish_change cfg (TPush op k v) c =
     do { x \<leftarrow> make_tag cfg k v; Some (c\<lparr>global_tags := snd (PushBack (global_tags c) x)\<rparr>) }"
| "finish_change cfg (TMove op i) c = do { g \<leftarrow> swap_remove (global_tags c) i; Some (c\<lparr>global_tags := g\<rparr>) }"
| "finish_change cfg (TPop op) c = Some (c\<lparr>global_tags := snd (PopBack (global_tags c))\<rparr>)"
| "finish_change cfg p c = Some c"

fun finish :: "config \<Rightarrow> tag_pc \<Rightarrow> LogContext \<Rightarrow> LogContext option" where
  "finish cfg (TSearch op i) c =
     do { hit \<leftarrow> find_key cfg (global_tags c) (op_key op) [i..<Size (global_tags c)];
          finish_change cfg (case hit of Some j \<Rightarrow> after_hit op j | None \<Rightarrow> after_miss op) c }"
| "finish cfg p c = finish_change cfg p c"

text \<open>The whole operation, at the beginning.\<close>

lemma finish_begin: "finish cfg (TSearch op 0) c = apply_op cfg op c"
  by (cases op; cases "find_key cfg (global_tags c) (op_key op) [0..<Size (global_tags c)]")
    (auto simp: SetGlobalTag_def RemoveGlobalTag_def store_value_def split: option.split)

text \<open>Each statement leaves less to do.\<close>

lemma finish_hit:
  assumes "i < Size (global_tags c)" and "fv_get (global_tags c) i = Some x"
    and "strncmp_eq (tag_key x) (op_key op) (BR_LOG_MAX_TAG_KEY_LEN cfg) = Some eq"
  shows "finish cfg (TSearch op i) c = (if eq then finish_change cfg (after_hit op i) c else finish cfg (TSearch op (Suc i)) c)"
  using assms by (simp add: upt_conv_Cons)

lemma finish_miss: "\<not> i < Size (global_tags c) \<Longrightarrow> finish cfg (TSearch op i) c = finish_change cfg (after_miss op) c"
  by simp

lemma finish_after [simp]: "finish cfg (after_hit op i) c = finish_change cfg (after_hit op i) c"
  "finish cfg (after_miss op) c = finish_change cfg (after_miss op) c"
  by (cases op; simp)+

lemma finish_copy:
  assumes "fv_get (global_tags c) i = Some x" and "strncpy (tag_value x) v (BR_LOG_MAX_TAG_VAL_LEN cfg - 1) = Some d"
    and "fv_set (global_tags c) i (x\<lparr>tag_value := d\<rparr>) = Some g"
  shows "finish cfg (TTerminate op i) (c\<lparr>global_tags := g\<rparr>) = finish cfg (TCopy op v i) c"
  using assms by (auto simp: store_value_def copy_str_def fv_get_def fv_set_def split: if_splits)

lemma finish_terminate:
  assumes "fv_get (global_tags c) i = Some x" and "store_byte (tag_value x) (BR_LOG_MAX_TAG_VAL_LEN cfg - 1) NUL = Some d"
    and "fv_set (global_tags c) i (x\<lparr>tag_value := d\<rparr>) = Some g"
  shows "finish cfg (TTerminate op i) c = Some (c\<lparr>global_tags := g\<rparr>)"
  using assms by (simp add: store_value_def)

lemma finish_move:
  assumes "i \<noteq> Size (global_tags c) - 1 \<Longrightarrow> fv_get (global_tags c) (Size (global_tags c) - 1) = Some x \<and> fv_set (global_tags c) i x = Some g"
    and "i = Size (global_tags c) - 1 \<Longrightarrow> g = global_tags c"
  shows "finish cfg (TMove op i) c = finish cfg (TPop op) (c\<lparr>global_tags := g\<rparr>)"
  using assms by (auto simp: swap_remove_def Let_def)

subsection \<open>The invariant\<close>

fun op_of :: "tag_pc \<Rightarrow> tag_op option" where
  "op_of (TSearch op i) = Some op"
| "op_of (TCopy op v i) = Some op"
| "op_of (TTerminate op i) = Some op"
| "op_of (TPush op k v) = Some op"
| "op_of (TMove op i) = Some op"
| "op_of (TPop op) = Some op"
| "op_of (TUnlock op) = Some op"
| "op_of _ = None"

fun reading :: "tag_pc \<Rightarrow> bool" where
  "reading (TRead arr0 i arr) = True"
| "reading (TReadEnd arr0 i arr) = True"
| "reading _ = False"

text \<open>A reader that has copied \<open>i\<close> tags of the context \<open>c\<close>.\<close>

fun read_ok :: "config \<Rightarrow> LogContext \<Rightarrow> tag_pc \<Rightarrow> bool" where
  "read_ok cfg c (TRead arr0 i arr) \<longleftrightarrow>
     FillTags_loop cfg (drop i (fv_list (global_tags c))) i arr = FillTags_loop cfg (fv_list (global_tags c)) 0 arr0"
| "read_ok cfg c (TReadEnd arr0 i arr) \<longleftrightarrow> FillTags_loop cfg (fv_list (global_tags c)) 0 arr0 = Some (i, arr)"
| "read_ok cfg c _ = True"

definition reads_ok :: "config \<Rightarrow> LogContext \<Rightarrow> tag_run \<Rightarrow> bool" where
  "reads_ok cfg c0 s \<longleftrightarrow> (\<forall>(n, arr0, i, arr)\<in>set (tag_reads s). n \<le> length (tag_ops s) \<and>
     (\<exists>c. apply_ops cfg (take n (tag_ops s)) c0 = Some c \<and> FillTags_loop cfg (fv_list (global_tags c)) 0 arr0 = Some (i, arr)))"

text \<open>\<open>c\<close> is the context after the operations that have released the lock.\<close>

definition tag_inv_at :: "config \<Rightarrow> LogContext \<Rightarrow> tag_run \<Rightarrow> bool" where
  "tag_inv_at cfg c s \<longleftrightarrow>
     (\<forall>t. lock_writer s = Some t \<longleftrightarrow> op_of (tag_pcs s t) \<noteq> None) \<and> (\<forall>t. t \<in> lock_readers s \<longleftrightarrow> reading (tag_pcs s t)) \<and>
     (lock_writer s = None \<longrightarrow> ctx_now s = c) \<and> (lock_writer s \<noteq> None \<longrightarrow> lock_readers s = {}) \<and>
     (\<forall>t op. op_of (tag_pcs s t) = Some op \<longrightarrow> finish cfg (tag_pcs s t) (ctx_now s) = apply_op cfg op c) \<and>
     (\<forall>t. read_ok cfg c (tag_pcs s t))"

definition tag_inv :: "config \<Rightarrow> LogContext \<Rightarrow> tag_run \<Rightarrow> bool" where
  "tag_inv cfg c0 s \<longleftrightarrow> reads_ok cfg c0 s \<and> (\<exists>c. apply_ops cfg (tag_ops s) c0 = Some c \<and> tag_inv_at cfg c s)"

lemma op_of_after [simp]: "op_of (after_hit op i) = Some op" "op_of (after_miss op) = Some op"
  by (cases op; simp)+

lemma op_not_reading: "op_of p \<noteq> None \<Longrightarrow> \<not> reading p \<and> read_ok cfg c p"
  by (cases p) simp_all

lemma tag_inv_writer:
  assumes "tag_inv_at cfg c s" and "op_of (tag_pcs s t) = Some op"
  shows "lock_writer s = Some t" and "lock_readers s = {}" and "finish cfg (tag_pcs s t) (ctx_now s) = apply_op cfg op c"
    and "u \<noteq> t \<Longrightarrow> op_of (tag_pcs s u) = None"
  using assms unfolding tag_inv_at_def by (metis option.distinct(1) option.inject)+

lemma tag_inv_reader: "tag_inv_at cfg c s \<Longrightarrow> read_ok cfg c (tag_pcs s t)"
  by (simp add: tag_inv_at_def)

lemma tag_inv_reader_now: "tag_inv_at cfg c s \<Longrightarrow> reading (tag_pcs s t) \<Longrightarrow> ctx_now s = c"
  unfolding tag_inv_at_def by blast

text \<open>A statement of the holder of the exclusive lock.\<close>

lemma tag_inv_write:
  assumes inv: "tag_inv_at cfg c s" and op: "op_of (tag_pcs s t) = Some op" "op_of p = Some op"
    and fin: "finish cfg p now = finish cfg (tag_pcs s t) (ctx_now s)"
  shows "tag_inv_at cfg c (s\<lparr>ctx_now := now, tag_pcs := (tag_pcs s)(t := p)\<rparr>)"
proof -
  note w = tag_inv_writer(1,2) [OF inv op(1)] and other = tag_inv_writer(4) [OF inv op(1)]
  have "\<not> reading p" "read_ok cfg c p" using op_not_reading op(2) by auto
  with inv op fin w other show ?thesis unfolding tag_inv_at_def by auto
qed

lemma tag_inv_read:
  assumes inv: "tag_inv_at cfg c s" and r: "reading (tag_pcs s t)" "reading p" "read_ok cfg c p"
  shows "tag_inv_at cfg c (tag_goto s t p)"
proof -
  have "op_of (tag_pcs s t) = None" "op_of p = None" using r(1,2) by (cases "tag_pcs s t"; cases p; simp)+
  with inv r show ?thesis unfolding tag_inv_at_def by auto
qed

lemma read_ok_step:
  assumes "read_ok cfg c (TRead arr0 i arr)" and "i < length (fv_list (global_tags c))" and "i < BR_LOG_MAX_TAGS cfg" and "i < length arr"
  shows "read_ok cfg c (TRead arr0 (Suc i) (arr[i := fv_list (global_tags c) ! i]))"
  using assms by (simp add: Cons_nth_drop_Suc [symmetric])

lemma read_ok_end:
  assumes "read_ok cfg c (TRead arr0 i arr)" and "\<not> (i < length (fv_list (global_tags c)) \<and> i < BR_LOG_MAX_TAGS cfg)"
  shows "read_ok cfg c (TReadEnd arr0 i arr)"
proof (cases "i < length (fv_list (global_tags c))")
  case True
  with assms show ?thesis by (simp add: Cons_nth_drop_Suc [symmetric])
qed (use assms in simp)

lemma tag_step_inv_at:
  assumes "tag_step cfg t s s'" and inv: "tag_inv_at cfg c s" and same: "tag_ops s' = tag_ops s" "tag_reads s' = tag_reads s"
  shows "tag_inv_at cfg c s'"
  using assms(1)
proof cases
  case (lock_unique op)
  with inv finish_begin [of cfg op c] show ?thesis unfolding tag_inv_at_def by auto
next
  case (search_hit op i x)
  then show ?thesis using tag_inv_write [OF inv, of t op "after_hit op i" "ctx_now s"] finish_hit [OF search_hit(3-5)] by simp
next
  case (search_next op i x)
  then show ?thesis using tag_inv_write [OF inv, of t op "TSearch op (Suc i)" "ctx_now s"] finish_hit [OF search_next(3-5)]
    by (simp del: finish.simps)
next
  case (search_end op i)
  then show ?thesis using tag_inv_write [OF inv, of t op "after_miss op" "ctx_now s"] finish_miss [OF search_end(3)] by simp
next
  case (copy_value op v i x d g)
  then show ?thesis using tag_inv_write [OF inv, of t op "TTerminate op i" "(ctx_now s)\<lparr>global_tags := g\<rparr>"]
      finish_copy [OF copy_value(3-5)] by (simp del: finish.simps)
next
  case (terminate op i x d g)
  then show ?thesis using tag_inv_write [OF inv, of t op "TUnlock op" "(ctx_now s)\<lparr>global_tags := g\<rparr>"]
      finish_terminate [OF terminate(3-5)] by simp
next
  case (push_tag op k v x)
  then show ?thesis using tag_inv_write [OF inv, of t op "TUnlock op" "(ctx_now s)\<lparr>global_tags := snd (PushBack (tags_now s) x)\<rparr>"] by simp
next
  case (move_last op i x g)
  then show ?thesis using tag_inv_write [OF inv, of t op "TPop op" "(ctx_now s)\<lparr>global_tags := g\<rparr>"]
      finish_move [of i "ctx_now s" x g cfg op] by (simp del: finish.simps)
next
  case (is_last op i)
  then show ?thesis using tag_inv_write [OF inv, of t op "TPop op" "ctx_now s"]
      finish_move [of i "ctx_now s" undefined "tags_now s" cfg op] by (simp del: finish.simps)
next
  case (pop_back op)
  then show ?thesis using tag_inv_write [OF inv, of t op "TUnlock op" "(ctx_now s)\<lparr>global_tags := snd (PopBack (tags_now s))\<rparr>"] by simp
next
  case (lock_shared arr)
  with inv show ?thesis unfolding tag_inv_at_def by auto
next
  case (read_end arr0 i arr)
  then have "ctx_now s = c" "read_ok cfg c (TRead arr0 i arr)"
    using tag_inv_reader_now [OF inv, of t] tag_inv_reader [OF inv, of t] by simp_all
  then show ?thesis using read_end tag_inv_read [OF inv, of t] read_ok_end by simp
next
  case (read_tag arr0 i arr)
  then have "ctx_now s = c" "read_ok cfg c (TRead arr0 i arr)"
    using tag_inv_reader_now [OF inv, of t] tag_inv_reader [OF inv, of t] by simp_all
  then show ?thesis using read_tag tag_inv_read [OF inv, of t] read_ok_step by (simp del: read_ok.simps)
qed (use same in auto)

lemma tag_step_inv:
  assumes step: "tag_step cfg t s s'" and inv: "tag_inv cfg c0 s"
  shows "tag_inv cfg c0 s'"
proof -
  obtain c where c: "apply_ops cfg (tag_ops s) c0 = Some c" "tag_inv_at cfg c s" and reads: "reads_ok cfg c0 s"
    using inv by (auto simp: tag_inv_def)
  from step show ?thesis
  proof cases
    case (unlock_unique op)
    then have op: "op_of (tag_pcs s t) = Some op" by simp
    note w = tag_inv_writer [OF c(2) op]
    from w(3) have fin: "apply_op cfg op c = Some (ctx_now s)" using unlock_unique by simp
    have "\<not> reading (tag_pcs s u)" for u using w(2) c(2) unfolding tag_inv_at_def by blast
    then have "read_ok cfg (ctx_now s) (tag_pcs s u)" for u by (metis read_ok.elims(3) reading.simps(1,2))
    then have "tag_inv_at cfg (ctx_now s) s'" using unlock_unique c(2) w unfolding tag_inv_at_def by auto
    moreover have "apply_ops cfg (tag_ops s') c0 = Some (ctx_now s)" using unlock_unique(1) c(1) fin by (simp add: apply_ops_append)
    moreover have "reads_ok cfg c0 s'" using unlock_unique(1) reads by (auto simp: reads_ok_def)
    ultimately show ?thesis by (auto simp: tag_inv_def)
  next
    case (unlock_shared arr0 i arr)
    then have "FillTags_loop cfg (fv_list (global_tags c)) 0 arr0 = Some (i, arr)"
      using tag_inv_reader [OF c(2), of t] by simp
    then have "reads_ok cfg c0 s'" using unlock_shared(1) reads c(1) by (auto simp: reads_ok_def)
    moreover have "tag_inv_at cfg c s'" using unlock_shared c(2) unfolding tag_inv_at_def by auto
    ultimately show ?thesis using unlock_shared(1) c(1) by (auto simp: tag_inv_def)
  qed (use c reads tag_step_inv_at [OF step c(2)] in \<open>auto simp: tag_inv_def reads_ok_def\<close>)
qed

subsection \<open>Every operation returns\<close>

fun pc_wf :: "config \<Rightarrow> tag_pc \<Rightarrow> bool" where
  "pc_wf cfg (TRead arr0 i arr) \<longleftrightarrow> length arr = BR_LOG_MAX_TAGS cfg"
| "pc_wf cfg p \<longleftrightarrow> (case op_of p of None \<Rightarrow> True | Some op \<Rightarrow> op_terminated op)"

definition tag_wf :: "config \<Rightarrow> tag_run \<Rightarrow> bool" where
  "tag_wf cfg s \<longleftrightarrow> (\<forall>t. pc_wf cfg (tag_pcs s t)) \<and> list_all op_terminated (tag_ops s)"

lemma pc_wf_after [simp]: "pc_wf cfg (after_hit op i) = op_terminated op" "pc_wf cfg (after_miss op) = op_terminated op"
  by (cases op; simp)+

lemma pc_wf_op: "pc_wf cfg p \<Longrightarrow> op_of p = Some op \<Longrightarrow> op_terminated op"
  by (cases p) simp_all

lemma tag_step_wf:
  assumes "tag_step cfg t s s'" and wf: "tag_wf cfg s"
  shows "tag_wf cfg s'"
proof -
  have "pc_wf cfg (tag_pcs s t)" using wf by (simp add: tag_wf_def)
  with assms show ?thesis by cases (auto simp: tag_wf_def)
qed

lemma apply_op_total:
  assumes "valid_config cfg" and "ctx_wf cfg c" and "op_terminated op"
  shows "\<exists>c'. apply_op cfg op c = Some c' \<and> ctx_wf cfg c'"
  using assms SetGlobalTag_wf [OF assms(1,2)] RemoveGlobalTag_wf [OF assms(2)] by (cases op) (auto simp: wf_ptr_def)

lemma apply_ops_wf:
  assumes "valid_config cfg"
  shows "list_all op_terminated xs \<Longrightarrow> ctx_wf cfg c0 \<Longrightarrow> apply_ops cfg xs c0 = Some c \<Longrightarrow> ctx_wf cfg c"
proof (induction xs arbitrary: c0)
  case (Cons x xs)
  then show ?case using apply_op_total [OF assms, of c0 x] by auto
qed simp

text \<open>A thread that still has a defined result to reach can take its next statement.\<close>

lemma writer_enabled:
  assumes "op_of (tag_pcs s t) = Some op" and fin: "finish cfg (tag_pcs s t) (ctx_now s) = Some c"
  shows "\<exists>s'. tag_step cfg t s s'"
proof (cases "tag_pcs s t")
  case (TSearch op i)
  show ?thesis
  proof (cases "i < Size (tags_now s)")
    case True
    then obtain x eq where x: "fv_get (tags_now s) i = Some x"
      "strncmp_eq (tag_key x) (op_key op) (BR_LOG_MAX_TAG_KEY_LEN cfg) = Some eq"
      using fin TSearch by (auto simp: upt_conv_Cons split: Option.bind_splits)
    then show ?thesis using tag_step.search_hit [OF TSearch True x(1), of cfg] tag_step.search_next [OF TSearch True x(1), of cfg]
      by (cases eq) auto
  qed (use tag_step.search_end [OF TSearch] in blast)
next
  case (TCopy op v i)
  then obtain x d b where x: "fv_get (tags_now s) i = Some x" "strncpy (tag_value x) v (BR_LOG_MAX_TAG_VAL_LEN cfg - 1) = Some d"
    "fv_set (tags_now s) i (x\<lparr>tag_value := b\<rparr>) \<noteq> None"
    using fin by (auto simp: store_value_def copy_str_def split: Option.bind_splits)
  then obtain g where "fv_set (tags_now s) i (x\<lparr>tag_value := d\<rparr>) = Some g" by (auto simp: fv_set_def split: if_splits)
  then show ?thesis using tag_step.copy_value [OF TCopy x(1,2)] by blast
next
  case (TTerminate op i)
  then obtain x d g where "fv_get (tags_now s) i = Some x"
    "store_byte (tag_value x) (BR_LOG_MAX_TAG_VAL_LEN cfg - 1) NUL = Some d" "fv_set (tags_now s) i (x\<lparr>tag_value := d\<rparr>) = Some g"
    using fin by (auto simp: store_value_def split: Option.bind_splits)
  then show ?thesis using tag_step.terminate [OF TTerminate] by blast
next
  case (TPush op k v)
  then show ?thesis using fin tag_step.push_tag [OF TPush] by (auto split: Option.bind_splits)
next
  case (TMove op i)
  then show ?thesis using fin tag_step.move_last [OF TMove] tag_step.is_last [OF TMove]
    by (cases "i = Size (tags_now s) - 1") (auto simp: swap_remove_def Let_def split: Option.bind_splits)
next
  case (TPop op)
  then show ?thesis by (blast intro: tag_step.pop_back)
next
  case (TUnlock op)
  then show ?thesis by (blast intro: tag_step.unlock_unique)
qed (use assms(1) in simp_all)

lemma reader_enabled: "tag_wf cfg s \<Longrightarrow> reading (tag_pcs s t) \<Longrightarrow> \<exists>s'. tag_step cfg t s s'"
proof (cases "tag_pcs s t")
  case (TRead arr0 i arr)
  assume "tag_wf cfg s"
  then have "pc_wf cfg (tag_pcs s t)" by (simp add: tag_wf_def)
  with TRead have "length arr = BR_LOG_MAX_TAGS cfg" by simp
  then show ?thesis using tag_step.read_end [OF TRead] tag_step.read_tag [OF TRead] by metis
next
  case (TReadEnd arr0 i arr)
  then show ?thesis by (blast intro: tag_step.unlock_shared)
qed simp_all

abbreviation tag_runs :: "config \<Rightarrow> tag_run \<Rightarrow> tag_run \<Rightarrow> bool" where
  "tag_runs cfg \<equiv> (\<lambda>s s'. \<exists>t. tag_step cfg t s s')\<^sup>*\<^sup>*"

lemma tag_runs_step: "tag_step cfg t s s' \<Longrightarrow> tag_runs cfg s' s'' \<Longrightarrow> tag_runs cfg s s''"
  by (rule converse_rtranclp_into_rtranclp) blast+

lemma tag_reach:
  assumes "tag_runs cfg (tag_run_init c0) s"
  shows "tag_inv cfg c0 s" and "tag_wf cfg s"
proof -
  have "tag_inv cfg c0 s \<and> tag_wf cfg s"
    using assms
  proof (induction rule: rtranclp_induct)
    case base
    show ?case by (simp add: tag_run_init_def tag_inv_def tag_inv_at_def reads_ok_def tag_wf_def)
  qed (use tag_step_inv tag_step_wf in blast)
  then show "tag_inv cfg c0 s" and "tag_wf cfg s" by simp_all
qed

subsection \<open>Properties\<close>

text \<open>
  C28: the operations on the global tags are atomic. Under every interleaving of the statements of \<open>SetGlobalTag\<close>,
  \<open>RemoveGlobalTag\<close> and \<open>FillTags\<close> under the shared mutex, the context outside a writer's critical section is what the
  completed operations make of the initial one when executed one after the other, in the order of their releases; every
  \<open>FillTags\<close> has copied exactly the tags of one moment between two operations; and no thread that holds the lock can
  run into undefined behaviour or get stuck.
\<close>

theorem context_operations_atomic:
  assumes "tag_runs cfg (tag_run_init c0) s" and "valid_config cfg" and "ctx_wf cfg c0"
  shows "(\<exists>c. apply_ops cfg (tag_ops s) c0 = Some c \<and> ctx_wf cfg c \<and> (lock_writer s = None \<longrightarrow> ctx_now s = c)) \<and>
    (\<forall>(n, arr0, i, arr)\<in>set (tag_reads s). n \<le> length (tag_ops s) \<and>
       (\<exists>c. apply_ops cfg (take n (tag_ops s)) c0 = Some c \<and>
            FillTags_loop cfg (fv_list (global_tags c)) 0 arr0 = Some (i, arr))) \<and>
    (\<forall>t. tag_pcs s t \<noteq> TOut \<longrightarrow> (\<exists>s'. tag_step cfg t s s'))"
proof -
  note inv = tag_reach [OF assms(1)]
  obtain c where c: "apply_ops cfg (tag_ops s) c0 = Some c" "tag_inv_at cfg c s" and reads: "reads_ok cfg c0 s"
    using inv(1) by (auto simp: tag_inv_def)
  have wf: "ctx_wf cfg c" using apply_ops_wf [OF assms(2) _ assms(3) c(1)] inv(2) by (simp add: tag_wf_def)
  have "\<exists>s'. tag_step cfg t s s'" if out: "tag_pcs s t \<noteq> TOut" for t
  proof (cases "op_of (tag_pcs s t)")
    case None
    with out have "reading (tag_pcs s t)" by (cases "tag_pcs s t") simp_all
    then show ?thesis by (rule reader_enabled [OF inv(2)])
  next
    case (Some op)
    then obtain c' where "apply_op cfg op c = Some c'" using apply_op_total [OF assms(2) wf] pc_wf_op [OF _ Some, of cfg] inv(2) by (auto simp: tag_wf_def)
    then show ?thesis using writer_enabled [OF Some] tag_inv_writer(3) [OF c(2) Some] by simp
  qed
  moreover have "lock_writer s = None \<longrightarrow> ctx_now s = c" using c(2) by (simp add: tag_inv_at_def)
  ultimately show ?thesis using c(1) wf reads by (auto simp: reads_ok_def)
qed

text \<open>A thread sets a tag; another is about to copy the tags.\<close>

theorem context_operations_atomic_witness:
  "\<exists>s. tag_runs (platform_config False) (tag_run_init (LogContext_init (platform_config False))) s \<and>
     tag_ops s = [SetTag (c_lit ''env'') (c_lit ''dev'')] \<and> reading (tag_pcs s 2) \<and>
     SetGlobalTag (platform_config False) (Some (c_lit ''env'')) (Some (c_lit ''dev'')) (LogContext_init (platform_config False)) = Some (ctx_now s)"
proof -
  let ?cfg = "platform_config False" and ?op = "SetTag (c_lit ''env'') (c_lit ''dev'')"
  let ?c = "LogContext_init ?cfg"
  let ?s1 = "(tag_goto (tag_run_init ?c) 1 (TSearch ?op 0))\<lparr>lock_writer := Some 1\<rparr>"
  let ?s2 = "tag_goto ?s1 1 (TPush ?op (c_lit ''env'') (c_lit ''dev''))"
  have st1: "tag_step ?cfg 1 (tag_run_init ?c) ?s1"
    by (rule tag_step.lock_unique) (simp_all add: tag_run_init_def terminated_c_lit)
  have st2: "tag_step ?cfg 1 ?s1 ?s2"
    using tag_step.search_end [of ?s1 1 ?op 0 ?cfg]
    by (simp add: tag_run_init_def LogContext_init_def Size_def fv_init_def)
  obtain x where "make_tag ?cfg (c_lit ''env'') (c_lit ''dev'') = Some x"
    using make_tag_ok [OF valid_platform_config [of False] terminated_c_lit terminated_c_lit] by blast
  then have st3: "tag_step ?cfg 1 ?s2 (tag_put ?s2 1 (TUnlock ?op) (snd (PushBack (tags_now ?s2) x)))" (is "tag_step _ _ _ ?s3")
    by (intro tag_step.push_tag) simp_all
  have st4: "tag_step ?cfg 1 ?s3 ((tag_goto ?s3 1 TOut)\<lparr>lock_writer := None, tag_ops := tag_ops ?s3 @ [?op]\<rparr>)" (is "tag_step _ _ _ ?s4")
    by (rule tag_step.unlock_unique) simp
  have st5: "tag_step ?cfg 2 ?s4 ((tag_goto ?s4 2 (TRead (replicate (BR_LOG_MAX_TAGS ?cfg) (zero_tag ?cfg)) 0
      (replicate (BR_LOG_MAX_TAGS ?cfg) (zero_tag ?cfg))))\<lparr>lock_readers := insert 2 (lock_readers ?s4)\<rparr>)" (is "tag_step _ _ _ ?s5")
    by (rule tag_step.lock_shared) (simp_all add: tag_run_init_def)
  have run: "tag_runs ?cfg (tag_run_init ?c) ?s5"
    by (rule tag_runs_step [OF st1 tag_runs_step [OF st2 tag_runs_step [OF st3 tag_runs_step [OF st4 tag_runs_step [OF st5]]]]]) simp
  have f: "tag_ops ?s5 = [?op]" "lock_writer ?s5 = None" "reading (tag_pcs ?s5 2)" by (simp_all add: tag_run_init_def)
  from context_operations_atomic [OF run valid_platform_config ctx_init_wf(1) [OF valid_platform_config]] f(1,2)
  have "SetGlobalTag ?cfg (Some (c_lit ''env'')) (Some (c_lit ''dev'')) ?c = Some (ctx_now ?s5)" by (auto split: Option.bind_splits)
  with run f(1,3) show ?thesis by blast
qed

end
