(* ===== verification/Sink_Interface.thy ===== *)
theory Sink_Interface
  imports Pattern_Formatter Json_Formatter
begin

text \<open>
  The base class of the sinks (\<open>sink_interface.hpp\<close>): the formatter a sink owns, its minimum level and
  its line buffer. The virtual call \<open>formatter_->Format\<close> is a case distinction over the two formatters of
  the library. Sinks extend the record \<open>sink_base\<close>, as their classes extend \<open>ILogSink\<close>.
\<close>

subsection \<open>Formatters\<close>

datatype IFormatter = Pattern PatternFormatter | Json bool

definition IFormatter_Format ::
  "localtime \<Rightarrow> bytes \<Rightarrow> IFormatter \<Rightarrow> LogEntry \<Rightarrow> bytes \<Rightarrow> nat \<Rightarrow> (bytes \<times> nat) option" where
  "IFormatter_Format lt junk f e buf n = (case f of
     Pattern pf \<Rightarrow> PatternFormatter_Format lt junk pf e buf n
   | Json pretty \<Rightarrow> JsonFormatter_Format lt junk pretty e buf n)"

definition formatter_out :: "localtime \<Rightarrow> IFormatter \<Rightarrow> LogEntry \<Rightarrow> nat \<Rightarrow> string" where
  "formatter_out lt f e n = (case f of Pattern pf \<Rightarrow> pattern_out lt pf e n | Json pretty \<Rightarrow> json_out lt pretty e n)"

interpretation any_fmt: formatter
  "\<lambda>e. wf_entry cfg e \<and> localtime_ok lt \<and> length junk = 128"
  "IFormatter_Format lt junk f" "formatter_out lt f" for cfg lt junk f
proof (cases f)
  case (Pattern pf)
  then show "formatter (\<lambda>e. wf_entry cfg e \<and> localtime_ok lt \<and> length junk = 128)
      (IFormatter_Format lt junk f) (formatter_out lt f)"
    using pattern_fmt.formatter_axioms [of cfg lt junk pf]
    by (simp add: formatter_def IFormatter_Format_def formatter_out_def)
next
  case (Json pretty)
  then show "formatter (\<lambda>e. wf_entry cfg e \<and> localtime_ok lt \<and> length junk = 128)
      (IFormatter_Format lt junk f) (formatter_out lt f)"
    using json_fmt.formatter_axioms [of cfg lt junk pretty]
    by (simp add: formatter_def IFormatter_Format_def formatter_out_def)
qed

subsection \<open>The sink base class\<close>

record sink_base =
  sink_formatter :: "IFormatter option"
  min_level :: LogLevel
  format_buf :: bytes

definition SetFormatter :: "IFormatter \<Rightarrow> 'a sink_base_scheme \<Rightarrow> 'a sink_base_scheme" where
  "SetFormatter f s = s\<lparr>sink_formatter := Some f\<rparr>"

definition sink_SetLevel :: "LogLevel \<Rightarrow> 'a sink_base_scheme \<Rightarrow> 'a sink_base_scheme" where
  "sink_SetLevel l s = s\<lparr>min_level := l\<rparr>"

definition sink_Level :: "'a sink_base_scheme \<Rightarrow> LogLevel" where
  "sink_Level s = min_level s"

definition ShouldLog :: "'a sink_base_scheme \<Rightarrow> LogLevel \<Rightarrow> bool" where
  "ShouldLog s entry_level \<longleftrightarrow> min_level s \<le> entry_level"

definition DoFormat ::
  "localtime \<Rightarrow> bytes \<Rightarrow> LogEntry \<Rightarrow> 'a sink_base_scheme \<Rightarrow> ('a sink_base_scheme \<times> nat) option" where
  "DoFormat lt junk e s = (case sink_formatter s of
     Some f \<Rightarrow> do { (buf, len) \<leftarrow> IFormatter_Format lt junk f e (format_buf s) 2048;
                    Some (s\<lparr>format_buf := buf\<rparr>, len) }
   | None \<Rightarrow> Some (s, 0))"

text \<open>\<open>if (!formatter_) formatter_ = make_unique<PatternFormatter>(pattern, color)\<close>.\<close>

definition ensure_formatter :: "string \<Rightarrow> bool \<Rightarrow> 'a sink_base_scheme \<Rightarrow> 'a sink_base_scheme" where
  "ensure_formatter p color s =
     (if sink_formatter s = None then s\<lparr>sink_formatter := Some (Pattern (PatternFormatter_init p color))\<rparr> else s)"

definition sink_wf :: "'a sink_base_scheme \<Rightarrow> bool" where
  "sink_wf s \<longleftrightarrow> length (format_buf s) = 2048"

text \<open>The line a sink makes of an entry, given the pattern it falls back to.\<close>

definition sink_line :: "localtime \<Rightarrow> string \<Rightarrow> bool \<Rightarrow> 'a sink_base_scheme \<Rightarrow> LogEntry \<Rightarrow> string" where
  "sink_line lt p color s e = formatter_out lt
     (case sink_formatter s of Some f \<Rightarrow> f | None \<Rightarrow> Pattern (PatternFormatter_init p color)) e 2048"

definition entry_ok :: "config \<Rightarrow> localtime \<Rightarrow> bytes \<Rightarrow> LogEntry \<Rightarrow> bool" where
  "entry_ok cfg lt junk e \<longleftrightarrow> wf_entry cfg e \<and> localtime_ok lt \<and> length junk = 128"

lemma ensure_formatter_fields [simp]:
  "min_level (ensure_formatter p color s) = min_level s" "format_buf (ensure_formatter p color s) = format_buf s"
  "sink_wf (ensure_formatter p color s) = sink_wf s" "sink_formatter (ensure_formatter p color s) \<noteq> None"
  by (auto simp: ensure_formatter_def sink_wf_def)

text \<open>
  Formatting into the line buffer stores the line and its length, and changes nothing else of the sink.
\<close>

lemma DoFormat_out:
  assumes "entry_ok cfg lt junk e" "sink_wf s" "sink_formatter s = Some f"
  shows "\<exists>buf. DoFormat lt junk e s = Some (s\<lparr>format_buf := buf\<rparr>, length (formatter_out lt f e 2048)) \<and>
    length buf = 2048 \<and> take (length (formatter_out lt f e 2048)) buf = formatter_out lt f e 2048"
proof -
  obtain buf where "IFormatter_Format lt junk f e (format_buf s) 2048 = Some (buf, length (formatter_out lt f e 2048))"
    "holds_text 2048 (format_buf s) (formatter_out lt f e 2048) buf"
    using any_fmt.fmt_some [of cfg e lt junk 2048 "format_buf s" f] assms by (auto simp: entry_ok_def sink_wf_def)
  with assms show ?thesis
    by (intro exI [of _ buf]) (simp add: DoFormat_def holds_text_def sink_wf_def)
qed

lemma ensure_formatter_line:
  "\<exists>f. sink_formatter (ensure_formatter p color s) = Some f \<and> sink_line lt p color s e = formatter_out lt f e 2048"
  by (cases "sink_formatter s") (auto simp: ensure_formatter_def sink_line_def)

lemma DoFormat_line:
  assumes "entry_ok cfg lt junk e" "sink_wf s"
  shows "\<exists>buf. DoFormat lt junk e (ensure_formatter p color s) =
      Some ((ensure_formatter p color s)\<lparr>format_buf := buf\<rparr>, length (sink_line lt p color s e)) \<and>
    length buf = 2048 \<and> take (length (sink_line lt p color s e)) buf = sink_line lt p color s e"
  using ensure_formatter_line [of p color s lt e] DoFormat_out [OF assms(1), of "ensure_formatter p color s"] assms(2)
  by auto

lemma sink_line_ensure:
  "sink_formatter s' = sink_formatter (ensure_formatter p color s) \<Longrightarrow> sink_line lt p color s' e = sink_line lt p color s e"
  by (auto simp: sink_line_def ensure_formatter_def)

text \<open>What a sink that writes lines adds for an entry.\<close>

definition sink_text :: "localtime \<Rightarrow> string \<Rightarrow> bool \<Rightarrow> 'a sink_base_scheme \<Rightarrow> LogEntry \<Rightarrow> string" where
  "sink_text lt p color s e =
     (if ShouldLog s (level e) \<and> sink_line lt p color s e \<noteq> [] then sink_line lt p color s e @ [CHR 0x0A] else [])"

lemma sink_line_short:
  assumes "entry_ok cfg lt junk e"
  shows "length (sink_line lt p color s e) < 2048"
  using any_fmt.fmt_some [of cfg e lt junk 2048 "replicate 2048 NUL"] assms
  by (auto simp: sink_line_def entry_ok_def holds_text_def)

lemma pattern_nonempty_line:
  "sink_formatter s = None \<Longrightarrow> sink_line lt p color s e = take 2047 (pattern_text (field_text lt color e) p)"
  by (simp add: sink_line_def formatter_out_def pattern_out_init)

end
