(* ===== verification/Posix.thy ===== *)
theory Posix
  imports Timestamp
begin

text \<open>
  The operating system as the file sinks see it. The system calls are not code of the repository: they are
  the fields of the record \<open>posix\<close>, functions on an unspecified system state \<open>'w\<close>, and every definition
  that performs a call takes the record as an argument. What the theorems rely on is the predicate
  \<open>fs_laws\<close>: the documented effect of the calls on the files and the open descriptors when no device error,
  full disk or missing permission intervenes. \<open>mem_posix\<close> is a concrete system that satisfies it, for the
  witnesses.
\<close>

record 'w posix =
  px_open_append :: "string \<Rightarrow> 'w \<Rightarrow> int \<times> 'w"
  px_open_trunc :: "string \<Rightarrow> 'w \<Rightarrow> int \<times> 'w"
  px_open_error :: "string \<Rightarrow> 'w \<Rightarrow> 'w"
  px_fstat_size :: "int \<Rightarrow> 'w \<Rightarrow> nat option"
  px_write :: "int \<Rightarrow> bytes \<Rightarrow> 'w \<Rightarrow> int \<times> 'w"
  px_close :: "int \<Rightarrow> 'w \<Rightarrow> 'w"
  px_fsync :: "int \<Rightarrow> 'w \<Rightarrow> 'w"
  px_fdatasync :: "int \<Rightarrow> 'w \<Rightarrow> 'w"
  px_remove :: "string \<Rightarrow> 'w \<Rightarrow> 'w"
  px_rename :: "string \<Rightarrow> string \<Rightarrow> 'w \<Rightarrow> 'w"
  px_mkdir :: "string \<Rightarrow> 'w \<Rightarrow> 'w"
  px_readdir :: "string \<Rightarrow> 'w \<Rightarrow> string list option"
  px_stat_mtime :: "string \<Rightarrow> 'w \<Rightarrow> int option"
  px_time :: "'w \<Rightarrow> int \<times> 'w"

text \<open>
  \<open>px_open_append\<close> and \<open>px_open_trunc\<close> are \<open>open\<close> with \<open>O_WRONLY | O_CREAT\<close> and \<open>O_APPEND\<close> or
  \<open>O_TRUNC\<close>, \<open>px_open_error\<close> the message the rotating sink prints when it fails, \<open>px_fstat_size\<close> the
  \<open>st_size\<close> of \<open>fstat\<close>, \<open>px_readdir\<close> the names between \<open>opendir\<close> and \<open>closedir\<close>,
  \<open>px_stat_mtime\<close> the \<open>st_mtime\<close> of \<open>stat\<close>. \<open>px_remove\<close> also stands for \<open>unlink\<close>. Each
  call of \<open>time\<close> may see a later clock.
\<close>

subsection \<open>The laws\<close>

text \<open>\<open>files w\<close> maps the existing paths to their contents, \<open>fds w\<close> the open descriptors to their paths.\<close>

type_synonym 'w fs_view = "('w \<Rightarrow> string \<Rightarrow> bytes option) \<times> ('w \<Rightarrow> int \<Rightarrow> string option)"

text \<open>The bytes of a file, none when it does not exist.\<close>

definition file_text :: "bytes option \<Rightarrow> bytes" where
  "file_text f = (case f of None \<Rightarrow> [] | Some c \<Rightarrow> c)"

definition open_law :: "'w posix \<Rightarrow> 'w fs_view \<Rightarrow> bool" where
  "open_law px v \<longleftrightarrow> (case v of (files, fds) \<Rightarrow> \<forall>p w.
     let (fd, w') = px_open_append px p w in
       0 \<le> fd \<and> fds w fd = None \<and> fds w' = (fds w)(fd \<mapsto> p) \<and>
       files w' = (files w)(p \<mapsto> (case files w p of None \<Rightarrow> [] | Some c \<Rightarrow> c)))"

definition trunc_law :: "'w posix \<Rightarrow> 'w fs_view \<Rightarrow> bool" where
  "trunc_law px v \<longleftrightarrow> (case v of (files, fds) \<Rightarrow> \<forall>p w.
     let (fd, w') = px_open_trunc px p w in
       0 \<le> fd \<and> fds w fd = None \<and> fds w' = (fds w)(fd \<mapsto> p) \<and> files w' = (files w)(p \<mapsto> []))"

definition fstat_law :: "'w posix \<Rightarrow> 'w fs_view \<Rightarrow> bool" where
  "fstat_law px v \<longleftrightarrow> (case v of (files, fds) \<Rightarrow> \<forall>fd p c w.
     fds w fd = Some p \<longrightarrow> files w p = Some c \<longrightarrow> px_fstat_size px fd w = Some (length c))"

definition write_law :: "'w posix \<Rightarrow> 'w fs_view \<Rightarrow> bool" where
  "write_law px v \<longleftrightarrow> (case v of (files, fds) \<Rightarrow> \<forall>fd p c d w.
     fds w fd = Some p \<longrightarrow> files w p = Some c \<longrightarrow>
     (let (n, w') = px_write px fd d w in
        n = int (length d) \<and> fds w' = fds w \<and> files w' = (files w)(p \<mapsto> c @ d)))"

definition close_law :: "'w posix \<Rightarrow> 'w fs_view \<Rightarrow> bool" where
  "close_law px v \<longleftrightarrow> (case v of (files, fds) \<Rightarrow> \<forall>fd w.
     files (px_close px fd w) = files w \<and> fds (px_close px fd w) = (fds w)(fd := None) \<and>
     files (px_fsync px fd w) = files w \<and> fds (px_fsync px fd w) = fds w \<and>
     files (px_fdatasync px fd w) = files w \<and> fds (px_fdatasync px fd w) = fds w)"

text \<open>Removing and renaming, stated for paths that no descriptor of the sink has open.\<close>

definition rename_law :: "'w posix \<Rightarrow> 'w fs_view \<Rightarrow> bool" where
  "rename_law px v \<longleftrightarrow> (case v of (files, fds) \<Rightarrow>
     (\<forall>p w. p \<notin> ran (fds w) \<longrightarrow> files (px_remove px p w) = (files w)(p := None) \<and> fds (px_remove px p w) = fds w) \<and>
     (\<forall>p q w. p \<notin> ran (fds w) \<longrightarrow> q \<notin> ran (fds w) \<longrightarrow> p \<noteq> q \<longrightarrow>
        files (px_rename px p q w) = (case files w p of None \<Rightarrow> files w | Some c \<Rightarrow> (files w)(q \<mapsto> c, p := None)) \<and>
        fds (px_rename px p q w) = fds w))"

definition time_law :: "'w posix \<Rightarrow> 'w fs_view \<Rightarrow> bool" where
  "time_law px v \<longleftrightarrow> (case v of (files, fds) \<Rightarrow> \<forall>w. files (snd (px_time px w)) = files w \<and> fds (snd (px_time px w)) = fds w)"

definition fs_laws :: "'w posix \<Rightarrow> 'w fs_view \<Rightarrow> bool" where
  "fs_laws px v \<longleftrightarrow> open_law px v \<and> trunc_law px v \<and> fstat_law px v \<and> write_law px v \<and> close_law px v \<and>
     rename_law px v \<and> time_law px v"

lemma fs_open:
  assumes "fs_laws px (files, fds)" "px_open_append px p w = (fd, w')"
  shows "0 \<le> fd" "fds w fd = None" "fds w' = (fds w)(fd \<mapsto> p)"
    "files w' = (files w)(p \<mapsto> (case files w p of None \<Rightarrow> [] | Some c \<Rightarrow> c))"
proof -
  have "open_law px (files, fds)" using assms(1) by (simp add: fs_laws_def)
  then have "let (fd, w') = px_open_append px p w in 0 \<le> fd \<and> fds w fd = None \<and> fds w' = (fds w)(fd \<mapsto> p) \<and>
      files w' = (files w)(p \<mapsto> (case files w p of None \<Rightarrow> [] | Some c \<Rightarrow> c))"
    unfolding open_law_def by blast
  with assms(2) show "0 \<le> fd" "fds w fd = None" "fds w' = (fds w)(fd \<mapsto> p)"
    "files w' = (files w)(p \<mapsto> (case files w p of None \<Rightarrow> [] | Some c \<Rightarrow> c))"
    by simp_all
qed

lemma fs_trunc:
  assumes "fs_laws px (files, fds)" "px_open_trunc px p w = (fd, w')"
  shows "0 \<le> fd" "fds w fd = None" "fds w' = (fds w)(fd \<mapsto> p)" "files w' = (files w)(p \<mapsto> [])"
proof -
  have "trunc_law px (files, fds)" using assms(1) by (simp add: fs_laws_def)
  then have "let (fd, w') = px_open_trunc px p w in 0 \<le> fd \<and> fds w fd = None \<and> fds w' = (fds w)(fd \<mapsto> p) \<and>
      files w' = (files w)(p \<mapsto> [])"
    unfolding trunc_law_def by blast
  with assms(2) show "0 \<le> fd" "fds w fd = None" "fds w' = (fds w)(fd \<mapsto> p)" "files w' = (files w)(p \<mapsto> [])"
    by simp_all
qed

lemma fs_fstat:
  "fs_laws px (files, fds) \<Longrightarrow> fds w fd = Some p \<Longrightarrow> files w p = Some c \<Longrightarrow> px_fstat_size px fd w = Some (length c)"
  by (simp add: fs_laws_def fstat_law_def)

lemma write_law_write:
  assumes "write_law px (files, fds)" "fds w fd = Some p" "files w p = Some c"
  shows "\<exists>w'. px_write px fd d w = (int (length d), w') \<and> fds w' = fds w \<and> files w' = (files w)(p \<mapsto> c @ d)"
proof -
  have "let (n, w') = px_write px fd d w in n = int (length d) \<and> fds w' = fds w \<and> files w' = (files w)(p \<mapsto> c @ d)"
    using assms unfolding write_law_def by blast
  then show ?thesis by (cases "px_write px fd d w") simp
qed

lemma fs_write:
  assumes "fs_laws px (files, fds)" "fds w fd = Some p" "files w p = Some c"
  shows "\<exists>w'. px_write px fd d w = (int (length d), w') \<and> fds w' = fds w \<and> files w' = (files w)(p \<mapsto> c @ d)"
  using assms by (intro write_law_write) (simp add: fs_laws_def)

lemma fs_close:
  assumes "fs_laws px (files, fds)"
  shows "files (px_close px fd w) = files w" "fds (px_close px fd w) = (fds w)(fd := None)"
    "files (px_fsync px fd w) = files w" "fds (px_fsync px fd w) = fds w"
    "files (px_fdatasync px fd w) = files w" "fds (px_fdatasync px fd w) = fds w"
  using assms by (simp_all add: fs_laws_def close_law_def)

lemma fs_remove:
  assumes "fs_laws px (files, fds)" "p \<notin> ran (fds w)"
  shows "files (px_remove px p w) = (files w)(p := None)" "fds (px_remove px p w) = fds w"
  using assms by (simp_all add: fs_laws_def rename_law_def)

lemma fs_rename:
  assumes "fs_laws px (files, fds)" "p \<notin> ran (fds w)" "q \<notin> ran (fds w)" "p \<noteq> q"
  shows "files (px_rename px p q w) = (case files w p of None \<Rightarrow> files w | Some c \<Rightarrow> (files w)(q \<mapsto> c, p := None))"
    "fds (px_rename px p q w) = fds w"
  using assms by (simp_all add: fs_laws_def rename_law_def)

subsection \<open>A system in memory\<close>

text \<open>Descriptors index the list of paths opened so far; a closed one leaves \<open>None\<close>.\<close>

record mem_os =
  mem_files :: "string \<Rightarrow> bytes option"
  mem_open :: "string option list"
  mem_clock :: int

definition mem_fds :: "mem_os \<Rightarrow> int \<Rightarrow> string option" where
  "mem_fds w fd = (if 0 \<le> fd \<and> nat fd < length (mem_open w) then mem_open w ! nat fd else None)"

definition mem_os_init :: "int \<Rightarrow> mem_os" where
  "mem_os_init t = \<lparr>mem_files = Map.empty, mem_open = [], mem_clock = t\<rparr>"

definition mem_open_path :: "string \<Rightarrow> bytes \<Rightarrow> mem_os \<Rightarrow> int \<times> mem_os" where
  "mem_open_path p c w = (int (length (mem_open w)), w\<lparr>mem_files := (mem_files w)(p \<mapsto> c), mem_open := mem_open w @ [Some p]\<rparr>)"

definition mem_posix :: "mem_os posix" where
  "mem_posix = \<lparr>
     px_open_append = (\<lambda>p w. mem_open_path p (case mem_files w p of None \<Rightarrow> [] | Some c \<Rightarrow> c) w),
     px_open_trunc = (\<lambda>p w. mem_open_path p [] w),
     px_open_error = (\<lambda>p w. w),
     px_fstat_size = (\<lambda>fd w. case mem_fds w fd of None \<Rightarrow> None | Some p \<Rightarrow> map_option length (mem_files w p)),
     px_write = (\<lambda>fd d w. case mem_fds w fd of None \<Rightarrow> (- 1, w)
       | Some p \<Rightarrow> (case mem_files w p of None \<Rightarrow> (- 1, w)
           | Some c \<Rightarrow> (int (length d), w\<lparr>mem_files := (mem_files w)(p \<mapsto> c @ d)\<rparr>))),
     px_close = (\<lambda>fd w. if 0 \<le> fd then w\<lparr>mem_open := (mem_open w)[nat fd := None]\<rparr> else w),
     px_fsync = (\<lambda>fd w. w),
     px_fdatasync = (\<lambda>fd w. w),
     px_remove = (\<lambda>p w. w\<lparr>mem_files := (mem_files w)(p := None)\<rparr>),
     px_rename = (\<lambda>p q w. case mem_files w p of None \<Rightarrow> w
       | Some c \<Rightarrow> w\<lparr>mem_files := (mem_files w)(q \<mapsto> c, p := None)\<rparr>),
     px_mkdir = (\<lambda>p w. w),
     px_readdir = (\<lambda>p w. Some []),
     px_stat_mtime = (\<lambda>p w. map_option (\<lambda>_. mem_clock w) (mem_files w p)),
     px_time = (\<lambda>w. (mem_clock w, w)) \<rparr>"

lemma mem_fds_files [simp]: "mem_fds (w\<lparr>mem_files := f\<rparr>) = mem_fds w"
  by (simp add: fun_eq_iff mem_fds_def)

lemma mem_fds_open [simp]:
  "mem_fds (w\<lparr>mem_files := f, mem_open := mem_open w @ [Some p]\<rparr>) = (mem_fds w)(int (length (mem_open w)) \<mapsto> p)"
  by (auto simp: fun_eq_iff mem_fds_def nth_append)

lemma mem_fds_fresh [simp]: "mem_fds w (int (length (mem_open w))) = None"
  by (simp add: mem_fds_def)

lemma mem_fds_close:
  "mem_fds (if 0 \<le> fd then w\<lparr>mem_open := (mem_open w)[nat fd := None]\<rparr> else w) = (mem_fds w)(fd := None)"
  by (auto simp: fun_eq_iff mem_fds_def nth_list_update)

lemma mem_posix_laws: "fs_laws mem_posix (mem_files, mem_fds)"
proof -
  have "open_law mem_posix (mem_files, mem_fds)" "trunc_law mem_posix (mem_files, mem_fds)"
    by (simp_all add: open_law_def trunc_law_def mem_posix_def mem_open_path_def)
  moreover have "fstat_law mem_posix (mem_files, mem_fds)" "write_law mem_posix (mem_files, mem_fds)"
    by (simp_all add: fstat_law_def write_law_def mem_posix_def)
  moreover have "close_law mem_posix (mem_files, mem_fds)"
    using mem_fds_close by (auto simp: close_law_def mem_posix_def)
  moreover have "rename_law mem_posix (mem_files, mem_fds)" "time_law mem_posix (mem_files, mem_fds)"
    by (auto simp: rename_law_def time_law_def mem_posix_def split: option.split)
  ultimately show ?thesis by (simp add: fs_laws_def)
qed

end
