(* ===== verification/Ring_Memory_Sink.thy ===== *)
theory Ring_Memory_Sink
  imports Sink_Interface Posix
begin

text \<open>
  The in-memory sink (\<open>ring_memory_sink.hpp\<close>, \<open>ring_memory_sink.cpp\<close>): a circular array of the most
  recent entries. An index outside the vector and a remainder by a zero capacity are undefined behaviour,
  \<open>None\<close>. \<open>mem_list\<close> is the abstract view, oldest entry first.
\<close>

record RingMemorySink = sink_base +
  mem_buffer :: "LogEntry list"
  mem_capacity :: nat
  mem_head :: nat
  mem_count :: nat

definition RingMemorySink_init :: "config \<Rightarrow> bytes \<Rightarrow> nat \<Rightarrow> RingMemorySink" where
  "RingMemorySink_init cfg fbuf capacity =
     \<lparr>sink_formatter = None, min_level = TRACE, format_buf = fbuf,
      mem_buffer = replicate capacity (zero_entry cfg), mem_capacity = capacity, mem_head = 0, mem_count = 0\<rparr>"

definition RingMemorySink_Write :: "LogEntry \<Rightarrow> RingMemorySink \<Rightarrow> RingMemorySink option" where
  "RingMemorySink_Write e s =
     (if \<not> ShouldLog s (level e) then Some s
      else if \<not> mem_head s < length (mem_buffer s) then None
      else if mem_capacity s = 0 then None
      else Some (s\<lparr>mem_buffer := (mem_buffer s)[mem_head s := e],
                   mem_head := (mem_head s + 1) mod mem_capacity s,
                   mem_count := (if mem_count s < mem_capacity s then mem_count s + 1 else mem_count s)\<rparr>))"

definition RingMemorySink_Flush :: "RingMemorySink \<Rightarrow> RingMemorySink" where
  "RingMemorySink_Flush s = s"

definition RingMemorySink_Size :: "RingMemorySink \<Rightarrow> nat" where
  "RingMemorySink_Size s = mem_count s"

definition RingMemorySink_At :: "nat \<Rightarrow> RingMemorySink \<Rightarrow> LogEntry option" where
  "RingMemorySink_At index s =
     (let start = (if mem_count s < mem_capacity s then 0 else mem_head s) in
      if mem_capacity s = 0 then None
      else let i = (start + index) mod mem_capacity s in
        if i < length (mem_buffer s) then Some (mem_buffer s ! i) else None)"

text \<open>
  \<open>DumpToFile\<close>: the loop over the indices, with the local buffer \<open>buf\<close> of 2048 bytes, of which the formatter
  may use all but the last.
\<close>

definition dump_pattern :: string where
  "dump_pattern = ''[%D %T%e] [%L] [tid:%t] %m''"

fun Dump_loop ::
  "localtime \<Rightarrow> bytes \<Rightarrow> 'w posix \<Rightarrow> IFormatter \<Rightarrow> int \<Rightarrow> RingMemorySink \<Rightarrow> nat list \<Rightarrow> bytes \<Rightarrow> 'w \<Rightarrow> 'w option" where
  "Dump_loop lt junk px fmt fd s [] buf w = Some w"
| "Dump_loop lt junk px fmt fd s (i # is) buf w =
     do { e \<leftarrow> RingMemorySink_At i s;
          (buf1, len) \<leftarrow> IFormatter_Format lt junk fmt e buf 2047;
          if 0 < len
          then do { buf2 \<leftarrow> store_byte buf1 len (CHR 0x0A);
                    Dump_loop lt junk px fmt fd s is buf2 (snd (px_write px fd (take (len + 1) buf2) w)) }
          else Dump_loop lt junk px fmt fd s is buf1 w }"

definition DumpToFile ::
  "localtime \<Rightarrow> bytes \<Rightarrow> 'w posix \<Rightarrow> string \<Rightarrow> bytes \<Rightarrow> RingMemorySink \<Rightarrow> 'w \<Rightarrow> (bool \<times> 'w) option" where
  "DumpToFile lt junk px path buf s w =
     (let (fd, w1) = px_open_trunc px path w in
      if fd < 0 then Some (False, w1)
      else if mem_count s = 0 then Some (True, px_close px fd w1)
      else let fmt = (case sink_formatter s of Some f \<Rightarrow> f | None \<Rightarrow> Pattern (PatternFormatter_init dump_pattern False)) in
        do { w2 \<leftarrow> Dump_loop lt junk px fmt fd s [0..<mem_count s] buf w1;
             Some (True, px_close px fd w2) })"

subsection \<open>Invariant and contents\<close>

definition mem_wf :: "RingMemorySink \<Rightarrow> bool" where
  "mem_wf s \<longleftrightarrow> 0 < mem_capacity s \<and> length (mem_buffer s) = mem_capacity s \<and>
     mem_head s < mem_capacity s \<and> mem_count s \<le> mem_capacity s \<and>
     (mem_count s < mem_capacity s \<longrightarrow> mem_head s = mem_count s)"

definition mem_start :: "RingMemorySink \<Rightarrow> nat" where
  "mem_start s = (if mem_count s < mem_capacity s then 0 else mem_head s)"

definition mem_list :: "RingMemorySink \<Rightarrow> LogEntry list" where
  "mem_list s = map (\<lambda>i. mem_buffer s ! ((mem_start s + i) mod mem_capacity s)) [0..<mem_count s]"

text \<open>The last \<open>n\<close> elements of a list.\<close>

definition last_n :: "nat \<Rightarrow> 'a list \<Rightarrow> 'a list" where
  "last_n n xs = drop (length xs - n) xs"

lemma last_n_snoc: "0 < n \<Longrightarrow> last_n n (last_n n xs @ [x]) = last_n n (xs @ [x])"
  by (cases "length xs < n") (auto simp: last_n_def Suc_diff_le)

lemma mem_wf_init: "0 < cap \<Longrightarrow> mem_wf (RingMemorySink_init cfg fbuf cap) \<and> mem_list (RingMemorySink_init cfg fbuf cap) = []"
  by (simp add: mem_wf_def mem_list_def RingMemorySink_init_def)

lemma length_mem_list [simp]: "length (mem_list s) = mem_count s"
  by (simp add: mem_list_def)

lemma At_mem_list:
  "mem_wf s \<Longrightarrow> i < mem_count s \<Longrightarrow> RingMemorySink_At i s = Some (mem_list s ! i)"
  by (simp add: RingMemorySink_At_def mem_wf_def mem_list_def mem_start_def Let_def)

abbreviation mem_put :: "LogEntry \<Rightarrow> RingMemorySink \<Rightarrow> RingMemorySink" where
  "mem_put e s \<equiv> s\<lparr>mem_buffer := (mem_buffer s)[mem_head s := e], mem_head := (mem_head s + 1) mod mem_capacity s,
     mem_count := (if mem_count s < mem_capacity s then mem_count s + 1 else mem_count s)\<rparr>"

lemma mem_put_room:
  assumes wf: "mem_wf s" and room: "mem_count s < mem_capacity s"
  shows "mem_list (mem_put e s) = mem_list s @ [e]"
proof -
  have h: "mem_head s = mem_count s" using wf room by (simp add: mem_wf_def)
  then have "mem_start (mem_put e s) = 0"
    using room by (cases "Suc (mem_count s) = mem_capacity s") (auto simp: mem_start_def)
  with h room wf show ?thesis
    by (auto simp: mem_list_def mem_wf_def mem_start_def nth_append intro!: nth_equalityI)
qed

text \<open>In a full buffer the slot at the head is the oldest entry; the write replaces it.\<close>

lemma mem_put_full:
  assumes wf: "mem_wf s" and full: "\<not> mem_count s < mem_capacity s"
  shows "mem_list (mem_put e s) = tl (mem_list s) @ [e]"
proof -
  let ?C = "mem_capacity s" and ?h = "mem_head s"
  have n: "mem_count s = ?C" and C: "0 < ?C" and h: "?h < ?C" and L: "length (mem_buffer s) = ?C"
    using wf full by (auto simp: mem_wf_def)
  have start: "mem_start s = ?h" "mem_start (mem_put e s) = (?h + 1) mod ?C"
    using full by (simp_all add: mem_start_def)
  have "mem_list (mem_put e s) ! i = (tl (mem_list s) @ [e]) ! i" if i: "i < ?C" for i
  proof (cases "Suc i < ?C")
    case True
    then have "(?h + Suc i) mod ?C \<noteq> ?h" using h by (cases "?h + Suc i < ?C") (auto simp: mod_if)
    with True i n start show ?thesis by (simp add: nth_append nth_tl mem_list_def mod_add_left_eq)
  next
    case False
    with i have "Suc i = ?C" by simp
    then have "(?h + 1 + i) mod ?C = ?h" using h by (metis add.assoc add_Suc_right mod_add_self2 mod_less plus_1_eq_Suc add.commute)
    with False i n start h L show ?thesis by (simp add: nth_append mem_list_def mod_add_left_eq)
  qed
  with n C show ?thesis by (intro nth_equalityI) (auto simp: mem_list_def)
qed

lemma Write_mem_list:
  assumes "mem_wf s" "ShouldLog s (level e)"
  shows "\<exists>s'. RingMemorySink_Write e s = Some s' \<and> mem_wf s' \<and> mem_capacity s' = mem_capacity s \<and>
    min_level s' = min_level s \<and> mem_list s' = last_n (mem_capacity s) (mem_list s @ [e])"
proof (intro exI conjI)
  show "RingMemorySink_Write e s = Some (mem_put e s)" using assms by (simp add: RingMemorySink_Write_def mem_wf_def)
  show "mem_wf (mem_put e s)" using assms(1) by (auto simp: mem_wf_def mod_Suc)
  show "mem_list (mem_put e s) = last_n (mem_capacity s) (mem_list s @ [e])"
  proof (cases "mem_count s < mem_capacity s")
    case True
    then show ?thesis using mem_put_room [OF assms(1) True] by (simp add: last_n_def)
  next
    case False
    then have "mem_count s = mem_capacity s" "0 < mem_capacity s" using assms(1) by (auto simp: mem_wf_def)
    with mem_put_full [OF assms(1) False] show ?thesis by (simp add: last_n_def mem_list_def drop_Suc)
  qed
qed simp_all

text \<open>A sequence of writes.\<close>

fun mem_writes :: "LogEntry list \<Rightarrow> RingMemorySink \<Rightarrow> RingMemorySink option" where
  "mem_writes [] s = Some s"
| "mem_writes (e # es) s = do { s' \<leftarrow> RingMemorySink_Write e s; mem_writes es s' }"

lemma last_n_append: "0 < n \<Longrightarrow> last_n n (last_n n xs @ ys) = last_n n (xs @ ys)"
proof (induction ys rule: rev_induct)
  case Nil
  then show ?case by (simp add: last_n_def)
next
  case (snoc y ys)
  from last_n_snoc [OF snoc.prems, of "last_n n xs @ ys" y] last_n_snoc [OF snoc.prems, of "xs @ ys" y] snoc.IH [OF snoc.prems]
  show ?case by simp
qed

lemma mem_writes_list:
  "mem_wf s \<Longrightarrow> \<exists>s'. mem_writes es s = Some s' \<and> mem_wf s' \<and> mem_capacity s' = mem_capacity s \<and>
     min_level s' = min_level s \<and>
     mem_list s' = last_n (mem_capacity s) (mem_list s @ filter (\<lambda>e. ShouldLog s (level e)) es)"
proof (induction es arbitrary: s)
  case Nil
  then have "length (mem_list s) \<le> mem_capacity s" by (simp add: mem_list_def mem_wf_def)
  with Nil show ?case by (simp add: last_n_def)
next
  case (Cons e es)
  show ?case
  proof (cases "ShouldLog s (level e)")
    case False
    with Cons.IH [OF Cons.prems] show ?thesis by (simp add: RingMemorySink_Write_def)
  next
    case True
    obtain s1 where s1: "RingMemorySink_Write e s = Some s1" "mem_wf s1" "mem_capacity s1 = mem_capacity s"
      "min_level s1 = min_level s" "mem_list s1 = last_n (mem_capacity s) (mem_list s @ [e])"
      using Write_mem_list [OF Cons.prems True] by blast
    have "0 < mem_capacity s" using Cons.prems by (simp add: mem_wf_def)
    from last_n_append [OF this, of "mem_list s @ [e]"] Cons.IH [OF s1(2)] s1 True show ?thesis
      by (auto simp: ShouldLog_def)
  qed
qed

subsection \<open>Dumping\<close>

definition dump_line :: "localtime \<Rightarrow> IFormatter \<Rightarrow> LogEntry \<Rightarrow> string" where
  "dump_line lt f e = (let t = formatter_out lt f e 2047 in if t = [] then [] else t @ [CHR 0x0A])"

lemma Dump_loop_ok:
  assumes laws: "write_law px (files, fds)" and wf: "mem_wf s"
    and ok: "\<And>e. e \<in> set (mem_list s) \<Longrightarrow> entry_ok cfg lt junk e"
  shows "length buf = 2048 \<Longrightarrow> fds w fd = Some p \<Longrightarrow> files w p = Some c \<Longrightarrow> set is \<subseteq> {..<mem_count s} \<Longrightarrow>
    \<exists>w'. Dump_loop lt junk px f fd s is buf w = Some w' \<and> fds w' = fds w \<and>
      files w' = (files w)(p \<mapsto> c @ concat (map (\<lambda>i. dump_line lt f (mem_list s ! i)) is))"
proof (induction "is" arbitrary: buf w c)
  case Nil
  then show ?case by (simp add: fun_upd_idem)
next
  case (Cons i "is")
  let ?e = "mem_list s ! i" and ?t = "formatter_out lt f (mem_list s ! i) 2047"
  have i: "i < mem_count s" using Cons.prems(4) by simp
  then have "RingMemorySink_At i s = Some ?e" "entry_ok cfg lt junk ?e"
    using At_mem_list [OF wf i] ok [of ?e] by (auto simp: nth_mem)
  moreover from this(2) obtain buf1 where b: "IFormatter_Format lt junk f ?e buf 2047 = Some (buf1, length ?t)"
    "holds_text 2047 buf ?t buf1"
    using any_fmt.fmt_some [of cfg ?e lt junk 2047 buf f] Cons.prems(1) by (auto simp: entry_ok_def)
  moreover have l: "length buf1 = 2048" "length ?t < 2047" "take (length ?t) buf1 = ?t"
    using b(2) Cons.prems(1) by (auto simp: holds_text_def)
  ultimately show ?case
  proof (cases "?t = []")
    case True
    with Cons.IH [OF l(1) Cons.prems(2,3)] Cons.prems(4) \<open>RingMemorySink_At i s = Some ?e\<close> b(1) show ?thesis
      by (simp add: dump_line_def)
  next
    case False
    let ?buf2 = "buf1[length ?t := CHR 0x0A]"
    have t: "take (length ?t + 1) ?buf2 = ?t @ [CHR 0x0A]" using l by (simp add: take_Suc_conv_app_nth)
    obtain w1 where w1: "px_write px fd (?t @ [CHR 0x0A]) w = (int (length (?t @ [CHR 0x0A])), w1)" "fds w1 = fds w"
      "files w1 = (files w)(p \<mapsto> c @ ?t @ [CHR 0x0A])"
      using write_law_write [OF laws Cons.prems(2,3)] by blast
    have st: "store_byte buf1 (length ?t) (CHR 0x0A) = Some ?buf2" using l by (simp add: store_byte_def)
    have "length ?buf2 = 2048" "fds w1 fd = Some p" "files w1 p = Some (c @ ?t @ [CHR 0x0A])"
      using l(1) w1 Cons.prems(2) by simp_all
    moreover have "set is \<subseteq> {..<mem_count s}" using Cons.prems(4) by simp
    ultimately obtain w' where "Dump_loop lt junk px f fd s is ?buf2 w1 = Some w'" "fds w' = fds w1"
      and f: "files w' = (files w1)(p \<mapsto> (c @ ?t @ [CHR 0x0A]) @ concat (map (\<lambda>i. dump_line lt f (mem_list s ! i)) is))"
      using Cons.IH by blast
    moreover have "files w' = (files w)(p \<mapsto> c @ concat (map (\<lambda>i. dump_line lt f (mem_list s ! i)) (i # is)))"
      using f w1(3) False by (simp add: dump_line_def Let_def)
    moreover have "Dump_loop lt junk px f fd s (i # is) buf w = Dump_loop lt junk px f fd s is ?buf2 w1"
      using False \<open>RingMemorySink_At i s = Some ?e\<close> b(1) st t w1(1) by simp
    ultimately show ?thesis using w1(2) by (intro exI [of _ w']) simp
  qed
qed

subsection \<open>Properties\<close>

text \<open>
  C33: dumping the memory sink writes the whole content or reports that it could not. When the file cannot be opened,
  \<open>DumpToFile\<close> returns false and does nothing more. When it can, and writing and closing obey their documented laws,
  it returns true, stays inside its local buffer, replaces the named file by one line per stored entry, oldest
  first (an entry that renders to nothing has no line), touches no other file and closes the descriptor.
\<close>

theorem DumpToFile_correct:
  assumes "write_law px (files, fds)" and "close_law px (files, fds)" and "mem_wf s"
    and "\<forall>e\<in>set (mem_list s). entry_ok cfg lt junk e" and "length buf = 2048"
    and fopen: "px_open_trunc px path w = (fd, w1)"
    and opened: "0 \<le> fd \<Longrightarrow> fds w1 = (fds w)(fd \<mapsto> path) \<and> files w1 = (files w)(path \<mapsto> [])"
  shows "\<exists>w'. DumpToFile lt junk px path buf s w = Some (0 \<le> fd, w') \<and>
    (if fd < 0 then w' = w1
     else fds w' = (fds w)(fd := None) \<and> files w' = (files w)(path \<mapsto> concat (map (dump_line lt
       (case sink_formatter s of Some f \<Rightarrow> f | None \<Rightarrow> Pattern (PatternFormatter_init dump_pattern False))) (mem_list s))))"
proof (cases "fd < 0")
  case True
  then show ?thesis using fopen by (simp add: DumpToFile_def)
next
  case False
  let ?f = "case sink_formatter s of Some f \<Rightarrow> f | None \<Rightarrow> Pattern (PatternFormatter_init dump_pattern False)"
  have m: "map (\<lambda>i. dump_line lt ?f (mem_list s ! i)) [0..<mem_count s] = map (dump_line lt ?f) (mem_list s)"
    by (rule nth_equalityI) simp_all
  have o: "fds w1 fd = Some path" "files w1 path = Some []" "set [0..<mem_count s] \<subseteq> {..<mem_count s}" using opened False by auto
  from Dump_loop_ok [where cfg = cfg and lt = lt and junk = junk and f = ?f, OF assms(1,3) _ assms(5) o] assms(4) obtain w2 where
    "Dump_loop lt junk px ?f fd s [0..<mem_count s] buf w1 = Some w2" "fds w2 = fds w1"
    "files w2 = (files w1)(path \<mapsto> concat (map (dump_line lt ?f) (mem_list s)))"
    unfolding m by auto
  moreover have "mem_count s = 0 \<Longrightarrow> mem_list s = []" by (simp add: mem_list_def)
  moreover have "files (px_close px fd v) = files v" "fds (px_close px fd v) = (fds v)(fd := None)" for v
    using assms(2) by (simp_all add: close_law_def)
  ultimately show ?thesis using fopen opened False by (cases "mem_count s = 0") (auto simp: DumpToFile_def)
qed

lemma mem_writes_formatter: "mem_writes es s = Some s' \<Longrightarrow> sink_formatter s' = sink_formatter s"
  by (induction es arbitrary: s) (auto simp: RingMemorySink_Write_def Let_def split: Option.bind_splits if_splits)

text \<open>A sink with two of three entries, on a system that opens the file and on one that does not.\<close>

theorem DumpToFile_correct_witness:
  "\<exists>s w' w''. mem_writes (replicate 3 (zero_entry (platform_config False))) (RingMemorySink_init (platform_config False) [] 2) = Some s \<and>
    DumpToFile (\<lambda>_. None) (replicate 128 NUL) mem_posix ''x'' (replicate 2048 NUL) s (mem_os_init 0) = Some (True, w') \<and>
    mem_files w' ''x'' = Some (concat (replicate 2 (dump_line (\<lambda>_. None) (Pattern (PatternFormatter_init dump_pattern False)) (zero_entry (platform_config False))))) \<and>
    DumpToFile (\<lambda>_. None) (replicate 128 NUL) (mem_posix\<lparr>px_open_trunc := \<lambda>p w. (- 1, w)\<rparr>) ''x'' (replicate 2048 NUL) s (mem_os_init 0) = Some (False, w'') \<and>
    mem_files w'' ''x'' = None"
proof -
  let ?e = "zero_entry (platform_config False)" and ?s0 = "RingMemorySink_init (platform_config False) [] 2"
  have wf: "mem_wf ?s0" "mem_list ?s0 = []" using mem_wf_init [of 2 "platform_config False" "[]"] by simp_all
  have lv: "TRACE \<le> l" for l by (cases l) (simp_all add: less_eq_LogLevel_def)
  have f0: "sink_formatter ?s0 = None" "mem_capacity ?s0 = 2" "ShouldLog ?s0 l" for l
    using lv by (simp_all add: RingMemorySink_init_def ShouldLog_def)
  have "filter (\<lambda>e. ShouldLog ?s0 (level e)) (replicate 3 ?e) = [?e, ?e, ?e]" by (simp add: f0(3) numeral_3_eq_3)
  then obtain s where s: "mem_writes (replicate 3 ?e) ?s0 = Some s" "mem_wf s" "mem_list s = [?e, ?e]"
    using mem_writes_list [OF wf(1), of "replicate 3 ?e"] unfolding f0(2) wf(2) by (auto simp: last_n_def)
  have sf: "sink_formatter s = None" using mem_writes_formatter [OF s(1)] f0(1) by simp
  have ok: "\<forall>e\<in>set (mem_list s). entry_ok (platform_config False) (\<lambda>_. None) (replicate 128 NUL) e"
    using wf_zero_entry [OF valid_platform_config, of False] by (simp add: s(3) entry_ok_def localtime_ok_def)
  have laws: "write_law mem_posix (mem_files, mem_fds)" "close_law mem_posix (mem_files, mem_fds)" "trunc_law mem_posix (mem_files, mem_fds)"
    using mem_posix_laws by (simp_all add: fs_laws_def)
  let ?px = "mem_posix\<lparr>px_open_trunc := \<lambda>p w. (- 1, w)\<rparr>"
  have laws': "write_law ?px (mem_files, mem_fds)" "close_law ?px (mem_files, mem_fds)"
    using laws by (simp_all add: write_law_def close_law_def)
  obtain fd w1 where o: "px_open_trunc mem_posix ''x'' (mem_os_init 0) = (fd, w1)" by fastforce
  note f = fs_trunc [OF mem_posix_laws o]
  from DumpToFile_correct [OF laws(1,2) s(2) ok _ o, of "replicate 2048 NUL"] f s(3) sf obtain w' where
    "DumpToFile (\<lambda>_. None) (replicate 128 NUL) mem_posix ''x'' (replicate 2048 NUL) s (mem_os_init 0) = Some (True, w')"
    "mem_files w' ''x'' = Some (concat (replicate 2 (dump_line (\<lambda>_. None) (Pattern (PatternFormatter_init dump_pattern False)) ?e)))"
    by (auto simp: numeral_eq_Suc)
  moreover from DumpToFile_correct [OF laws' s(2) ok, of "replicate 2048 NUL" "''x''" "mem_os_init 0" "- 1" "mem_os_init 0"] obtain w'' where
    "DumpToFile (\<lambda>_. None) (replicate 128 NUL) ?px ''x'' (replicate 2048 NUL) s (mem_os_init 0) = Some (False, w'')" "w'' = mem_os_init 0"
    by auto
  ultimately show ?thesis using s(1) by (auto simp: mem_os_init_def)
qed

text \<open>
  The memory sink keeps exactly the most recent entries. After any sequence of writes to a fresh sink of a
  positive capacity, its size and its indexed entries are those of the list of the last \<open>capacity\<close> entries
  that passed the level filter, oldest first; every index below the size is readable. With capacity zero the
  first accepted write is undefined behaviour.
\<close>

lemma ring_memory_keeps_last:
  "(0 < cap \<longrightarrow> (\<exists>s. mem_writes es (sink_SetLevel lv (RingMemorySink_init cfg fbuf cap)) = Some s \<and>
      (let kept = last_n cap (filter (\<lambda>e. lv \<le> level e) es)
       in RingMemorySink_Size s = length kept \<and> (\<forall>i<length kept. RingMemorySink_At i s = Some (kept ! i))))) \<and>
    (cap = 0 \<longrightarrow> (\<exists>e\<in>set es. lv \<le> level e) \<longrightarrow>
       mem_writes es (sink_SetLevel lv (RingMemorySink_init cfg fbuf cap)) = None)"
proof (intro conjI impI)
  let ?s = "sink_SetLevel lv (RingMemorySink_init cfg fbuf cap)"
  assume "0 < cap"
  then have wf: "mem_wf ?s" and nil: "mem_list ?s = []"
    using mem_wf_init [of cap cfg fbuf] by (auto simp: mem_wf_def mem_list_def mem_start_def sink_SetLevel_def)
  have c: "mem_capacity ?s = cap" "min_level ?s = lv" by (simp_all add: sink_SetLevel_def RingMemorySink_init_def)
  obtain s where "mem_writes es ?s = Some s" "mem_wf s"
    and l: "mem_list s = last_n cap (filter (\<lambda>e. lv \<le> level e) es)"
    using mem_writes_list [OF wf, of es] nil c by (auto simp: ShouldLog_def)
  moreover have "mem_count s = length (mem_list s)" by simp
  ultimately show "\<exists>s. mem_writes es ?s = Some s \<and> (let kept = last_n cap (filter (\<lambda>e. lv \<le> level e) es)
       in RingMemorySink_Size s = length kept \<and> (\<forall>i<length kept. RingMemorySink_At i s = Some (kept ! i)))"
    using At_mem_list [of s] by (auto simp: RingMemorySink_Size_def Let_def)
next
  assume "cap = 0" "\<exists>e\<in>set es. lv \<le> level e"
  moreover have "mem_writes es s = None" if "\<exists>e\<in>set es. ShouldLog s (level e)" "mem_buffer s = []" for s
    using that by (induction es) (auto simp: RingMemorySink_Write_def)
  ultimately show "mem_writes es (sink_SetLevel lv (RingMemorySink_init cfg fbuf cap)) = None"
    by (auto simp: sink_SetLevel_def RingMemorySink_init_def ShouldLog_def)
qed

lemma ring_memory_keeps_last_witness:
  "\<exists>s. mem_writes (replicate 3 (zero_entry (platform_config False)))
      (sink_SetLevel TRACE (RingMemorySink_init (platform_config False) [] 2)) = Some s \<and> RingMemorySink_Size s = 2"
  using ring_memory_keeps_last [of 2 "replicate 3 (zero_entry (platform_config False))" TRACE "platform_config False" "[]"]
  by (auto simp: Let_def last_n_def less_eq_LogLevel_def)

end
