(* ===== verification/Rotating_File_Sink.thy ===== *)
theory Rotating_File_Sink
  imports Sink_Interface Posix
begin

text \<open>
  The size-limited file sink (\<open>rotating_file_sink.hpp\<close>, \<open>rotating_file_sink.cpp\<close>). The system calls are
  the argument \<open>px\<close> on the system state \<open>w\<close>; sizes are natural numbers, as no file reaches \<open>2 ^ 64\<close>
  bytes. \<open>rot_name base 0\<close> is the live file and \<open>rot_name base i\<close> the \<open>i\<close>-th rotated one.
\<close>

record RotatingFileSink = sink_base +
  base_path :: string
  max_file_size :: nat
  max_files :: nat
  current_size :: nat
  rot_fd :: int

definition rotated_name :: "string \<Rightarrow> nat \<Rightarrow> string" where
  "rotated_name base i = base @ ''.'' @ dec_digits i @ ''.log''"

definition Rotating_OpenFile :: "'w posix \<Rightarrow> RotatingFileSink \<Rightarrow> 'w \<Rightarrow> RotatingFileSink \<times> 'w" where
  "Rotating_OpenFile px s w =
     (let (fd, w1) = px_open_append px (base_path s) w; s1 = s\<lparr>rot_fd := fd\<rparr> in
      if fd < 0 then (s1, px_open_error px (base_path s) w1)
      else case px_fstat_size px fd w1 of
        Some n \<Rightarrow> (s1\<lparr>current_size := n\<rparr>, w1)
      | None \<Rightarrow> (s1\<lparr>current_size := 0\<rparr>, w1))"

text \<open>The loop \<open>for (i = max_files_; i > 0; --i)\<close> of \<open>Rotate\<close>.\<close>

fun Rotate_loop :: "'w posix \<Rightarrow> string \<Rightarrow> nat \<Rightarrow> nat \<Rightarrow> 'w \<Rightarrow> 'w" where
  "Rotate_loop px base m 0 w = w"
| "Rotate_loop px base m (Suc j) w =
     (let i = Suc j;
          src = (if i = 1 then base else rotated_name base (i - 1));
          dst = rotated_name base i;
          w1 = (if i = m then px_remove px dst w else w)
      in Rotate_loop px base m j (px_rename px src dst w1))"

definition Rotate :: "'w posix \<Rightarrow> RotatingFileSink \<Rightarrow> 'w \<Rightarrow> RotatingFileSink \<times> 'w" where
  "Rotate px s w =
     (let (s1, w1) = (if 0 \<le> rot_fd s then (s\<lparr>rot_fd := - 1\<rparr>, px_close px (rot_fd s) w) else (s, w));
          w2 = Rotate_loop px (base_path s1) (max_files s1) (max_files s1) w1
      in Rotating_OpenFile px (s1\<lparr>current_size := 0\<rparr>) w2)"

definition RotatingFileSink_init ::
  "'w posix \<Rightarrow> bytes \<Rightarrow> string \<Rightarrow> nat \<Rightarrow> nat \<Rightarrow> 'w \<Rightarrow> RotatingFileSink \<times> 'w" where
  "RotatingFileSink_init px fbuf path msize mfiles w = Rotating_OpenFile px
     \<lparr>sink_formatter = None, min_level = TRACE, format_buf = fbuf, base_path = path,
      max_file_size = msize, max_files = mfiles, current_size = 0, rot_fd = - 1\<rparr> w"

definition RotatingFileSink_destroy :: "'w posix \<Rightarrow> RotatingFileSink \<Rightarrow> 'w \<Rightarrow> RotatingFileSink \<times> 'w" where
  "RotatingFileSink_destroy px s w =
     (if 0 \<le> rot_fd s then (s\<lparr>rot_fd := - 1\<rparr>, px_close px (rot_fd s) (px_fsync px (rot_fd s) w)) else (s, w))"

definition rotating_pattern :: string where
  "rotating_pattern = ''[%D %T%e] [%L] [tid:%t] [%f:%#::%n] %g %m''"

text \<open>\<open>if (current_size_ + len + 1 > max_file_size_) Rotate();\<close>\<close>

definition rotate_if_needed :: "'w posix \<Rightarrow> nat \<Rightarrow> RotatingFileSink \<Rightarrow> 'w \<Rightarrow> RotatingFileSink \<times> 'w" where
  "rotate_if_needed px len s w = (if current_size s + len + 1 > max_file_size s then Rotate px s w else (s, w))"

definition RotatingFileSink_Write ::
  "localtime \<Rightarrow> bytes \<Rightarrow> 'w posix \<Rightarrow> LogEntry \<Rightarrow> RotatingFileSink \<Rightarrow> 'w \<Rightarrow> (RotatingFileSink \<times> 'w) option" where
  "RotatingFileSink_Write lt junk px e s w =
     (if \<not> ShouldLog s (level e) then Some (s, w)
      else do {
        (s1, len) \<leftarrow> DoFormat lt junk e (ensure_formatter rotating_pattern False s);
        if len = 0 \<or> rot_fd s1 < 0 then Some (s1, w)
        else let (s2, w2) = rotate_if_needed px len s1 w in
          if rot_fd s2 < 0 then Some (s2, w2)
          else let (n, w3) = px_write px (rot_fd s2) (take len (format_buf s2)) w2;
                   s3 = (if 0 < n then s2\<lparr>current_size := current_size s2 + nat n\<rparr> else s2);
                   (n', w4) = px_write px (rot_fd s3) [CHR 0x0A] w3;
                   s4 = (if 0 < n' then s3\<lparr>current_size := current_size s3 + 1\<rparr> else s3)
               in Some (s4, w4) })"

definition RotatingFileSink_Flush :: "'w posix \<Rightarrow> RotatingFileSink \<Rightarrow> 'w \<Rightarrow> 'w" where
  "RotatingFileSink_Flush px s w = (if 0 \<le> rot_fd s then px_fdatasync px (rot_fd s) w else w)"

subsection \<open>File names\<close>

definition rot_name :: "string \<Rightarrow> nat \<Rightarrow> string" where
  "rot_name base i = (if i = 0 then base else rotated_name base i)"

lemma rot_name_inj [simp]: "rot_name base i = rot_name base j \<longleftrightarrow> i = j"
proof
  assume eq: "rot_name base i = rot_name base j"
  show "i = j"
  proof (cases "i = 0 \<or> j = 0")
    case True
    with eq show ?thesis by (auto simp: rot_name_def rotated_name_def split: if_splits)
  next
    case False
    with eq have "dec_digits i = dec_digits j" by (simp add: rot_name_def rotated_name_def)
    then show ?thesis by (metis read_dec_digits)
  qed
qed simp

lemma rot_name_0 [simp]: "rot_name base 0 = base"
  by (simp add: rot_name_def)

lemma rot_name_Suc_base [simp]: "rot_name base (Suc k) \<noteq> base" "base \<noteq> rot_name base (Suc k)"
  using rot_name_inj [of base "Suc k" 0] by (auto simp del: rot_name_inj)

lemma rot_name_base [simp]: "rot_name base j = base \<longleftrightarrow> j = 0" "base = rot_name base j \<longleftrightarrow> j = 0"
  by (cases j; simp)+

subsection \<open>Rotation shifts the files\<close>

lemma Rotate_loop_step:
  assumes laws: "fs_laws px (files, fds)" and "fds w = Map.empty"
    and "i = m \<or> files w (rot_name base (Suc j)) = None" "i = Suc j"
  defines "w1 \<equiv> if i = m then px_remove px (rotated_name base i) w else w"
  defines "w2 \<equiv> px_rename px (if i = 1 then base else rotated_name base (i - 1)) (rotated_name base i) w1"
  shows "fds w2 = Map.empty"
    and "files w2 = (files w)(rot_name base (Suc j) := files w (rot_name base j), rot_name base j := None)"
proof -
  have n: "rotated_name base i = rot_name base (Suc j)"
    "(if i = 1 then base else rotated_name base (i - 1)) = rot_name base j"
    using assms(4) by (auto simp: rot_name_def)
  have w1: "fds w1 = Map.empty" "files w1 = (files w)(rot_name base (Suc j) := None)"
    using fs_remove [OF laws, of "rot_name base (Suc j)" w] assms(2,3) n(1) unfolding w1_def by auto
  have ne: "rot_name base j \<noteq> rot_name base (Suc j)" by simp
  have r: "rot_name base j \<notin> ran (fds w1)" "rot_name base (Suc j) \<notin> ran (fds w1)" using w1(1) by simp_all
  note ren = fs_rename [OF laws r ne]
  show "fds w2 = Map.empty" unfolding w2_def n using ren(2) w1(1) by simp
  show "files w2 = (files w)(rot_name base (Suc j) := files w (rot_name base j), rot_name base j := None)"
    unfolding w2_def n using ren(1) w1(2) ne by (auto simp: fun_eq_iff split: option.split)
qed

text \<open>
  The loop over \<open>i, ..., 1\<close>: every rotated file up to \<open>i\<close> receives what its predecessor held, the live
  name becomes free, other files stay.
\<close>

definition shifted :: "nat \<Rightarrow> string \<Rightarrow> (string \<Rightarrow> bytes option) \<Rightarrow> (string \<Rightarrow> bytes option) \<Rightarrow> bool" where
  "shifted i base f f' \<longleftrightarrow> (\<forall>k<i. f' (rot_name base (Suc k)) = f (rot_name base k)) \<and>
     (0 < i \<longrightarrow> f' base = None) \<and> (\<forall>p. i = 0 \<or> p \<notin> rot_name base ` {..i} \<longrightarrow> f' p = f p)"

lemma shifted_step:
  assumes "shifted j base ((f)(rot_name base (Suc j) := f (rot_name base j), rot_name base j := None)) f'"
  shows "shifted (Suc j) base f f'"
proof -
  have out: "f' p = f p" if "p \<notin> rot_name base ` {..Suc j}" for p
  proof -
    have "p \<noteq> rot_name base (Suc j)" "p \<noteq> rot_name base j" "p \<notin> rot_name base ` {..j}" using that by auto
    with assms show ?thesis by (simp add: shifted_def)
  qed
  have "rot_name base (Suc j) \<notin> rot_name base ` {..j}" by auto
  with assms have top: "f' (rot_name base (Suc j)) = f (rot_name base j)" by (simp add: shifted_def)
  have "f' (rot_name base (Suc k)) = f (rot_name base k)" if "k < Suc j" for k
    using that top assms by (cases "k = j") (auto simp: shifted_def)
  moreover have "f' base = None"
    using assms by (cases "j = 0") (auto simp: shifted_def)
  ultimately show ?thesis using out unfolding shifted_def by blast
qed

lemma Rotate_loop_shift:
  assumes laws: "fs_laws px (files, fds)"
  shows "fds w = Map.empty \<Longrightarrow> i = m \<or> files w (rot_name base i) = None \<Longrightarrow> i \<le> m \<Longrightarrow>
    fds (Rotate_loop px base m i w) = Map.empty \<and> shifted i base (files w) (files (Rotate_loop px base m i w))"
proof (induction i arbitrary: w)
  case 0
  then show ?case by (simp add: shifted_def)
next
  case (Suc j)
  define w2 where "w2 = px_rename px (if Suc j = 1 then base else rotated_name base (Suc j - 1)) (rotated_name base (Suc j))
     (if Suc j = m then px_remove px (rotated_name base (Suc j)) w else w)"
  have w2: "fds w2 = Map.empty"
    "files w2 = (files w)(rot_name base (Suc j) := files w (rot_name base j), rot_name base j := None)"
    using Rotate_loop_step [OF laws Suc.prems(1), of "Suc j" m base j] Suc.prems(2) unfolding w2_def by auto
  have run: "Rotate_loop px base m (Suc j) w = Rotate_loop px base m j w2" by (simp add: w2_def Let_def)
  have "j = m \<or> files w2 (rot_name base j) = None" "j \<le> m" using w2(2) Suc.prems(3) by simp_all
  from Suc.IH [OF w2(1) this] shifted_step [of j base "files w"] show ?case
    unfolding run w2(2) by blast
qed

subsection \<open>The sink and its files\<close>

text \<open>The descriptor the sink holds is the only one open, on the live file, whose size the sink tracks.\<close>

definition rot_ok :: "'w fs_view \<Rightarrow> RotatingFileSink \<Rightarrow> 'w \<Rightarrow> bool" where
  "rot_ok v s w \<longleftrightarrow> (case v of (files, fds) \<Rightarrow> sink_wf s \<and> 0 \<le> rot_fd s \<and> fds w = [rot_fd s \<mapsto> base_path s] \<and>
     (\<exists>c. files w (base_path s) = Some c \<and> current_size s = length c))"

lemma OpenFile_ok:
  assumes "fs_laws px (files, fds)" "sink_wf s" "fds w = Map.empty"
  shows "\<exists>s' w'. Rotating_OpenFile px s w = (s', w') \<and> rot_ok (files, fds) s' w' \<and>
    s' = s\<lparr>rot_fd := rot_fd s', current_size := current_size s'\<rparr> \<and>
    files w' = (files w)(base_path s \<mapsto> (case files w (base_path s) of None \<Rightarrow> [] | Some c \<Rightarrow> c))"
proof -
  obtain fd w1 where o1: "px_open_append px (base_path s) w = (fd, w1)" by fastforce
  note o = fs_open [OF assms(1) o1]
  let ?c = "case files w (base_path s) of None \<Rightarrow> [] | Some c \<Rightarrow> c"
  have fdp: "fds w1 fd = Some (base_path s)" "files w1 (base_path s) = Some ?c" using o(3,4) by simp_all
  have "px_fstat_size px fd w1 = Some (length ?c)" by (rule fs_fstat [OF assms(1) fdp])
  with o1 o assms(2,3) show ?thesis
    by (simp add: Rotating_OpenFile_def rot_ok_def sink_wf_def)
qed

lemma Rotate_ok:
  assumes laws: "fs_laws px (files, fds)" and ok: "rot_ok (files, fds) s w"
  shows "\<exists>s' w' f. Rotate px s w = (s', w') \<and> rot_ok (files, fds) s' w' \<and>
    s' = s\<lparr>rot_fd := rot_fd s', current_size := current_size s'\<rparr> \<and>
    shifted (max_files s) (base_path s) (files w) f \<and>
    files w' = f(base_path s \<mapsto> (case f (base_path s) of None \<Rightarrow> [] | Some c \<Rightarrow> c))"
proof -
  let ?s1 = "s\<lparr>rot_fd := - 1\<rparr>" and ?w1 = "px_close px (rot_fd s) w"
  let ?w2 = "Rotate_loop px (base_path s) (max_files s) (max_files s) ?w1"
  have fd: "0 \<le> rot_fd s" "fds ?w1 = Map.empty" "files ?w1 = files w" "sink_wf s"
    using ok fs_close(1,2) [OF laws, of "rot_fd s" w] by (auto simp: rot_ok_def)
  have l: "fds ?w2 = Map.empty" "shifted (max_files s) (base_path s) (files w) (files ?w2)"
    using Rotate_loop_shift [OF laws fd(2), of "max_files s" "max_files s"] fd(3) by simp_all
  have run: "Rotate px s w = Rotating_OpenFile px (?s1\<lparr>current_size := 0\<rparr>) ?w2"
    using fd(1) by (simp add: Rotate_def)
  have "sink_wf (?s1\<lparr>current_size := 0\<rparr>)" using fd(4) by (simp add: sink_wf_def)
  from OpenFile_ok [OF laws this l(1)] l(2) show ?thesis
    unfolding run by fastforce
qed

lemma rot_ok_update: "rot_ok v (s\<lparr>format_buf := b, current_size := n\<rparr>) w \<Longrightarrow> sink_wf s \<Longrightarrow> rot_ok v (s\<lparr>current_size := n\<rparr>) w"
  by (auto simp: rot_ok_def sink_wf_def)

text \<open>The two writes of a line and its newline append both and keep the size in step.\<close>

lemma write_line_ok:
  assumes laws: "fs_laws px (files, fds)" and ok: "rot_ok (files, fds) s w" and c: "files w (base_path s) = Some c"
  shows "\<exists>w3 w4. px_write px (rot_fd s) d w = (int (length d), w3) \<and> px_write px (rot_fd s) [CHR 0x0A] w3 = (1, w4) \<and>
    files w4 = (files w)(base_path s \<mapsto> c @ d @ [CHR 0x0A]) \<and>
    rot_ok (files, fds) (s\<lparr>current_size := current_size s + length d + 1\<rparr>) w4"
proof -
  have fd: "fds w (rot_fd s) = Some (base_path s)" using ok by (simp add: rot_ok_def)
  obtain w3 where w3: "px_write px (rot_fd s) d w = (int (length d), w3)" "fds w3 = fds w"
    "files w3 = (files w)(base_path s \<mapsto> c @ d)"
    using fs_write [OF laws fd c] by blast
  moreover obtain w4 where "px_write px (rot_fd s) [CHR 0x0A] w3 = (1, w4)" "fds w4 = fds w3"
    "files w4 = (files w3)(base_path s \<mapsto> (c @ d) @ [CHR 0x0A])"
    using fs_write [OF laws, of w3 "rot_fd s" "base_path s" "c @ d" "[CHR 0x0A]"] w3 fd by auto
  ultimately show ?thesis using ok c by (auto simp: rot_ok_def sink_wf_def)
qed

text \<open>
  The effect of a write on the files: a rotation first when the line would exceed the limit, then the line and
  a newline at the end of the live file.
\<close>

definition write_effect :: "RotatingFileSink \<Rightarrow> string \<Rightarrow> (string \<Rightarrow> bytes option) \<Rightarrow> (string \<Rightarrow> bytes option) \<Rightarrow> bool" where
  "write_effect s ln f f' \<longleftrightarrow> (\<exists>g.
     (if current_size s + length ln + 1 > max_file_size s then shifted (max_files s) (base_path s) f g else g = f) \<and>
     f' = g(base_path s \<mapsto> file_text (g (base_path s)) @ ln @ [CHR 0x0A]))"

lemma RotatingFileSink_Write_ok:
  assumes laws: "fs_laws px (files, fds)" and ok: "rot_ok (files, fds) s w" and e: "entry_ok cfg lt junk e"
    and log: "ShouldLog s (level e)" and ne: "sink_line lt rotating_pattern False s e \<noteq> []"
  shows "\<exists>s' w'. RotatingFileSink_Write lt junk px e s w = Some (s', w') \<and> rot_ok (files, fds) s' w' \<and>
    base_path s' = base_path s \<and> max_files s' = max_files s \<and> max_file_size s' = max_file_size s \<and> min_level s' = min_level s \<and>
    sink_formatter s' = sink_formatter (ensure_formatter rotating_pattern False s) \<and>
    write_effect s (sink_line lt rotating_pattern False s e) (files w) (files w')"
proof -
  let ?line = "sink_line lt rotating_pattern False s e"
  define s0 where "s0 = ensure_formatter rotating_pattern False s"
  have s0: "rot_fd s0 = rot_fd s" "current_size s0 = current_size s" "max_file_size s0 = max_file_size s"
    "max_files s0 = max_files s" "base_path s0 = base_path s" "min_level s0 = min_level s"
    by (simp_all add: s0_def ensure_formatter_def)
  have wf: "sink_wf s" using ok by (simp add: rot_ok_def)
  obtain buf where buf: "DoFormat lt junk e s0 = Some (s0\<lparr>format_buf := buf\<rparr>, length ?line)" "length buf = 2048"
    "take (length ?line) buf = ?line"
    using DoFormat_line [OF e wf, of rotating_pattern False] unfolding s0_def by blast
  define s1 where "s1 = s0\<lparr>format_buf := buf\<rparr>"
  have s1: "rot_ok (files, fds) s1 w" using ok buf(2) s0 by (auto simp: rot_ok_def sink_wf_def s1_def)
  obtain s2 w2 g where t: "rotate_if_needed px (length ?line) s1 w = (s2, w2)" "rot_ok (files, fds) s2 w2"
    "s2 = s1\<lparr>rot_fd := rot_fd s2, current_size := current_size s2\<rparr>"
    "if current_size s + length ?line + 1 > max_file_size s then shifted (max_files s) (base_path s) (files w) g else g = files w"
    "files w2 = g(base_path s \<mapsto> file_text (g (base_path s)))"
  proof (cases "current_size s1 + length ?line + 1 > max_file_size s1")
    case True
    with Rotate_ok [OF laws s1] s0 that show ?thesis by (fastforce simp: rotate_if_needed_def s1_def file_text_def)
  next
    case False
    have "files w = (files w)(base_path s \<mapsto> file_text (files w (base_path s)))"
      using ok by (auto simp: rot_ok_def file_text_def fun_upd_idem)
    with False s1 s0 that [of s1 w "files w"] show ?thesis by (simp add: rotate_if_needed_def s1_def)
  qed
  have b: "base_path s2 = base_path s" "format_buf s2 = buf" "max_files s2 = max_files s" "max_file_size s2 = max_file_size s"
    "min_level s2 = min_level s" "sink_formatter s2 = sink_formatter s0"
    by (subst t(3), simp add: s1_def s0)+
  have "files w2 (base_path s2) = Some (file_text (g (base_path s)))" using t(5) b(1) by simp
  from write_line_ok [OF laws t(2) this, of ?line] obtain w3 w4 where
    w: "px_write px (rot_fd s2) ?line w2 = (int (length ?line), w3)" "px_write px (rot_fd s2) [CHR 0x0A] w3 = (1, w4)"
    "files w4 = (files w2)(base_path s2 \<mapsto> file_text (g (base_path s)) @ ?line @ [CHR 0x0A])"
    "rot_ok (files, fds) (s2\<lparr>current_size := current_size s2 + length ?line + 1\<rparr>) w4" by blast
  have fd: "0 \<le> rot_fd s1" "0 \<le> rot_fd s2" using s1 t(2) by (auto simp: rot_ok_def)
  have "RotatingFileSink_Write lt junk px e s w = Some (s2\<lparr>current_size := current_size s2 + length ?line + 1\<rparr>, w4)"
    using log ne fd buf w(1,2) b(2) t(1)
    by (simp add: RotatingFileSink_Write_def s0_def [symmetric] s1_def [symmetric])
  moreover have "write_effect s ?line (files w) (files w4)"
    unfolding write_effect_def using t(4,5) w(3) b(1) by (intro exI [of _ g]) simp
  ultimately show ?thesis using w(4) b by (auto simp: s0_def)
qed

subsection \<open>The log as a whole\<close>

text \<open>The contents of all files of the sink, oldest first.\<close>

definition rot_history :: "(string \<Rightarrow> bytes option) \<Rightarrow> string \<Rightarrow> nat \<Rightarrow> bytes" where
  "rot_history f base m = concat (map (\<lambda>i. file_text (f (rot_name base i))) (rev [0..<Suc m]))"

lemma rev_upt_Suc: "rev [0..<Suc m] = map Suc (rev [0..<m]) @ [0]"
  by (simp add: upt_conv_Cons map_Suc_upt rev_map [symmetric] del: upt_Suc)

lemma history_live: "rot_history f base m =
    concat (map (\<lambda>i. file_text (f (rot_name base (Suc i)))) (rev [0..<m])) @ file_text (f base)"
  unfolding rot_history_def rev_upt_Suc by (simp add: comp_def)

lemma history_update: "rot_history (f(base \<mapsto> c)) base m =
    concat (map (\<lambda>i. file_text (f (rot_name base (Suc i)))) (rev [0..<m])) @ c"
  by (simp add: history_live file_text_def)

lemma history_shift:
  assumes "shifted m base f g" "0 < m"
  shows "rot_history f base m = file_text (f (rot_name base m)) @
      concat (map (\<lambda>i. file_text (g (rot_name base (Suc i)))) (rev [0..<m]))" and "g base = None"
proof -
  have "map (\<lambda>i. file_text (g (rot_name base (Suc i)))) (rev [0..<m]) = map (\<lambda>i. file_text (f (rot_name base i))) (rev [0..<m])"
    using assms(1) by (auto simp: shifted_def)
  moreover have "rev [0..<Suc m] = m # rev [0..<m]" by simp
  ultimately show "rot_history f base m = file_text (f (rot_name base m)) @
      concat (map (\<lambda>i. file_text (g (rot_name base (Suc i)))) (rev [0..<m]))"
    unfolding rot_history_def by (simp only: list.map concat.simps)
  show "g base = None" using assms by (simp add: shifted_def)
qed

lemma write_effect_history:
  assumes "write_effect s ln f f'" "0 < max_files s"
  shows "rot_history f (base_path s) (max_files s) @ ln @ [CHR 0x0A] =
    (if current_size s + length ln + 1 > max_file_size s then file_text (f (rot_name (base_path s) (max_files s))) else []) @
    rot_history f' (base_path s) (max_files s)"
proof (cases "current_size s + length ln + 1 > max_file_size s")
  case True
  with assms obtain g where "shifted (max_files s) (base_path s) f g"
    "f' = g(base_path s \<mapsto> file_text (g (base_path s)) @ ln @ [CHR 0x0A])" by (auto simp: write_effect_def)
  with True history_shift [OF this(1) assms(2)] show ?thesis by (simp add: history_update file_text_def)
next
  case False
  with assms(1) have "f' = f(base_path s \<mapsto> file_text (f (base_path s)) @ ln @ [CHR 0x0A])" by (simp add: write_effect_def)
  with False show ?thesis by (simp add: history_update history_live [of f])
qed

subsection \<open>The files as a list\<close>

text \<open>
  The rotation scheme on the contents of the files, the live one first: a line that does not fit the live file
  moves every file up by one place, the oldest one out, and starts a new live file.
\<close>

definition log_files :: "(string \<Rightarrow> bytes option) \<Rightarrow> string \<Rightarrow> nat \<Rightarrow> bytes option list" where
  "log_files f base m = map (\<lambda>i. f (rot_name base i)) [0..<Suc m]"

definition rotate_files :: "bytes option list \<Rightarrow> bytes option list" where
  "rotate_files fs = (if length fs \<le> 1 then fs else None # butlast fs)"

definition rotated_write :: "nat \<Rightarrow> string \<Rightarrow> bytes option list \<Rightarrow> bytes option list" where
  "rotated_write limit ln fs =
     (let gs = (if length (file_text (hd fs)) + length ln + 1 > limit then rotate_files fs else fs)
      in Some (file_text (hd gs) @ ln @ [CHR 0x0A]) # tl gs)"

text \<open>The lines a sink makes of the entries that pass its level.\<close>

definition sink_lines :: "localtime \<Rightarrow> string \<Rightarrow> bool \<Rightarrow> 'a sink_base_scheme \<Rightarrow> LogEntry list \<Rightarrow> string list" where
  "sink_lines lt p color s es =
     filter (\<lambda>ln. ln \<noteq> []) (map (sink_line lt p color s) (filter (\<lambda>e. ShouldLog s (level e)) es))"

lemma log_files_cons: "log_files f base m = f base # map (\<lambda>i. f (rot_name base (Suc i))) [0..<m]"
  by (simp add: log_files_def upt_conv_Cons map_Suc_upt [symmetric] comp_def del: upt_Suc)

lemma log_files_shift: "shifted m base f g \<Longrightarrow> log_files g base m = rotate_files (log_files f base m)"
proof (cases m)
  case 0
  then show "shifted m base f g \<Longrightarrow> ?thesis" by (simp add: log_files_def rotate_files_def shifted_def)
next
  case (Suc k)
  moreover assume "shifted m base f g"
  moreover have "butlast (log_files f base m) = map (\<lambda>i. f (rot_name base i)) [0..<m]"
    by (simp add: log_files_def)
  ultimately show ?thesis by (auto simp: log_files_cons [of g] rotate_files_def shifted_def) (simp_all add: log_files_def)
qed

lemma log_files_live: "log_files (f(base \<mapsto> c)) base m = Some c # tl (log_files f base m)"
  by (simp add: log_files_cons)

lemma write_effect_files:
  assumes "write_effect s ln f f'" "current_size s = length (file_text (f (base_path s)))"
  shows "log_files f' (base_path s) (max_files s) = rotated_write (max_file_size s) ln (log_files f (base_path s) (max_files s))"
    and "p \<notin> rot_name (base_path s) ` {..max_files s} \<Longrightarrow> f' p = f p"
proof -
  let ?b = "base_path s" and ?m = "max_files s"
  obtain g where g: "if current_size s + length ln + 1 > max_file_size s then shifted ?m ?b f g else g = f"
    "f' = g(?b \<mapsto> file_text (g ?b) @ ln @ [CHR 0x0A])" using assms(1) by (auto simp: write_effect_def)
  have hd: "hd (log_files h ?b ?m) = h ?b" for h by (simp add: log_files_cons)
  then have hd_shift: "hd (rotate_files (log_files f ?b ?m)) = g ?b" if "shifted ?m ?b f g" using log_files_shift [OF that] by metis
  show "log_files f' ?b ?m = rotated_write (max_file_size s) ln (log_files f ?b ?m)"
    using g(1) log_files_shift [of ?m ?b f g] hd_shift unfolding g(2) log_files_live
    by (auto simp: rotated_write_def Let_def hd assms(2) split: if_splits)
  assume p: "p \<notin> rot_name ?b ` {..?m}"
  then have "p \<noteq> ?b" by (metis atMost_iff image_eqI le0 rot_name_0)
  with p g show "f' p = f p" by (auto simp: shifted_def split: if_splits)
qed

text \<open>What lines do to all files of the system: the files of the sink follow the scheme, the others stay.\<close>

definition files_after :: "string \<Rightarrow> nat \<Rightarrow> nat \<Rightarrow> string list \<Rightarrow> (string \<Rightarrow> bytes option) \<Rightarrow> (string \<Rightarrow> bytes option) \<Rightarrow> bool" where
  "files_after base m limit lns f f' \<longleftrightarrow>
     log_files f' base m = fold (rotated_write limit) lns (log_files f base m) \<and>
     (\<forall>p. p \<notin> rot_name base ` {..m} \<longrightarrow> f' p = f p)"

lemma files_after_nil [simp]: "files_after base m limit [] f f"
  by (simp add: files_after_def)

lemma files_after_append:
  "files_after base m limit as f g \<Longrightarrow> files_after base m limit bs g h \<Longrightarrow> files_after base m limit (as @ bs) f h"
  by (simp add: files_after_def)

fun rot_writes ::
  "localtime \<Rightarrow> bytes \<Rightarrow> 'w posix \<Rightarrow> LogEntry list \<Rightarrow> RotatingFileSink \<Rightarrow> 'w \<Rightarrow> (RotatingFileSink \<times> 'w) option" where
  "rot_writes lt junk px [] s w = Some (s, w)"
| "rot_writes lt junk px (e # es) s w =
     do { (s', w') \<leftarrow> RotatingFileSink_Write lt junk px e s w; rot_writes lt junk px es s' w' }"

lemma sink_lines_Cons: "sink_lines lt p color s (e # es) = sink_lines lt p color s [e] @ sink_lines lt p color s es"
  by (simp add: sink_lines_def)

lemma sink_lines_same:
  assumes "min_level s' = min_level s" "sink_formatter s' = sink_formatter (ensure_formatter p color s)"
  shows "sink_lines lt p color s' = sink_lines lt p color s"
proof
  have "sink_line lt p color s' = sink_line lt p color s" by (rule ext) (rule sink_line_ensure [OF assms(2)])
  then show "sink_lines lt p color s' es = sink_lines lt p color s es" for es
    using assms(1) by (simp add: sink_lines_def ShouldLog_def)
qed

text \<open>The fields of a sink that no write changes.\<close>

definition same_rot :: "localtime \<Rightarrow> RotatingFileSink \<Rightarrow> RotatingFileSink \<Rightarrow> bool" where
  "same_rot lt s s' \<longleftrightarrow> base_path s' = base_path s \<and> max_files s' = max_files s \<and> max_file_size s' = max_file_size s \<and>
     sink_lines lt rotating_pattern False s' = sink_lines lt rotating_pattern False s"

lemma rot_write_one:
  assumes "fs_laws px (files, fds)" "rot_ok (files, fds) s w" "entry_ok cfg lt junk e"
  shows "\<exists>s' w'. RotatingFileSink_Write lt junk px e s w = Some (s', w') \<and> rot_ok (files, fds) s' w' \<and> same_rot lt s s' \<and>
    files_after (base_path s) (max_files s) (max_file_size s) (sink_lines lt rotating_pattern False s [e]) (files w) (files w')"
proof (cases "ShouldLog s (level e) \<and> sink_line lt rotating_pattern False s e \<noteq> []")
  case True
  let ?ln = "sink_line lt rotating_pattern False s e"
  obtain s' w' where r: "RotatingFileSink_Write lt junk px e s w = Some (s', w')" "rot_ok (files, fds) s' w'"
    "base_path s' = base_path s" "max_files s' = max_files s" "max_file_size s' = max_file_size s" "min_level s' = min_level s"
    "sink_formatter s' = sink_formatter (ensure_formatter rotating_pattern False s)"
    "write_effect s ?ln (files w) (files w')"
    using RotatingFileSink_Write_ok [OF assms] True by blast
  have "same_rot lt s s'" using r(3-5) sink_lines_same [OF r(6,7)] by (simp add: same_rot_def)
  moreover have "current_size s = length (file_text (files w (base_path s)))"
    using assms(2) by (auto simp: rot_ok_def file_text_def)
  from write_effect_files [OF r(8) this] True
  have "files_after (base_path s) (max_files s) (max_file_size s) (sink_lines lt rotating_pattern False s [e]) (files w) (files w')"
    by (simp add: files_after_def sink_lines_def)
  ultimately show ?thesis using r(1,2) by blast
next
  case False
  then have none: "sink_lines lt rotating_pattern False s [e] = []" by (auto simp: sink_lines_def)
  show ?thesis
  proof (cases "ShouldLog s (level e)")
    case no: False
    with assms(2) none show ?thesis by (simp add: RotatingFileSink_Write_def same_rot_def)
  next
    case yes: True
    define s0 where "s0 = ensure_formatter rotating_pattern False s"
    have wf: "sink_wf s" using assms(2) by (simp add: rot_ok_def)
    obtain buf where buf: "DoFormat lt junk e s0 = Some (s0\<lparr>format_buf := buf\<rparr>, 0)" "length buf = 2048"
      using DoFormat_line [OF assms(3) wf, of rotating_pattern False] False yes unfolding s0_def by auto
    define s' where "s' = s0\<lparr>format_buf := buf\<rparr>"
    have "RotatingFileSink_Write lt junk px e s w = Some (s', w)"
      using yes buf(1) by (simp add: RotatingFileSink_Write_def s0_def [symmetric] s'_def)
    moreover have "rot_ok (files, fds) s' w" "base_path s' = base_path s" "max_files s' = max_files s" "max_file_size s' = max_file_size s"
      using assms(2) buf(2) by (auto simp: rot_ok_def sink_wf_def s'_def s0_def ensure_formatter_def)
    moreover have "sink_lines lt rotating_pattern False s' = sink_lines lt rotating_pattern False s"
      by (rule sink_lines_same) (simp_all add: s'_def s0_def)
    ultimately show ?thesis using none by (simp add: same_rot_def)
  qed
qed

text \<open>A sequence of writes leaves exactly the files the scheme prescribes for its lines.\<close>

lemma rot_writes_files:
  assumes "fs_laws px (files, fds)"
  shows "rot_ok (files, fds) s w \<Longrightarrow> list_all (entry_ok cfg lt junk) es \<Longrightarrow>
    \<exists>s' w'. rot_writes lt junk px es s w = Some (s', w') \<and> rot_ok (files, fds) s' w' \<and> same_rot lt s s' \<and>
      files_after (base_path s) (max_files s) (max_file_size s) (sink_lines lt rotating_pattern False s es) (files w) (files w')"
proof (induction es arbitrary: s w)
  case Nil
  then show ?case by (simp add: same_rot_def sink_lines_def)
next
  case (Cons e es)
  let ?t = "sink_lines lt rotating_pattern False s"
  obtain s1 w1 where 1: "RotatingFileSink_Write lt junk px e s w = Some (s1, w1)" "rot_ok (files, fds) s1 w1" "same_rot lt s s1"
    "files_after (base_path s) (max_files s) (max_file_size s) (?t [e]) (files w) (files w1)"
    using rot_write_one [OF assms Cons.prems(1), of cfg lt junk e] Cons.prems(2) by auto
  obtain s' w' where 2: "rot_writes lt junk px es s1 w1 = Some (s', w')" "rot_ok (files, fds) s' w'" "same_rot lt s1 s'"
    "files_after (base_path s) (max_files s) (max_file_size s) (?t es) (files w1) (files w')"
    using Cons.IH [OF 1(2)] Cons.prems(2) 1(3) by (auto simp: same_rot_def)
  from files_after_append [OF 1(4) 2(4)] sink_lines_Cons [of lt rotating_pattern False s e es]
  show ?case using 1(1,3) 2(1-3) by (auto simp: same_rot_def)
qed

text \<open>
  With at least one rotated file the scheme keeps every file within the limit that every line fits, and what it
  loses is a beginning of the log: the files it moves out, the oldest first.
\<close>

lemma rotated_write_bound:
  assumes "1 < length fs" "length ln + 1 \<le> limit" "list_all (\<lambda>f. length (file_text f) \<le> limit) fs"
  shows "list_all (\<lambda>f. length (file_text f) \<le> limit) (rotated_write limit ln fs)" "length (rotated_write limit ln fs) = length fs"
proof -
  obtain a b r where fs: "fs = a # b # r" using assms(1) by (cases fs; cases "tl fs") auto
  show "list_all (\<lambda>f. length (file_text f) \<le> limit) (rotated_write limit ln fs)"
    using assms fs by (auto simp: rotated_write_def rotate_files_def file_text_def Let_def list_all_iff dest: in_set_butlastD)
  show "length (rotated_write limit ln fs) = length fs" using fs by (simp add: rotated_write_def rotate_files_def Let_def)
qed

lemma rotated_writes_bound:
  "1 < length fs \<Longrightarrow> list_all (\<lambda>ln. length ln + 1 \<le> limit) lns \<Longrightarrow> list_all (\<lambda>f. length (file_text f) \<le> limit) fs \<Longrightarrow>
   list_all (\<lambda>f. length (file_text f) \<le> limit) (fold (rotated_write limit) lns fs)"
  by (induction lns arbitrary: fs) (simp_all add: rotated_write_bound)

lemma rotated_write_history:
  assumes "1 < length fs"
  shows "concat (map file_text (rev fs)) @ ln @ [CHR 0x0A] =
    (if length (file_text (hd fs)) + length ln + 1 > limit then file_text (last fs) else []) @
    concat (map file_text (rev (rotated_write limit ln fs)))"
proof -
  obtain a r where fs: "fs = a # r" "r \<noteq> []" using assms by (cases fs) auto
  have "concat (map file_text (rev fs)) = file_text (last fs) @ concat (map file_text (rev (butlast fs)))"
    using fs by (metis append_butlast_last_id concat.simps(2) list.simps(3,9) rev_eq_Cons_iff rev_rev_ident)
  then show ?thesis using fs by (auto simp: rotated_write_def rotate_files_def file_text_def Let_def)
qed

lemma rotated_writes_history:
  "1 < length fs \<Longrightarrow> \<exists>lost. concat (map file_text (rev fs)) @ concat (map (\<lambda>ln. ln @ [CHR 0x0A]) lns) =
     lost @ concat (map file_text (rev (fold (rotated_write limit) lns fs)))"
proof (induction lns arbitrary: fs)
  case Nil
  then show ?case by simp
next
  case (Cons ln lns)
  have "1 < length (rotated_write limit ln fs)" using Cons.prems by (cases fs; cases "tl fs") (auto simp: rotated_write_def rotate_files_def Let_def)
  from Cons.IH [OF this] rotated_write_history [OF Cons.prems, of ln limit] show ?case
    by (metis (no_types, lifting) append.assoc concat.simps(2) fold_simps(2) list.simps(9))
qed

subsection \<open>Properties\<close>

text \<open>
  C21: rotation loses nothing but the oldest file. On a file system that obeys the documented laws, writing an
  accepted entry appends its line and a newline to the log as a whole (the rotated files, oldest first, then
  the live file); when the live file would grow beyond its limit, the files move up by one name first and only
  the content of the oldest one leaves the log. The sink's size counter stays the size of the live file.
\<close>

theorem rotating_write_history:
  assumes "fs_laws px (files, fds)" and "rot_ok (files, fds) s w" and "entry_ok cfg lt junk e"
    and "ShouldLog s (level e)" and "sink_line lt rotating_pattern False s e \<noteq> []" and "0 < max_files s"
  shows "\<exists>s' w'. RotatingFileSink_Write lt junk px e s w = Some (s', w') \<and> rot_ok (files, fds) s' w' \<and>
    rot_history (files w) (base_path s) (max_files s) @ sink_line lt rotating_pattern False s e @ [CHR 0x0A] =
      (if current_size s + length (sink_line lt rotating_pattern False s e) + 1 > max_file_size s
       then file_text (files w (rot_name (base_path s) (max_files s))) else []) @
      rot_history (files w') (base_path s) (max_files s)"
  using RotatingFileSink_Write_ok [OF assms(1-5)] write_effect_history [OF _ assms(6)] by metis

text \<open>
  C36: the size limit holds. If the sink keeps at least one rotated file, all its files are within the limit and
  the line of each accepted entry fits the limit with its newline, then after any sequence of writes all its
  files, the live one and the rotated ones, are within the limit.
\<close>

theorem rotating_size_bound:
  assumes "fs_laws px (files, fds)" and "rot_ok (files, fds) s w" and "list_all (entry_ok cfg lt junk) es"
    and "0 < max_files s" and "\<forall>i\<le>max_files s. length (file_text (files w (rot_name (base_path s) i))) \<le> max_file_size s"
    and "\<forall>ln\<in>set (sink_lines lt rotating_pattern False s es). length ln + 1 \<le> max_file_size s"
  shows "\<exists>s' w'. rot_writes lt junk px es s w = Some (s', w') \<and> rot_ok (files, fds) s' w' \<and>
    (\<forall>i\<le>max_files s. length (file_text (files w' (rot_name (base_path s) i))) \<le> max_file_size s)"
proof -
  let ?within = "\<lambda>w. list_all (\<lambda>f. length (file_text f) \<le> max_file_size s) (log_files (files w) (base_path s) (max_files s))"
  have within: "?within w \<longleftrightarrow> (\<forall>i\<le>max_files s. length (file_text (files w (rot_name (base_path s) i))) \<le> max_file_size s)" for w
    by (auto simp: log_files_def list_all_iff less_Suc_eq_le)
  obtain s' w' where r: "rot_writes lt junk px es s w = Some (s', w')" "rot_ok (files, fds) s' w'"
    "files_after (base_path s) (max_files s) (max_file_size s) (sink_lines lt rotating_pattern False s es) (files w) (files w')"
    using rot_writes_files [OF assms(1-3)] by blast
  have "1 < length (log_files (files w) (base_path s) (max_files s))" using assms(4) by (simp add: log_files_def)
  from rotated_writes_bound [OF this, of "max_file_size s" "sink_lines lt rotating_pattern False s es"] r(3) assms(5,6)
  have "?within w'" unfolding within [symmetric] by (simp add: files_after_def list_all_iff)
  with r(1,2) show ?thesis unfolding within by blast
qed

text \<open>
  C40: with \<open>max_files\<close> zero the limit is void. Rotation then renames nothing and reopens the same file, so
  every write, however large the file already is, appends to the live file.
\<close>

theorem rotating_zero_files_unbounded:
  assumes "fs_laws px (files, fds)" and "rot_ok (files, fds) s w" and "entry_ok cfg lt junk e"
    and "ShouldLog s (level e)" and "sink_line lt rotating_pattern False s e \<noteq> []" and "max_files s = 0"
  shows "\<exists>s' w'. RotatingFileSink_Write lt junk px e s w = Some (s', w') \<and> rot_ok (files, fds) s' w' \<and>
    files w' = (files w)(base_path s \<mapsto>
      file_text (files w (base_path s)) @ sink_line lt rotating_pattern False s e @ [CHR 0x0A])"
proof -
  obtain s' w' where r: "RotatingFileSink_Write lt junk px e s w = Some (s', w')" "rot_ok (files, fds) s' w'"
    "write_effect s (sink_line lt rotating_pattern False s e) (files w) (files w')"
    using RotatingFileSink_Write_ok [OF assms(1-5)] by blast
  moreover have "g = files w" if "shifted 0 (base_path s) (files w) g" for g
    using that by (auto simp: shifted_def)
  ultimately show ?thesis using assms(6) by (auto simp: write_effect_def split: if_splits)
qed

text \<open>A sink on an empty system in memory, for the witnesses.\<close>

definition demo_entry :: LogEntry where
  "demo_entry = zero_entry (platform_config False)"

definition demo_sink :: "nat \<Rightarrow> nat \<Rightarrow> RotatingFileSink \<times> mem_os" where
  "demo_sink msize mfiles = RotatingFileSink_init mem_posix (replicate 2048 NUL) ''a.log'' msize mfiles (mem_os_init 0)"

lemma demo_entry_ok: "entry_ok (platform_config False) (\<lambda>_. None) (replicate 128 NUL) demo_entry"
  using wf_zero_entry [OF valid_platform_config, of False] by (simp add: entry_ok_def demo_entry_def localtime_ok_def)

lemma demo_sink_ok:
  obtains s w where "demo_sink msize mfiles = (s, w)" "rot_ok (mem_files, mem_fds) s w" "max_files s = mfiles"
    "max_file_size s = msize" "ShouldLog s (level demo_entry)" "base_path s = ''a.log''" "sink_formatter s = None"
proof -
  let ?s = "\<lparr>sink_formatter = None, min_level = TRACE, format_buf = replicate 2048 NUL, base_path = ''a.log'',
      max_file_size = msize, max_files = mfiles, current_size = 0, rot_fd = - 1\<rparr> :: RotatingFileSink"
  have "sink_wf ?s" "mem_fds (mem_os_init 0) = Map.empty" by (simp_all add: sink_wf_def mem_fds_def mem_os_init_def fun_eq_iff)
  from OpenFile_ok [OF mem_posix_laws this] obtain s w where
    "Rotating_OpenFile mem_posix ?s (mem_os_init 0) = (s, w)" "rot_ok (mem_files, mem_fds) s w"
    and s: "s = ?s\<lparr>rot_fd := rot_fd s, current_size := current_size s\<rparr>" by blast
  moreover have "max_files s = mfiles" "max_file_size s = msize" "min_level s = TRACE" "base_path s = ''a.log''" "sink_formatter s = None"
    by (subst s, simp)+
  ultimately show ?thesis
    by (intro that) (auto simp: demo_sink_def RotatingFileSink_init_def ShouldLog_def less_eq_LogLevel_def)
qed

lemma demo_line:
  assumes "sink_formatter s = None"
  shows "sink_line (\<lambda>_. None) rotating_pattern False s demo_entry \<noteq> []"
  using assms by (simp add: pattern_nonempty_line rotating_pattern_def)

theorem rotating_write_history_witness:
  "\<exists>s w s' w'. demo_sink 10 3 = (s, w) \<and>
    RotatingFileSink_Write (\<lambda>_. None) (replicate 128 NUL) mem_posix demo_entry s w = Some (s', w') \<and> rot_ok (mem_files, mem_fds) s' w'"
proof -
  obtain s w where d: "demo_sink 10 3 = (s, w)" "rot_ok (mem_files, mem_fds) s w" "max_files s = 3"
    "ShouldLog s (level demo_entry)" "sink_formatter s = None" by (rule demo_sink_ok)
  from rotating_write_history [OF mem_posix_laws d(2) demo_entry_ok d(4) demo_line [OF d(5)]] d show ?thesis by fastforce
qed

lemma demo_files:
  assumes "demo_sink msize mfiles = (s, w)"
  shows "file_text (mem_files w p) = []"
proof -
  let ?s = "\<lparr>sink_formatter = None, min_level = TRACE, format_buf = replicate 2048 NUL, base_path = ''a.log'',
      max_file_size = msize, max_files = mfiles, current_size = 0, rot_fd = - 1\<rparr> :: RotatingFileSink"
  have "sink_wf ?s" "mem_fds (mem_os_init 0) = Map.empty" by (simp_all add: sink_wf_def mem_fds_def mem_os_init_def fun_eq_iff)
  from OpenFile_ok [OF mem_posix_laws this] assms have "mem_files w = (mem_files (mem_os_init 0))(''a.log'' \<mapsto> [])"
    by (auto simp: demo_sink_def RotatingFileSink_init_def mem_os_init_def)
  then show ?thesis by (simp add: file_text_def mem_os_init_def)
qed

theorem rotating_size_bound_witness:
  "\<exists>s w s' w'. demo_sink 2048 3 = (s, w) \<and>
    rot_writes (\<lambda>_. None) (replicate 128 NUL) mem_posix (replicate 100 demo_entry) s w = Some (s', w') \<and>
    length (file_text (mem_files w' (rot_name ''a.log'' 2))) \<le> 2048"
proof -
  obtain s w where d: "demo_sink 2048 3 = (s, w)" "rot_ok (mem_files, mem_fds) s w" "max_files s = 3"
    "max_file_size s = 2048" "base_path s = ''a.log''" by (rule demo_sink_ok)
  have "list_all (entry_ok (platform_config False) (\<lambda>_. None) (replicate 128 NUL)) (replicate 100 demo_entry)"
    using demo_entry_ok by (simp add: list_all_iff)
  moreover have "\<forall>ln\<in>set (sink_lines (\<lambda>_. None) rotating_pattern False s (replicate 100 demo_entry)). length ln + 1 \<le> max_file_size s"
    using sink_line_short [OF demo_entry_ok, of rotating_pattern False s] d(4) by (auto simp: sink_lines_def Suc_le_eq)
  ultimately show ?thesis
    using rotating_size_bound [OF mem_posix_laws d(2), of "platform_config False" "\<lambda>_. None" "replicate 128 NUL" "replicate 100 demo_entry"] demo_files [OF d(1)] d by fastforce
qed

theorem rotating_zero_files_unbounded_witness:
  "\<exists>s w s' w'. demo_sink 1 0 = (s, w) \<and>
    RotatingFileSink_Write (\<lambda>_. None) (replicate 128 NUL) mem_posix demo_entry s w = Some (s', w') \<and> rot_ok (mem_files, mem_fds) s' w'"
proof -
  obtain s w where d: "demo_sink 1 0 = (s, w)" "rot_ok (mem_files, mem_fds) s w" "max_files s = 0"
    "ShouldLog s (level demo_entry)" "sink_formatter s = None" by (rule demo_sink_ok)
  from rotating_zero_files_unbounded [OF mem_posix_laws d(2) demo_entry_ok d(4) demo_line [OF d(5)] d(3)] d show ?thesis by blast
qed

end
