(* ===== verification/Daily_File_Sink.thy ===== *)
theory Daily_File_Sink
  imports Sink_Interface Posix
begin

text \<open>
  The file-per-day sink (\<open>daily_file_sink.hpp\<close>, \<open>daily_file_sink.cpp\<close>). The conversions of a time into
  calendar fields, \<open>localtime_r\<close> and \<open>gmtime_r\<close>, are the pair \<open>tz\<close>; the system calls are \<open>px\<close>. The
  age of a file is compared in whole seconds: the doubles of the source are exact for such values.
\<close>

type_synonym timezone = "localtime \<times> localtime"

record DailyFileSink = sink_base +
  base_dir :: string
  base_name :: string
  max_days :: nat
  use_utc :: bool
  daily_fd :: int
  current_day :: int

text \<open>\<open>gmtime_r\<close> or \<open>localtime_r\<close> into a zero-initialised \<open>tm\<close>.\<close>

definition daily_tm :: "timezone \<Rightarrow> bool \<Rightarrow> int \<Rightarrow> tm" where
  "daily_tm tz utc t = (case (if utc then snd tz else fst tz) t of None \<Rightarrow> zero_tm | Some m \<Rightarrow> m)"

definition GetDay :: "timezone \<Rightarrow> DailyFileSink \<Rightarrow> int \<Rightarrow> int" where
  "GetDay tz s t = (let m = daily_tm tz (use_utc s) t in tm_yday m + tm_year m * 366)"

definition join_path :: "string \<Rightarrow> string \<Rightarrow> string" where
  "join_path dir name = (if dir \<noteq> [] \<and> last dir \<noteq> CHR ''/'' then dir @ ''/'' else dir) @ name"

definition MakeFilename :: "timezone \<Rightarrow> DailyFileSink \<Rightarrow> int \<Rightarrow> string" where
  "MakeFilename tz s t =
     (let date_str = take 31 (date_text (daily_tm tz (use_utc s) t))
      in join_path (base_dir s) (base_name s @ ''_'' @ date_str @ ''.log''))"

text \<open>The loop of \<open>MkdirRecursive\<close>: the part of the path consumed so far and the rest.\<close>

fun MkdirRecursive_loop :: "'w posix \<Rightarrow> string \<Rightarrow> string \<Rightarrow> 'w \<Rightarrow> 'w" where
  "MkdirRecursive_loop px tmp [] w = w"
| "MkdirRecursive_loop px tmp (c # rest) w =
     (let tmp' = tmp @ [c];
          w' = (if c = CHR ''/'' \<or> rest = [] then px_mkdir px tmp' w else w)
      in MkdirRecursive_loop px tmp' rest w')"

definition MkdirRecursive :: "'w posix \<Rightarrow> string \<Rightarrow> 'w \<Rightarrow> 'w" where
  "MkdirRecursive px path w = MkdirRecursive_loop px [] path w"

definition is_log_name :: "string \<Rightarrow> string \<Rightarrow> bool" where
  "is_log_name base name \<longleftrightarrow> (let prefix = base @ ''_''; suffix = ''.log'' in
     \<not> length name < length prefix + length suffix \<and>
     take (length prefix) name = prefix \<and>
     drop (length name - length suffix) name = suffix)"

text \<open>The loop over the directory entries.\<close>

fun Cleanup_loop :: "'w posix \<Rightarrow> DailyFileSink \<Rightarrow> int \<Rightarrow> string list \<Rightarrow> 'w \<Rightarrow> 'w" where
  "Cleanup_loop px s now [] w = w"
| "Cleanup_loop px s now (name # names) w =
     (if \<not> is_log_name (base_name s) name then Cleanup_loop px s now names w
      else let full_path = join_path (base_dir s) name in
        (case px_stat_mtime px full_path w of
           None \<Rightarrow> Cleanup_loop px s now names w
         | Some mtime \<Rightarrow>
             if now - mtime > int (max_days s) * 86400
             then Cleanup_loop px s now names (px_remove px full_path w)
             else Cleanup_loop px s now names w))"

definition CleanupOldFiles :: "'w posix \<Rightarrow> DailyFileSink \<Rightarrow> 'w \<Rightarrow> 'w" where
  "CleanupOldFiles px s w = (case px_readdir px (base_dir s) w of
     None \<Rightarrow> w
   | Some names \<Rightarrow> (let (now, w1) = px_time px w in Cleanup_loop px s now names w1))"

definition OpenFileForToday :: "timezone \<Rightarrow> 'w posix \<Rightarrow> DailyFileSink \<Rightarrow> 'w \<Rightarrow> DailyFileSink \<times> 'w" where
  "OpenFileForToday tz px s w =
     (let (now, w1) = px_time px w;
          filename = MakeFilename tz s now;
          w2 = (if 0 \<le> daily_fd s then px_close px (daily_fd s) (px_fsync px (daily_fd s) w1) else w1);
          (fd, w3) = px_open_append px filename w2;
          s1 = s\<lparr>daily_fd := fd, current_day := GetDay tz s now\<rparr>;
          w4 = (if 0 < max_days s1 then CleanupOldFiles px s1 w3 else w3)
      in (s1, w4))"

definition DailyFileSink_init ::
  "timezone \<Rightarrow> 'w posix \<Rightarrow> bytes \<Rightarrow> string \<Rightarrow> string \<Rightarrow> nat \<Rightarrow> bool \<Rightarrow> 'w \<Rightarrow> DailyFileSink \<times> 'w" where
  "DailyFileSink_init tz px fbuf dir name days utc w =
     (let s = \<lparr>sink_formatter = None, min_level = TRACE, format_buf = fbuf, base_dir = dir, base_name = name,
               max_days = days, use_utc = utc, daily_fd = - 1, current_day = - 1\<rparr>
      in OpenFileForToday tz px s (MkdirRecursive px dir w))"

definition DailyFileSink_destroy :: "'w posix \<Rightarrow> DailyFileSink \<Rightarrow> 'w \<Rightarrow> DailyFileSink \<times> 'w" where
  "DailyFileSink_destroy px s w =
     (if 0 \<le> daily_fd s then (s\<lparr>daily_fd := - 1\<rparr>, px_close px (daily_fd s) (px_fsync px (daily_fd s) w)) else (s, w))"

definition DailyFileSink_Write ::
  "timezone \<Rightarrow> bytes \<Rightarrow> 'w posix \<Rightarrow> LogEntry \<Rightarrow> DailyFileSink \<Rightarrow> 'w \<Rightarrow> (DailyFileSink \<times> 'w) option" where
  "DailyFileSink_Write tz junk px e s w =
     (if \<not> ShouldLog s (level e) then Some (s, w)
      else let s1 = ensure_formatter default_pattern False s;
               (now, w1) = px_time px w;
               (s2, w2) = (if GetDay tz s1 now \<noteq> current_day s1 then OpenFileForToday tz px s1 w1 else (s1, w1))
        in do {
          (s3, len) \<leftarrow> DoFormat (fst tz) junk e s2;
          if len = 0 \<or> daily_fd s3 < 0 then Some (s3, w2)
          else let (n, w3) = px_write px (daily_fd s3) (take len (format_buf s3)) w2;
                   (n', w4) = px_write px (daily_fd s3) [CHR 0x0A] w3
               in Some (s3, w4) })"

definition DailyFileSink_Flush :: "'w posix \<Rightarrow> DailyFileSink \<Rightarrow> 'w \<Rightarrow> 'w" where
  "DailyFileSink_Flush px s w = (if 0 \<le> daily_fd s then px_fsync px (daily_fd s) w else w)"

subsection \<open>Days and file names\<close>

lemma day_number_inject:
  assumes "tm_yday a \<in> {0..365}" "tm_yday b \<in> {0..365}"
  shows "tm_yday a + tm_year a * 366 = tm_yday b + tm_year b * 366 \<longleftrightarrow> tm_year a = tm_year b \<and> tm_yday a = tm_yday b"
proof
  assume eq: "tm_yday a + tm_year a * 366 = tm_yday b + tm_year b * 366"
  have "tm_year a = (tm_yday a + tm_year a * 366) div 366" "tm_year b = (tm_yday b + tm_year b * 366) div 366"
    using assms by simp_all
  with eq show "tm_year a = tm_year b \<and> tm_yday a = tm_yday b" by simp
qed simp

lemma tm_ok_yday: "tm_ok m \<Longrightarrow> tm_yday m \<in> {0..365}"
  by (simp add: tm_ok_def)

text \<open>
  What the calendar promises: fields in their ranges, and a year and a day of the year determine the month and
  the day of the month.
\<close>

definition calendar_ok :: "timezone \<Rightarrow> bool \<Rightarrow> bool" where
  "calendar_ok tz utc \<longleftrightarrow> (\<forall>t. tm_ok (daily_tm tz utc t)) \<and>
     (\<forall>t u. tm_year (daily_tm tz utc t) = tm_year (daily_tm tz utc u) \<longrightarrow>
        tm_yday (daily_tm tz utc t) = tm_yday (daily_tm tz utc u) \<longrightarrow>
        tm_mon (daily_tm tz utc t) = tm_mon (daily_tm tz utc u) \<and>
        tm_mday (daily_tm tz utc t) = tm_mday (daily_tm tz utc u))"

lemma same_day_same_file:
  assumes "calendar_ok tz (use_utc s)" "GetDay tz s t = GetDay tz s u"
  shows "MakeFilename tz s t = MakeFilename tz s u"
proof -
  let ?a = "daily_tm tz (use_utc s) t" and ?b = "daily_tm tz (use_utc s) u"
  have "tm_ok ?a" "tm_ok ?b" using assms(1) by (auto simp: calendar_ok_def)
  then have "tm_year ?a = tm_year ?b" "tm_yday ?a = tm_yday ?b"
    using day_number_inject [of ?a ?b] assms(2) by (auto simp: GetDay_def Let_def tm_ok_def)
  moreover from this have "tm_mon ?a = tm_mon ?b \<and> tm_mday ?a = tm_mday ?b"
    using assms(1) unfolding calendar_ok_def by blast
  ultimately have "date_text ?a = date_text ?b" by (simp only: date_text_def)
  then show ?thesis by (simp add: MakeFilename_def)
qed

subsection \<open>Removing old files\<close>

lemma fs_time:
  assumes "fs_laws px (files, fds)"
  shows "files (snd (px_time px w)) = files w" "fds (snd (px_time px w)) = fds w"
  using assms by (simp_all add: fs_laws_def time_law_def)

text \<open>A file of this logger whose last modification is more than \<open>max_days\<close> days ago.\<close>

definition expired :: "'w posix \<Rightarrow> DailyFileSink \<Rightarrow> int \<Rightarrow> 'w \<Rightarrow> string \<Rightarrow> bool" where
  "expired px s now w name \<longleftrightarrow> is_log_name (base_name s) name \<and>
     (case px_stat_mtime px (join_path (base_dir s) name) w of
        None \<Rightarrow> False | Some mtime \<Rightarrow> now - mtime > int (max_days s) * 86400)"

text \<open>Removing a file does not change the modification time of another.\<close>

definition mtime_law :: "'w posix \<Rightarrow> bool" where
  "mtime_law px \<longleftrightarrow> (\<forall>p q w. p \<noteq> q \<longrightarrow> px_stat_mtime px q (px_remove px p w) = px_stat_mtime px q w)"

lemma is_log_name_iff: "is_log_name base name \<longleftrightarrow> (\<exists>mid. name = base @ ''_'' @ mid @ ''.log'')"
proof
  assume a: "is_log_name base name"
  let ?k = "length base + 1" and ?n = "length name"
  from a have l: "?k + 4 \<le> ?n" and p: "take ?k name = base @ ''_''" and q: "drop (?n - 4) name = ''.log''"
    by (auto simp: is_log_name_def Let_def numeral_eq_Suc)
  have "drop ?k name = take (?n - 4 - ?k) (drop ?k name) @ drop (?n - 4) name"
    using l append_take_drop_id [of "?n - 4 - ?k" "drop ?k name"] by (metis add.commute add_leD1 drop_drop le_add_diff_inverse le_diff_conv2)
  then have "name = (base @ ''_'') @ take (?n - 4 - ?k) (drop ?k name) @ ''.log''"
    using append_take_drop_id [of ?k name] p q by metis
  then show "\<exists>mid. name = base @ ''_'' @ mid @ ''.log''" by (metis append_assoc)
qed (auto simp: is_log_name_def Let_def)

lemma join_path_inject [simp]: "join_path dir n = join_path dir m \<longleftrightarrow> n = m"
  by (simp add: join_path_def)

lemma Cleanup_loop_Cons:
  "Cleanup_loop px s now (name # names) w =
     Cleanup_loop px s now names (if expired px s now w name then px_remove px (join_path (base_dir s) name) w else w)"
  by (simp add: expired_def split: option.split)

lemma Cleanup_loop_files:
  assumes "fs_laws px (files, fds)" "mtime_law px"
  shows "distinct names \<Longrightarrow> \<forall>n\<in>set names. join_path (base_dir s) n \<in> ran (fds w) \<longrightarrow> \<not> expired px s now w n \<Longrightarrow>
    fds (Cleanup_loop px s now names w) = fds w \<and>
    files (Cleanup_loop px s now names w) =
      (\<lambda>p. if \<exists>n\<in>set names. expired px s now w n \<and> p = join_path (base_dir s) n then None else files w p)"
proof (induction names arbitrary: w)
  case Nil
  then show ?case by simp
next
  case (Cons name names)
  let ?p = "join_path (base_dir s) name"
  show ?case
  proof (cases "expired px s now w name")
    case False
    then have "(\<exists>n\<in>set (name # names). expired px s now w n \<and> p = join_path (base_dir s) n) \<longleftrightarrow>
      (\<exists>n\<in>set names. expired px s now w n \<and> p = join_path (base_dir s) n)" for p by auto
    moreover have "\<forall>n\<in>set names. join_path (base_dir s) n \<in> ran (fds w) \<longrightarrow> \<not> expired px s now w n" using Cons.prems(2) by simp
    ultimately show ?thesis using False Cons.IH [of w] Cons.prems(1) by (simp only: Cleanup_loop_Cons if_False distinct.simps)
  next
    case True
    define w2 where "w2 = px_remove px ?p w"
    have np: "?p \<notin> ran (fds w)" using Cons.prems(2) True by auto
    have w2: "files w2 = (files w)(?p := None)" "fds w2 = fds w" unfolding w2_def using fs_remove [OF assms(1) np] by auto
    have ex: "expired px s now w2 n = expired px s now w n" if "n \<noteq> name" for n
      using assms(2) that unfolding expired_def w2_def mtime_law_def by auto
    have "\<forall>n\<in>set names. join_path (base_dir s) n \<in> ran (fds w2) \<longrightarrow> \<not> expired px s now w2 n"
      using Cons.prems(1,2) np ex w2(2) by (metis distinct.simps(2) list.set_intros(2))
    with Cons.IH [of w2] Cons.prems(1) have IH: "fds (Cleanup_loop px s now names w2) = fds w"
      "files (Cleanup_loop px s now names w2) =
        (\<lambda>p. if \<exists>n\<in>set names. expired px s now w2 n \<and> p = join_path (base_dir s) n then None else files w2 p)"
      using w2(2) by simp_all
    have "(\<exists>n\<in>set names. expired px s now w2 n \<and> p = join_path (base_dir s) n) \<longleftrightarrow>
      (\<exists>n\<in>set names. expired px s now w n \<and> p = join_path (base_dir s) n)" for p
      using ex Cons.prems(1) by (metis distinct.simps(2))
    with IH True w2(1) show ?thesis by (auto simp: Cleanup_loop_Cons w2_def [symmetric] fun_eq_iff simp del: Cleanup_loop.simps)
  qed
qed

text \<open>The files that a cleanup in the state \<open>v\<close> removes.\<close>

definition swept :: "'w posix \<Rightarrow> DailyFileSink \<Rightarrow> 'w \<Rightarrow> string \<Rightarrow> bool" where
  "swept px s v q \<longleftrightarrow> (case px_readdir px (base_dir s) v of None \<Rightarrow> False
     | Some names \<Rightarrow> (let (now, v1) = px_time px v in \<exists>n\<in>set names. expired px s now v1 n \<and> q = join_path (base_dir s) n))"

text \<open>
  What a cleanup relies on while the file \<open>p\<close> is open: a directory lists a name once, removing a file does not touch
  another one's time, and the open file is not itself so old that it has to go.
\<close>

definition cleanup_laws :: "'w posix \<Rightarrow> 'w fs_view \<Rightarrow> DailyFileSink \<Rightarrow> string \<Rightarrow> bool" where
  "cleanup_laws px v s p \<longleftrightarrow> mtime_law px \<and> (\<forall>w names. px_readdir px (base_dir s) w = Some names \<longrightarrow> distinct names) \<and>
     (\<forall>w. p \<in> ran (snd v w) \<longrightarrow> \<not> swept px s w p)"

lemma swept_same:
  assumes "base_name s' = base_name s" "base_dir s' = base_dir s" "max_days s' = max_days s"
  shows "swept px s' = swept px s"
proof -
  have "expired px s' = expired px s" unfolding expired_def [abs_def] assms ..
  then show ?thesis unfolding swept_def [abs_def] assms by (rule ssubst) (rule refl)
qed

lemma CleanupOldFiles_files:
  assumes laws: "fs_laws px (files, fds)" and cl: "cleanup_laws px (files, fds) s p" and fds: "fds w = [fd \<mapsto> p]"
  shows "fds (CleanupOldFiles px s w) = fds w"
    and "files (CleanupOldFiles px s w) = (\<lambda>q. if swept px s w q then None else files w q)"
proof -
  have "fds (CleanupOldFiles px s w) = fds w \<and> files (CleanupOldFiles px s w) = (\<lambda>q. if swept px s w q then None else files w q)"
  proof (cases "px_readdir px (base_dir s) w")
    case None
    then show ?thesis by (simp add: CleanupOldFiles_def swept_def)
  next
    case (Some names)
    obtain now w1 where t: "px_time px w = (now, w1)" by fastforce
    have w1: "files w1 = files w" "fds w1 = fds w" using fs_time [OF laws, of w] t by simp_all
    have sw: "swept px s w q \<longleftrightarrow> (\<exists>n\<in>set names. expired px s now w1 n \<and> q = join_path (base_dir s) n)" for q
      using Some t by (simp add: swept_def)
    have "distinct names" "mtime_law px" "\<not> swept px s w p" using cl Some fds by (auto simp: cleanup_laws_def)
    then have "\<forall>n\<in>set names. join_path (base_dir s) n \<in> ran (fds w1) \<longrightarrow> \<not> expired px s now w1 n"
      unfolding sw w1(2) fds by auto
    from Cleanup_loop_files [OF laws \<open>mtime_law px\<close> \<open>distinct names\<close> this] Some t show ?thesis
      unfolding sw w1 by (simp add: CleanupOldFiles_def)
  qed
  then show "fds (CleanupOldFiles px s w) = fds w"
    and "files (CleanupOldFiles px s w) = (\<lambda>q. if swept px s w q then None else files w q)" by simp_all
qed

subsection \<open>The sink and its files\<close>

definition daily_ok :: "timezone \<Rightarrow> 'w fs_view \<Rightarrow> DailyFileSink \<Rightarrow> 'w \<Rightarrow> bool" where
  "daily_ok tz v s w \<longleftrightarrow> (case v of (files, fds) \<Rightarrow> sink_wf s \<and> 0 \<le> daily_fd s \<and>
     (\<exists>t. current_day s = GetDay tz s t \<and> fds w = [daily_fd s \<mapsto> MakeFilename tz s t] \<and>
        files w (MakeFilename tz s t) \<noteq> None))"

lemma daily_fields [simp]:
  "GetDay tz (s\<lparr>daily_fd := a, current_day := b\<rparr>) t = GetDay tz s t"
  "MakeFilename tz (s\<lparr>daily_fd := a, current_day := b\<rparr>) t = MakeFilename tz s t"
  "GetDay tz (s\<lparr>format_buf := c\<rparr>) t = GetDay tz s t" "MakeFilename tz (s\<lparr>format_buf := c\<rparr>) t = MakeFilename tz s t"
  "GetDay tz (ensure_formatter p col s) t = GetDay tz s t" "MakeFilename tz (ensure_formatter p col s) t = MakeFilename tz s t"
  by (simp_all add: GetDay_def MakeFilename_def ensure_formatter_def)

text \<open>
  Opening the file of today: the clock is read, the old descriptor closed, the file \<open>p\<close> of that time opened and
  created when it is new; from the state \<open>v\<close> after that, old files are removed when there is a retention limit.
\<close>

lemma OpenFileForToday_ok:
  assumes laws: "fs_laws px (files, fds)" and time: "px_time px w = (now, w1)" and p: "p = MakeFilename tz s now"
    and cl: "0 < max_days s \<Longrightarrow> cleanup_laws px (files, fds) s p" and fds: "fds w = (if 0 \<le> daily_fd s then [daily_fd s \<mapsto> p0] else Map.empty)"
  shows "\<exists>fd w' v. OpenFileForToday tz px s w = (s\<lparr>daily_fd := fd, current_day := GetDay tz s now\<rparr>, w') \<and> 0 \<le> fd \<and>
    fds w' = [fd \<mapsto> p] \<and> files v = (files w)(p \<mapsto> file_text (files w p)) \<and> files w' p = files v p \<and>
    (\<forall>q. files w' q = (if 0 < max_days s \<and> swept px s v q then None else files v q))"
proof -
  have w1: "files w1 = files w" "fds w1 = fds w" using fs_time [OF laws, of w] time by simp_all
  define w2 where "w2 = (if 0 \<le> daily_fd s then px_close px (daily_fd s) (px_fsync px (daily_fd s) w1) else w1)"
  have w2: "files w2 = files w" "fds w2 = Map.empty"
    using w1 fds fs_close [OF laws] by (auto simp: w2_def)
  obtain fd w3 where w3: "px_open_append px p w2 = (fd, w3)" by fastforce
  note o = fs_open [OF laws w3]
  let ?s = "s\<lparr>daily_fd := fd, current_day := GetDay tz s now\<rparr>"
  let ?w' = "if 0 < max_days s then CleanupOldFiles px ?s w3 else w3"
  have run: "OpenFileForToday tz px s w = (?s, ?w')"
    using time w3 p by (simp add: OpenFileForToday_def w2_def [symmetric] Let_def)
  have w3': "fds w3 = [fd \<mapsto> p]" "files w3 = (files w)(p \<mapsto> file_text (files w p))" using o(3,4) w2 by (simp_all add: file_text_def)
  have sw: "swept px ?s = swept px s" by (rule swept_same) simp_all
  have "fds ?w' = [fd \<mapsto> p] \<and> (\<forall>q. files ?w' q = (if 0 < max_days s \<and> swept px s w3 q then None else files w3 q)) \<and>
      (0 < max_days s \<longrightarrow> \<not> swept px s w3 p)"
  proof (cases "0 < max_days s")
    case True
    then have "cleanup_laws px (files, fds) ?s p" using cl by (simp add: cleanup_laws_def sw)
    from CleanupOldFiles_files [OF laws this w3'(1)] True cl w3'(1) show ?thesis by (auto simp: sw cleanup_laws_def)
  qed (simp add: w3')
  then show ?thesis using run o(1) w3'(2)
    by (intro exI [of _ fd, OF exI [of _ ?w', OF exI [of _ w3]]]) auto
qed

lemma daily_write_two:
  assumes laws: "fs_laws px (files, fds)" and "fds w fd = Some p" "files w p = Some c"
  shows "\<exists>n n' w3 w4. px_write px fd d w = (n, w3) \<and> px_write px fd [CHR 0x0A] w3 = (n', w4) \<and>
    fds w4 = fds w \<and> files w4 = (files w)(p \<mapsto> c @ d @ [CHR 0x0A])"
proof -
  obtain w3 where w3: "px_write px fd d w = (int (length d), w3)" "fds w3 = fds w" "files w3 = (files w)(p \<mapsto> c @ d)"
    using fs_write [OF assms] by blast
  moreover obtain w4 where "px_write px fd [CHR 0x0A] w3 = (1, w4)" "fds w4 = fds w3"
    "files w4 = (files w3)(p \<mapsto> (c @ d) @ [CHR 0x0A])"
    using fs_write [OF laws, of w3 fd p "c @ d" "[CHR 0x0A]"] w3 assms(2) by auto
  ultimately show ?thesis by auto
qed

text \<open>The day check of \<open>Write\<close>: afterwards the file of the time it goes by is open.\<close>

lemma daily_reopen:
  assumes laws: "fs_laws px (files, fds)" and cal: "calendar_ok tz (use_utc s)" and ok: "daily_ok tz (files, fds) s w"
    and now: "now = (if GetDay tz s t1 \<noteq> current_day s then fst (px_time px w) else t1)" and p: "p = MakeFilename tz s now"
    and cl: "0 < max_days s \<Longrightarrow> cleanup_laws px (files, fds) s p"
  shows "\<exists>s' w' v. (if GetDay tz s t1 \<noteq> current_day s then OpenFileForToday tz px s w else (s, w)) = (s', w') \<and>
    s' = s\<lparr>daily_fd := daily_fd s', current_day := current_day s'\<rparr> \<and> 0 \<le> daily_fd s' \<and> current_day s' = GetDay tz s now \<and>
    fds w' = [daily_fd s' \<mapsto> p] \<and> files v = (files w)(p \<mapsto> file_text (files w p)) \<and> files w' p = files v p \<and>
    (\<forall>q. files w' q = (if GetDay tz s t1 \<noteq> current_day s \<and> 0 < max_days s \<and> swept px s v q then None else files v q))"
proof (cases "GetDay tz s t1 = current_day s")
  case True
  from ok obtain t where t: "current_day s = GetDay tz s t" "fds w = [daily_fd s \<mapsto> MakeFilename tz s t]"
    "files w (MakeFilename tz s t) \<noteq> None" and fd: "0 \<le> daily_fd s" by (auto simp: daily_ok_def)
  have "MakeFilename tz s t = p" unfolding p using t(1) True now by (intro same_day_same_file [OF cal]) simp
  with t(2,3) have "fds w = [daily_fd s \<mapsto> p]" "files w = (files w)(p \<mapsto> file_text (files w p))"
    by (auto simp: file_text_def fun_upd_idem)
  with fd True now t(1) show ?thesis by (intro exI [of _ s] exI [of _ w]) auto
next
  case False
  from ok obtain t where f: "fds w = (if 0 \<le> daily_fd s then [daily_fd s \<mapsto> MakeFilename tz s t] else Map.empty)"
    by (auto simp: daily_ok_def)
  have "px_time px w = (now, snd (px_time px w))" using now False by simp
  from OpenFileForToday_ok [OF laws this p cl f] obtain fd w' v where
    "OpenFileForToday tz px s w = (s\<lparr>daily_fd := fd, current_day := GetDay tz s now\<rparr>, w')" "0 \<le> fd"
    "fds w' = [fd \<mapsto> p]" "files v = (files w)(p \<mapsto> file_text (files w p))" "files w' p = files v p"
    "\<forall>q. files w' q = (if 0 < max_days s \<and> swept px s v q then None else files v q)" by blast
  with False show ?thesis
    by (intro exI [of _ "s\<lparr>daily_fd := fd, current_day := GetDay tz s now\<rparr>"] exI [of _ w'] exI [of _ v]) simp
qed

subsection \<open>Properties\<close>

text \<open>
  The day number \<open>tm_yday + 366 * tm_year\<close> tells days apart. For calendar fields in their documented
  ranges two times have the same number exactly when they fall on the same day of the same year, so the sink
  changes its file exactly when the day changes.
\<close>

lemma GetDay_distinguishes_days:
  assumes "tm_ok (daily_tm tz (use_utc s) t)" and "tm_ok (daily_tm tz (use_utc s) u)"
  shows "GetDay tz s t = GetDay tz s u \<longleftrightarrow>
    tm_year (daily_tm tz (use_utc s) t) = tm_year (daily_tm tz (use_utc s) u) \<and>
    tm_yday (daily_tm tz (use_utc s) t) = tm_yday (daily_tm tz (use_utc s) u)"
  using day_number_inject [OF tm_ok_yday [OF assms(1)] tm_ok_yday [OF assms(2)]] by (simp add: GetDay_def Let_def)

text \<open>A calendar that is on the same day for ever, and a sink on it, for the witnesses.\<close>

definition demo_tz :: timezone where
  "demo_tz = (\<lambda>_. Some \<lparr>tm_sec = 9, tm_min = 8, tm_hour = 7, tm_mday = 6, tm_mon = 4, tm_year = 125, tm_yday = 125\<rparr>, \<lambda>_. None)"

definition demo_daily :: DailyFileSink where
  "demo_daily = \<lparr>sink_formatter = None, min_level = TRACE, format_buf = replicate 2048 NUL, base_dir = ''d'',
     base_name = ''app'', max_days = 0, use_utc = False, daily_fd = - 1, current_day = - 1\<rparr>"

lemma GetDay_distinguishes_days_witness:
  "GetDay demo_tz demo_daily 0 = GetDay demo_tz demo_daily 100000"
  using GetDay_distinguishes_days [of demo_tz demo_daily 0 100000]
  by (simp add: demo_tz_def demo_daily_def daily_tm_def tm_ok_def)


text \<open>
  A day change: the calendar goes from the 6th to the 7th, yesterday's file is open, one old file has to go.
\<close>

definition demo_change_tz :: timezone where
  "demo_change_tz = (\<lambda>t. Some \<lparr>tm_sec = 9, tm_min = 8, tm_hour = 7, tm_mday = (if t < 1000 then 6 else 7), tm_mon = 4,
     tm_year = 125, tm_yday = (if t < 1000 then 125 else 126)\<rparr>, \<lambda>_. None)"

definition demo_change_px :: "mem_os posix" where
  "demo_change_px = mem_posix\<lparr>px_time := \<lambda>w. (1000000, w),
     px_readdir := \<lambda>p w. Some [''app_2025-05-01.log'', ''other.log'', ''app_2025-05-07.log''],
     px_stat_mtime := \<lambda>p w. Some (if p = ''d/app_2025-05-07.log'' then 1000000 else 0)\<rparr>"

definition demo_change_daily :: DailyFileSink where
  "demo_change_daily = demo_daily\<lparr>max_days := 1, daily_fd := 0, current_day := 125 + 125 * 366\<rparr>"

definition demo_change_world :: mem_os where
  "demo_change_world = \<lparr>mem_files = [''d/app_2025-05-01.log'' \<mapsto> ''x'', ''d/app_2025-05-06.log'' \<mapsto> ''y''],
     mem_open = [Some ''d/app_2025-05-06.log''], mem_clock = 0\<rparr>"

lemma demo_change_laws: "fs_laws demo_change_px (mem_files, mem_fds)" "mtime_law demo_change_px"
  using mem_posix_laws
  by (simp_all add: demo_change_px_def fs_laws_def open_law_def trunc_law_def fstat_law_def write_law_def close_law_def rename_law_def
      time_law_def mtime_law_def)

lemma demo_change_swept: "swept demo_change_px demo_change_daily v q \<longleftrightarrow> q = ''d/app_2025-05-01.log''"
  by (auto simp: swept_def expired_def demo_change_px_def demo_change_daily_def demo_daily_def is_log_name_def join_path_def)

lemma demo_change_tm: "daily_tm demo_change_tz False t =
    \<lparr>tm_sec = 9, tm_min = 8, tm_hour = 7, tm_mday = (if t < 1000 then 6 else 7), tm_mon = 4, tm_year = 125,
     tm_yday = (if t < 1000 then 125 else 126)\<rparr>"
  by (simp add: daily_tm_def demo_change_tz_def)

lemma demo_change_days:
  "calendar_ok demo_change_tz (use_utc demo_change_daily)"
  "GetDay demo_change_tz demo_change_daily t = (if t < 1000 then 125 else 126) + 125 * 366"
  "MakeFilename demo_change_tz demo_change_daily 1000000 = ''d/app_2025-05-07.log''"
  "MakeFilename demo_change_tz demo_change_daily 0 = ''d/app_2025-05-06.log''"
  by (auto simp: demo_change_daily_def demo_daily_def calendar_ok_def demo_change_tm tm_ok_def GetDay_def MakeFilename_def
      join_path_def date_text_def dec_eval Let_def)

lemma demo_change_ok: "daily_ok demo_change_tz (mem_files, mem_fds) demo_change_daily demo_change_world"
proof -
  have "mem_fds demo_change_world = [0 \<mapsto> ''d/app_2025-05-06.log'']"
    by (auto simp: demo_change_world_def mem_fds_def fun_eq_iff)
  moreover have "current_day demo_change_daily = GetDay demo_change_tz demo_change_daily 0"
    unfolding demo_change_days by (simp add: demo_change_daily_def)
  ultimately show ?thesis unfolding daily_ok_def
    by (auto simp: demo_change_days demo_change_world_def sink_wf_def intro!: exI [of _ 0])
       (simp_all add: demo_change_daily_def demo_daily_def)
qed


text \<open>
  C32: the retention limit. On a file system that obeys the documented laws, cleaning up removes exactly those
  directory entries whose names are the base name, an underscore, any text and \<open>.log\<close> and whose last
  modification lies more than \<open>max_days\<close> days back; every other file keeps its content and the open file stays
  open.
\<close>

theorem cleanup_removes_exactly_expired:
  assumes "fs_laws px (files, fds)" and "mtime_law px" and "px_readdir px (base_dir s) w = Some names" and "distinct names"
    and "px_time px w = (now, w1)" and "\<forall>n. join_path (base_dir s) n \<in> ran (fds w1) \<longrightarrow> \<not> expired px s now w1 n"
  shows "fds (CleanupOldFiles px s w) = fds w \<and>
    (\<forall>p. files (CleanupOldFiles px s w) p =
      (if \<exists>mid mtime. base_name s @ ''_'' @ mid @ ''.log'' \<in> set names \<and> p = join_path (base_dir s) (base_name s @ ''_'' @ mid @ ''.log'') \<and>
            px_stat_mtime px p w1 = Some mtime \<and> now - mtime > int (max_days s) * 86400
       then None else files w p))"
proof -
  have run: "CleanupOldFiles px s w = Cleanup_loop px s now names w1" using assms(3,5) by (simp add: CleanupOldFiles_def)
  have w1: "files w1 = files w" "fds w1 = fds w" using fs_time [OF assms(1), of w] assms(5) by simp_all
  have "(\<exists>n\<in>set names. expired px s now w1 n \<and> p = join_path (base_dir s) n) \<longleftrightarrow>
    (\<exists>mid mtime. base_name s @ ''_'' @ mid @ ''.log'' \<in> set names \<and> p = join_path (base_dir s) (base_name s @ ''_'' @ mid @ ''.log'') \<and>
      px_stat_mtime px p w1 = Some mtime \<and> now - mtime > int (max_days s) * 86400)" for p
    by (auto simp: expired_def is_log_name_iff split: option.splits)
  with Cleanup_loop_files [OF assms(1,2,4) ballI, of s w1 now] assms(6) w1 show ?thesis unfolding run by presburger
qed

definition demo_cleanup_px :: "mem_os posix" where
  "demo_cleanup_px = mem_posix\<lparr>px_time := \<lambda>w. (1000000, w), px_readdir := \<lambda>p w. Some [''app_1.log'', ''other.log'']\<rparr>"

lemma demo_cleanup_laws: "fs_laws demo_cleanup_px (mem_files, mem_fds)" "mtime_law demo_cleanup_px"
  using mem_posix_laws
  by (simp_all add: demo_cleanup_px_def fs_laws_def open_law_def trunc_law_def fstat_law_def write_law_def close_law_def rename_law_def
      time_law_def mtime_law_def) (simp add: mem_posix_def)

definition demo_old_files :: mem_os where
  "demo_old_files = (mem_os_init 0)\<lparr>mem_files := [''d/app_1.log'' \<mapsto> ''x'', ''d/other.log'' \<mapsto> ''y'']\<rparr>"

theorem cleanup_removes_exactly_expired_witness:
  "mem_files (CleanupOldFiles demo_cleanup_px (demo_daily\<lparr>max_days := 1\<rparr>) demo_old_files) ''d/app_1.log'' = None \<and>
   mem_files (CleanupOldFiles demo_cleanup_px (demo_daily\<lparr>max_days := 1\<rparr>) demo_old_files) ''d/other.log'' = Some ''y''"
proof -
  define s where "s = demo_daily\<lparr>max_days := 1\<rparr>"
  have s: "base_name s = ''app''" "base_dir s = ''d''" "max_days s = 1" by (simp_all add: s_def demo_daily_def)
  have w: "px_time demo_cleanup_px demo_old_files = (1000000, demo_old_files)" "px_stat_mtime demo_cleanup_px ''d/app_1.log'' demo_old_files = Some 0"
    "px_readdir demo_cleanup_px (base_dir s) demo_old_files = Some [''app_1.log'', ''other.log'']"
    "mem_files demo_old_files ''d/other.log'' = Some ''y''"
    by (simp_all add: demo_cleanup_px_def demo_old_files_def mem_posix_def mem_os_init_def)
  have "mem_fds demo_old_files = Map.empty" by (simp add: demo_old_files_def mem_os_init_def mem_fds_def fun_eq_iff)
  then have "\<forall>n. join_path (base_dir s) n \<in> ran (mem_fds demo_old_files) \<longrightarrow> \<not> expired demo_cleanup_px s 1000000 demo_old_files n" by simp
  note f = cleanup_removes_exactly_expired [OF demo_cleanup_laws w(3) _ w(1) this, THEN conjunct2, rule_format]
  have "mem_files (CleanupOldFiles demo_cleanup_px s demo_old_files) ''d/app_1.log'' = None"
    by (subst f) (auto simp: s w(2) join_path_def intro!: exI [of _ "''1''"])
  moreover have "mem_files (CleanupOldFiles demo_cleanup_px s demo_old_files) ''d/other.log'' = Some ''y''"
    by (subst f) (auto simp: s w(4) join_path_def)
  ultimately show ?thesis by (simp add: s_def)
qed

end
