(* ===== verification/Console_Sink.thy ===== *)
theory Console_Sink
  imports Sink_Interface
begin

text \<open>
  The console sink (\<open>console_sink.hpp\<close>, \<open>console_sink.cpp\<close>) and the callback sink
  (\<open>callback_sink.hpp\<close>, \<open>callback_sink.cpp\<close>). A standard stream is the text written to it so far and how
  much of it has been flushed. The answers of \<open>isatty\<close> are arguments of the constructor; the user's
  callback is a function on an unspecified state \<open>'w\<close>.
\<close>

subsection \<open>Standard streams\<close>

record stream =
  stream_text :: string
  stream_flushed :: nat

record stdio =
  std_out :: stream
  std_err :: stream

definition fwrite :: "bytes \<Rightarrow> stream \<Rightarrow> stream" where
  "fwrite data f = f\<lparr>stream_text := stream_text f @ data\<rparr>"

definition fflush :: "stream \<Rightarrow> stream" where
  "fflush f = f\<lparr>stream_flushed := length (stream_text f)\<rparr>"

subsection \<open>The console sink\<close>

record ConsoleSink = sink_base +
  use_color :: bool
  stdout_is_tty :: bool
  stderr_is_tty :: bool

definition ConsoleSink_init :: "bytes \<Rightarrow> bool \<Rightarrow> bool \<Rightarrow> bool option \<Rightarrow> ConsoleSink" where
  "ConsoleSink_init fbuf out_tty err_tty force_color =
     \<lparr>sink_formatter = None, min_level = TRACE, format_buf = fbuf,
      use_color = (case force_color of Some c \<Rightarrow> c | None \<Rightarrow> out_tty \<or> err_tty),
      stdout_is_tty = out_tty, stderr_is_tty = err_tty\<rparr>"

definition ConsoleSink_Write ::
  "localtime \<Rightarrow> bytes \<Rightarrow> LogEntry \<Rightarrow> ConsoleSink \<Rightarrow> stdio \<Rightarrow> (ConsoleSink \<times> stdio) option" where
  "ConsoleSink_Write lt junk e s io =
     (if \<not> ShouldLog s (level e) then Some (s, io)
      else do {
        (s1, len) \<leftarrow> DoFormat lt junk e (ensure_formatter default_pattern (use_color s) s);
        if len = 0 then Some (s1, io)
        else if WARN \<le> level e
        then Some (s1, io\<lparr>std_err := fwrite [CHR 0x0A] (fwrite (take len (format_buf s1)) (std_err io))\<rparr>)
        else Some (s1, io\<lparr>std_out := fwrite [CHR 0x0A] (fwrite (take len (format_buf s1)) (std_out io))\<rparr>) })"

definition ConsoleSink_Flush :: "ConsoleSink \<Rightarrow> stdio \<Rightarrow> stdio" where
  "ConsoleSink_Flush s io = io\<lparr>std_out := fflush (std_out io), std_err := fflush (std_err io)\<rparr>"

abbreviation console_text :: "localtime \<Rightarrow> ConsoleSink \<Rightarrow> LogEntry \<Rightarrow> string" where
  "console_text lt s \<equiv> sink_text lt default_pattern (use_color s) s"

lemma ConsoleSink_Write_ok:
  assumes "entry_ok cfg lt junk e" "sink_wf s"
  shows "\<exists>s' io'. ConsoleSink_Write lt junk e s io = Some (s', io') \<and> sink_wf s' \<and> console_text lt s' = console_text lt s \<and>
    stream_text (std_out io') = stream_text (std_out io) @ (if level e < WARN then console_text lt s e else []) \<and>
    stream_text (std_err io') = stream_text (std_err io) @ (if level e < WARN then [] else console_text lt s e)"
proof (cases "ShouldLog s (level e)")
  case False
  with assms show ?thesis by (simp add: ConsoleSink_Write_def sink_text_def)
next
  case True
  let ?ln = "sink_line lt default_pattern (use_color s) s e"
  define s0 where "s0 = ensure_formatter default_pattern (use_color s) s"
  obtain buf where d: "DoFormat lt junk e s0 = Some (s0\<lparr>format_buf := buf\<rparr>, length ?ln)" "length buf = 2048" "take (length ?ln) buf = ?ln"
    using DoFormat_line [OF assms] unfolding s0_def by blast
  define s' where "s' = s0\<lparr>format_buf := buf\<rparr>"
  have u: "use_color s' = use_color s" by (simp add: s'_def s0_def ensure_formatter_def)
  have "console_text lt s' = console_text lt s"
    using sink_line_ensure [of s' default_pattern "use_color s" s] u
    by (simp add: fun_eq_iff sink_text_def ShouldLog_def s'_def s0_def)
  moreover have "sink_wf s'" using d(2) by (simp add: s'_def sink_wf_def)
  moreover have "console_text lt s e = (if ?ln = [] then [] else ?ln @ [CHR 0x0A])" using True by (simp add: sink_text_def)
  moreover have "ConsoleSink_Write lt junk e s io = Some (s',
      if ?ln = [] then io
      else if WARN \<le> level e then io\<lparr>std_err := fwrite [CHR 0x0A] (fwrite ?ln (std_err io))\<rparr>
      else io\<lparr>std_out := fwrite [CHR 0x0A] (fwrite ?ln (std_out io))\<rparr>)"
    using True d(1,3) unfolding ConsoleSink_Write_def s0_def [symmetric] s'_def by simp
  ultimately show ?thesis by (auto simp: fwrite_def)
qed

text \<open>A sequence of writes.\<close>

fun console_writes :: "localtime \<Rightarrow> bytes \<Rightarrow> LogEntry list \<Rightarrow> ConsoleSink \<Rightarrow> stdio \<Rightarrow> (ConsoleSink \<times> stdio) option" where
  "console_writes lt junk [] s io = Some (s, io)"
| "console_writes lt junk (e # es) s io = do { (s', io') \<leftarrow> ConsoleSink_Write lt junk e s io; console_writes lt junk es s' io' }"

lemma console_writes_text:
  "list_all (entry_ok cfg lt junk) es \<Longrightarrow> sink_wf s \<Longrightarrow> console_writes lt junk es s io = Some (s', io') \<Longrightarrow>
   stream_text (std_out io') = stream_text (std_out io) @ concat (map (console_text lt s) (filter (\<lambda>e. level e < WARN) es)) \<and>
   stream_text (std_err io') = stream_text (std_err io) @ concat (map (console_text lt s) (filter (\<lambda>e. \<not> level e < WARN) es))"
proof (induction es arbitrary: s io)
  case Nil
  then show ?case by simp
next
  case (Cons e es)
  obtain s1 io1 where 1: "ConsoleSink_Write lt junk e s io = Some (s1, io1)" "sink_wf s1" "console_text lt s1 = console_text lt s"
    "stream_text (std_out io1) = stream_text (std_out io) @ (if level e < WARN then console_text lt s e else [])"
    "stream_text (std_err io1) = stream_text (std_err io) @ (if level e < WARN then [] else console_text lt s e)"
    using ConsoleSink_Write_ok [of cfg lt junk e s io] Cons.prems(1,2) by auto
  with Cons.IH [of s1 io1] Cons.prems show ?case by simp
qed

subsection \<open>The callback sink\<close>

record 'w CallbackSink = sink_base +
  callback :: "(LogEntry \<Rightarrow> 'w \<Rightarrow> 'w) option"

definition CallbackSink_init :: "bytes \<Rightarrow> (LogEntry \<Rightarrow> 'w \<Rightarrow> 'w) option \<Rightarrow> 'w CallbackSink" where
  "CallbackSink_init fbuf cb = \<lparr>sink_formatter = None, min_level = TRACE, format_buf = fbuf, callback = cb\<rparr>"

definition CallbackSink_Write :: "LogEntry \<Rightarrow> 'w CallbackSink \<Rightarrow> 'w \<Rightarrow> 'w CallbackSink \<times> 'w" where
  "CallbackSink_Write e s w =
     (if \<not> ShouldLog s (level e) then (s, w)
      else case callback s of Some cb \<Rightarrow> (s, cb e w) | None \<Rightarrow> (s, w))"

definition CallbackSink_Flush :: "'w CallbackSink \<Rightarrow> 'w \<Rightarrow> 'w" where
  "CallbackSink_Flush s w = w"

end
