(* ===== verification/Ros2_Sink.thy ===== *)
theory Ros2_Sink
  imports Sink_Interface
begin

text \<open>
  The sink that forwards to the logging of ROS 2 (\<open>ros2_sink.hpp\<close>, \<open>ros2_sink.cpp\<close>). \<open>rcutils_log\<close> is a
  function of the ROS libraries and an argument here; the severities are its symbolic constants. The message
  goes through the conversion \<open>%s\<close>, which reads it up to its terminator.
\<close>

datatype severity = SEVERITY_DEBUG | SEVERITY_INFO | SEVERITY_WARN | SEVERITY_ERROR | SEVERITY_FATAL

record rcutils_location =
  rloc_function :: c_ptr
  rloc_file :: c_ptr
  rloc_line :: u32

type_synonym 'w rcutils_log = "rcutils_location \<Rightarrow> severity \<Rightarrow> string \<Rightarrow> string \<Rightarrow> 'w \<Rightarrow> 'w"

record ROS2Sink = sink_base +
  ros_logger_name :: string

definition ROS2Sink_init :: "bytes \<Rightarrow> string \<Rightarrow> ROS2Sink" where
  "ROS2Sink_init fbuf name = \<lparr>sink_formatter = None, min_level = TRACE, format_buf = fbuf, ros_logger_name = name\<rparr>"

fun MapLevel :: "LogLevel \<Rightarrow> severity" where
  "MapLevel TRACE = SEVERITY_DEBUG"
| "MapLevel DEBUG = SEVERITY_DEBUG"
| "MapLevel INFO = SEVERITY_INFO"
| "MapLevel WARN = SEVERITY_WARN"
| "MapLevel ERROR = SEVERITY_ERROR"
| "MapLevel FATAL = SEVERITY_FATAL"
| "MapLevel OFF = SEVERITY_INFO"

definition ROS2Sink_Write :: "'w rcutils_log \<Rightarrow> LogEntry \<Rightarrow> ROS2Sink \<Rightarrow> 'w \<Rightarrow> (ROS2Sink \<times> 'w) option" where
  "ROS2Sink_Write rlog e s w =
     (if \<not> ShouldLog s (level e) then Some (s, w)
      else do {
        len \<leftarrow> strlen (msg e);
        Some (s, rlog \<lparr>rloc_function = function_name e, rloc_file = file_name e, rloc_line = line e\<rparr>
                   (MapLevel (level e)) (ros_logger_name s) (take len (msg e)) w) })"

definition ROS2Sink_Flush :: "ROS2Sink \<Rightarrow> 'w \<Rightarrow> 'w" where
  "ROS2Sink_Flush s w = w"

text \<open>The severities in the order of their values.\<close>

fun severity_value :: "severity \<Rightarrow> nat" where
  "severity_value SEVERITY_DEBUG = 10"
| "severity_value SEVERITY_INFO = 20"
| "severity_value SEVERITY_WARN = 30"
| "severity_value SEVERITY_ERROR = 40"
| "severity_value SEVERITY_FATAL = 50"

lemma ROS2Sink_Write_ok:
  "terminated (msg e) \<Longrightarrow> ROS2Sink_Write rlog e s w =
     Some (s, if ShouldLog s (level e)
              then rlog \<lparr>rloc_function = function_name e, rloc_file = file_name e, rloc_line = line e\<rparr>
                     (MapLevel (level e)) (ros_logger_name s) (c_str (msg e)) w
              else w)"
  by (simp add: ROS2Sink_Write_def strlen_terminated)

subsection \<open>Properties\<close>

text \<open>
  The forwarding to ROS keeps the message, the location and the order of the severities. An accepted entry
  with a terminated message leads to exactly one call with the entry's function, file and line and the text of
  the message; a higher level never maps to a lower severity among the levels an entry can have.
\<close>

lemma ros2_write_correct:
  assumes "terminated (msg e)" and "level e' \<noteq> OFF" and "level e \<le> level e'"
  shows "ROS2Sink_Write rlog e s w =
      Some (s, if ShouldLog s (level e)
               then rlog \<lparr>rloc_function = function_name e, rloc_file = file_name e, rloc_line = line e\<rparr>
                      (MapLevel (level e)) (ros_logger_name s) (c_str (msg e)) w
               else w) \<and>
    severity_value (MapLevel (level e)) \<le> severity_value (MapLevel (level e'))"
proof
  show "ROS2Sink_Write rlog e s w =
      Some (s, if ShouldLog s (level e)
               then rlog \<lparr>rloc_function = function_name e, rloc_file = file_name e, rloc_line = line e\<rparr>
                      (MapLevel (level e)) (ros_logger_name s) (c_str (msg e)) w
               else w)"
    by (rule ROS2Sink_Write_ok [OF assms(1)])
  show "severity_value (MapLevel (level e)) \<le> severity_value (MapLevel (level e'))"
    using assms(2,3) by (cases "level e"; cases "level e'") (simp_all add: less_eq_LogLevel_def)
qed

lemma ros2_write_correct_witness:
  "ROS2Sink_Write (\<lambda>l sv n m w. w @ [(sv, m)]) (zero_entry (platform_config False)) (ROS2Sink_init [] ''node'') [] =
    Some (ROS2Sink_init [] ''node'', [(SEVERITY_DEBUG, [])])"
proof -
  let ?e = "zero_entry (platform_config False)"
  have "terminated (msg ?e)" "level ?e \<noteq> OFF" "c_str (msg ?e) = []"
    by (simp_all add: zero_entry_def platform_config_def terminated_def c_str_def)
  with ros2_write_correct [of ?e ?e "\<lambda>l sv n m w. w @ [(sv, m)]" "ROS2Sink_init [] ''node''" "[]"] show ?thesis
    by (simp add: ShouldLog_def ROS2Sink_init_def less_eq_LogLevel_def) (simp add: zero_entry_def)
qed

end
