(* ===== verification/Backend.thy ===== *)
theory Backend
  imports Ring_Buffer Log_Entry
begin

text \<open>
  The logging backend (\<open>backend.hpp\<close>, \<open>backend.cpp\<close>): the ring of pending entries, the sinks, and the
  worker that moves entries from the one to the other. The virtual calls \<open>sink->Write\<close> and
  \<open>sink->Flush\<close> are the fields of \<open>sink_ops\<close>, functions on the sink and on the outside world \<open>'w\<close>
  that all sinks share. The atomic accesses to the ring are the subject of \<open>Ring_Concurrent\<close>; here a call
  on the backend is one step, and calls of different threads may follow each other in any order.

  The draining loops end when the ring is empty. \<open>drain_all\<close> is a \<open>partial_function\<close>: \<open>None\<close> would be
  a loop that never ends or undefined behaviour in a sink, and the lemmas show that it is neither.
\<close>

subsection \<open>State and operations\<close>

record ('s, 'w) sink_ops =
  sink_Write :: "LogEntry \<Rightarrow> 's \<Rightarrow> 'w \<Rightarrow> ('s \<times> 'w) option"
  sink_Flush :: "'s \<Rightarrow> 'w \<Rightarrow> 's \<times> 'w"

record 's LoggerBackend =
  ring :: "LogEntry MPSCRingBuffer"
  sinks :: "'s list"
  running :: bool
  worker :: bool

text \<open>\<open>worker\<close> is \<open>worker_.joinable()\<close>: a thread was started and not yet joined.\<close>

definition LoggerBackend_init :: "config \<Rightarrow> 's LoggerBackend" where
  "LoggerBackend_init cfg =
     \<lparr>ring = MPSCRingBuffer_init (replicate (BR_LOG_RING_SIZE cfg) (zero_entry cfg)),
      sinks = [], running = False, worker = False\<rparr>"

definition backend_TryPush :: "LogEntry \<Rightarrow> 's LoggerBackend \<Rightarrow> (bool \<times> 's LoggerBackend) option" where
  "backend_TryPush e b = do { (ok, r) \<leftarrow> TryPush (ring b) e; Some (ok, b\<lparr>ring := r\<rparr>) }"

definition backend_AddSink :: "'s \<Rightarrow> 's LoggerBackend \<Rightarrow> 's LoggerBackend" where
  "backend_AddSink s b = b\<lparr>sinks := sinks b @ [s]\<rparr>"

fun Dispatch :: "('s, 'w) sink_ops \<Rightarrow> LogEntry \<Rightarrow> 's list \<Rightarrow> 'w \<Rightarrow> ('s list \<times> 'w) option" where
  "Dispatch ops e [] w = Some ([], w)"
| "Dispatch ops e (s # ss) w =
     do { (s', w1) \<leftarrow> sink_Write ops e s w;
          (ss', w2) \<leftarrow> Dispatch ops e ss w1;
          Some (s' # ss', w2) }"

text \<open>The loop of \<open>Drain\<close>, by the number of entries it may still take.\<close>

fun Drain :: "('s, 'w) sink_ops \<Rightarrow> nat \<Rightarrow> 's LoggerBackend \<Rightarrow> 'w \<Rightarrow> (nat \<times> 's LoggerBackend \<times> 'w) option" where
  "Drain ops 0 b w = Some (0, b, w)"
| "Drain ops (Suc k) b w = (case TryPop (ring b) of
     (None, r) \<Rightarrow> Some (0, b\<lparr>ring := r\<rparr>, w)
   | (Some e, r) \<Rightarrow>
       do { (ss, w1) \<leftarrow> Dispatch ops e (sinks b) w;
            (n, b2, w2) \<leftarrow> Drain ops k (b\<lparr>ring := r, sinks := ss\<rparr>) w1;
            Some (Suc n, b2, w2) })"

text \<open>\<open>while (Drain(64) > 0) {}\<close>.\<close>

partial_function (option) drain_all :: "('s, 'w) sink_ops \<Rightarrow> 's LoggerBackend \<Rightarrow> 'w \<Rightarrow> ('s LoggerBackend \<times> 'w) option" where
  "drain_all ops b w =
     do { (n, b1, w1) \<leftarrow> Drain ops 64 b w;
          if 0 < n then drain_all ops b1 w1 else Some (b1, w1) }"

fun flush_all :: "('s, 'w) sink_ops \<Rightarrow> 's list \<Rightarrow> 'w \<Rightarrow> 's list \<times> 'w" where
  "flush_all ops [] w = ([], w)"
| "flush_all ops (s # ss) w = (let (s', w1) = sink_Flush ops s w; (ss', w2) = flush_all ops ss w1 in (s' # ss', w2))"

text \<open>How the worker waits when it finds the ring empty.\<close>

datatype idle_action = Busy | Spin | Yield | Sleep

definition idle_policy :: "nat \<Rightarrow> u32 \<Rightarrow> u32 \<times> idle_action" where
  "idle_policy drained idle_count =
     (if 0 < drained then (0, Busy)
      else let idle = idle_count + 1 in
        (idle, if idle < 100 then Spin else if idle < 1000 then Yield else Sleep))"

text \<open>
  The worker: \<open>k\<close> rounds of its loop, as many as it makes before it reads a false \<open>running_\<close>, then the
  final draining loop.
\<close>

fun WorkerLoop :: "('s, 'w) sink_ops \<Rightarrow> nat \<Rightarrow> u32 \<Rightarrow> 's LoggerBackend \<Rightarrow> 'w \<Rightarrow> ('s LoggerBackend \<times> 'w) option" where
  "WorkerLoop ops 0 idle b w = drain_all ops b w"
| "WorkerLoop ops (Suc k) idle b w =
     do { (drained, b1, w1) \<leftarrow> Drain ops 64 b w;
          WorkerLoop ops k (fst (idle_policy drained idle)) b1 w1 }"

definition backend_Start :: "config \<Rightarrow> 's LoggerBackend \<Rightarrow> 's LoggerBackend" where
  "backend_Start cfg b = (if running b then b else b\<lparr>running := True, worker := BR_LOG_HAS_THREAD cfg\<rparr>)"

text \<open>
  \<open>Stop\<close>, where the worker, if there is one, makes \<open>k\<close> more rounds before it sees the flag and ends.
\<close>

definition backend_Stop ::
  "('s, 'w) sink_ops \<Rightarrow> nat \<Rightarrow> u32 \<Rightarrow> 's LoggerBackend \<Rightarrow> 'w \<Rightarrow> ('s LoggerBackend \<times> 'w) option" where
  "backend_Stop ops k idle b w =
     do { (b1, w1) \<leftarrow> (if worker b then WorkerLoop ops k idle (b\<lparr>running := False\<rparr>) w else Some (b\<lparr>running := False\<rparr>, w));
          (b2, w2) \<leftarrow> drain_all ops (b1\<lparr>worker := False\<rparr>) w1;
          let (ss, w3) = flush_all ops (sinks b2) w2 in Some (b2\<lparr>sinks := ss\<rparr>, w3) }"

subsection \<open>What the sinks have been given\<close>

text \<open>The entries \<open>es\<close> handed to all sinks in order.\<close>

fun dispatch_list :: "('s, 'w) sink_ops \<Rightarrow> LogEntry list \<Rightarrow> 's list \<Rightarrow> 'w \<Rightarrow> ('s list \<times> 'w) option" where
  "dispatch_list ops [] ss w = Some (ss, w)"
| "dispatch_list ops (e # es) ss w = do { (ss', w') \<leftarrow> Dispatch ops e ss w; dispatch_list ops es ss' w' }"

lemma dispatch_list_append:
  "dispatch_list ops (es @ fs) ss w = do { (ss', w') \<leftarrow> dispatch_list ops es ss w; dispatch_list ops fs ss' w' }"
  by (induction es arbitrary: ss w) (auto simp: split_def cong: Option.bind_cong)

subsection \<open>The contract of a sink\<close>

text \<open>
  A sink accepts every good entry without undefined behaviour and keeps its own invariant, whatever the state
  of the outside world.
\<close>

locale log_sink =
  fixes ops :: "('s, 'w) sink_ops"
    and inv :: "'s \<Rightarrow> bool"
    and ok :: "LogEntry \<Rightarrow> bool"
  assumes write_total: "inv s \<Longrightarrow> ok e \<Longrightarrow> \<exists>s' w'. sink_Write ops e s w = Some (s', w') \<and> inv s'"
    and flush_inv: "inv s \<Longrightarrow> inv (fst (sink_Flush ops s w))"
begin

lemma Dispatch_total:
  "list_all inv ss \<Longrightarrow> ok e \<Longrightarrow> \<exists>ss' w'. Dispatch ops e ss w = Some (ss', w') \<and> list_all inv ss' \<and> length ss' = length ss"
proof (induction ss arbitrary: w)
  case Nil
  then show ?case by simp
next
  case (Cons s ss)
  then obtain s' w1 where "sink_Write ops e s w = Some (s', w1)" "inv s'" using write_total [of s e w] by auto
  moreover obtain ss' w2 where "Dispatch ops e ss w1 = Some (ss', w2)" "list_all inv ss'" "length ss' = length ss"
    using Cons.IH [of w1] Cons.prems by auto
  ultimately show ?case by simp
qed

lemma dispatch_list_total:
  "list_all inv ss \<Longrightarrow> list_all ok es \<Longrightarrow>
   \<exists>ss' w'. dispatch_list ops es ss w = Some (ss', w') \<and> list_all inv ss' \<and> length ss' = length ss"
proof (induction es arbitrary: ss w)
  case Nil
  then show ?case by simp
next
  case (Cons e es)
  then obtain ss1 w1 where "Dispatch ops e ss w = Some (ss1, w1)" "list_all inv ss1" "length ss1 = length ss"
    using Dispatch_total [of ss e w] by auto
  with Cons.IH [of ss1 w1] Cons.prems show ?case by simp
qed

text \<open>A call of \<open>Drain\<close> hands the oldest entries to the sinks, in order, and removes them from the ring.\<close>

lemma Drain_eq:
  "ring_wf (ring b) \<Longrightarrow> list_all inv (sinks b) \<Longrightarrow> list_all ok (ring_list (ring b)) \<Longrightarrow>
   n = min k (length (ring_list (ring b))) \<Longrightarrow>
   \<exists>ss' w' r. Drain ops k b w = Some (n, b\<lparr>ring := r, sinks := ss'\<rparr>, w') \<and> ring_wf r \<and> Capacity r = Capacity (ring b) \<and>
     ring_list r = drop n (ring_list (ring b)) \<and> list_all inv ss' \<and>
     dispatch_list ops (take n (ring_list (ring b))) (sinks b) w = Some (ss', w')"
proof (induction k arbitrary: b w n)
  case 0
  then show ?case by (intro exI [of _ "sinks b"] exI [of _ w] exI [of _ "ring b"]) simp
next
  case (Suc k)
  show ?case
  proof (cases "ring_list (ring b)")
    case Nil
    with rbq.pop_Nil [OF Suc.prems(1)] Suc.prems show ?thesis
      by (intro exI [of _ "sinks b"] exI [of _ w] exI [of _ "ring b"]) simp
  next
    case (Cons e es)
    obtain r where r: "TryPop (ring b) = (Some e, r)" "ring_wf r" "Capacity r = Capacity (ring b)" "ring_list r = es"
      using rbq.pop_Cons [OF Suc.prems(1) Cons] by blast
    obtain ss1 w1 where d: "Dispatch ops e (sinks b) w = Some (ss1, w1)" "list_all inv ss1"
      using Dispatch_total [OF Suc.prems(2), of e w] Suc.prems(3) Cons by auto
    let ?b = "b\<lparr>ring := r, sinks := ss1\<rparr>"
    define m where "m = min k (length (ring_list (ring ?b)))"
    have n: "n = Suc m" using Suc.prems(4) Cons r(4) by (simp add: m_def)
    have "ring_wf (ring ?b)" "list_all inv (sinks ?b)" "list_all ok (ring_list (ring ?b))"
      using r d Suc.prems(3) Cons by simp_all
    from Suc.IH [OF this m_def, of w1] obtain ss' w' r' where
      "Drain ops k ?b w1 = Some (m, ?b\<lparr>ring := r', sinks := ss'\<rparr>, w')" "ring_wf r'" "Capacity r' = Capacity r"
      "ring_list r' = drop m es" "list_all inv ss'" "dispatch_list ops (take m es) ss1 w1 = Some (ss', w')"
      using r(4) by auto
    with r d Cons n show ?thesis by (intro exI [of _ ss'] exI [of _ w'] exI [of _ r']) simp
  qed
qed

text \<open>The draining loop ends, and hands everything that was pending to the sinks.\<close>

lemma drain_all_eq:
  "ring_wf (ring b) \<Longrightarrow> list_all inv (sinks b) \<Longrightarrow> list_all ok (ring_list (ring b)) \<Longrightarrow>
   \<exists>ss' w' r. drain_all ops b w = Some (b\<lparr>ring := r, sinks := ss'\<rparr>, w') \<and> ring_wf r \<and> Capacity r = Capacity (ring b) \<and>
     ring_list r = [] \<and> list_all inv ss' \<and> dispatch_list ops (ring_list (ring b)) (sinks b) w = Some (ss', w')"
proof (induction "length (ring_list (ring b))" arbitrary: b w rule: less_induct)
  case less
  define n where "n = min 64 (length (ring_list (ring b)))"
  obtain ss1 w1 r where d: "Drain ops 64 b w = Some (n, b\<lparr>ring := r, sinks := ss1\<rparr>, w1)" "ring_wf r"
    "Capacity r = Capacity (ring b)" "ring_list r = drop n (ring_list (ring b))" "list_all inv ss1"
    "dispatch_list ops (take n (ring_list (ring b))) (sinks b) w = Some (ss1, w1)"
    using Drain_eq [OF less.prems n_def] by blast
  show ?case
  proof (cases "n = 0")
    case True
    then have "ring_list (ring b) = []" by (auto simp: n_def simp flip: length_0_conv)
    moreover have "drain_all ops b w = Some (b\<lparr>ring := r, sinks := ss1\<rparr>, w1)"
      using d(1) True by (simp add: drain_all.simps [of ops b w])
    ultimately show ?thesis using d True by (intro exI [of _ ss1] exI [of _ w1] exI [of _ r]) simp
  next
    case False
    let ?b = "b\<lparr>ring := r, sinks := ss1\<rparr>"
    have "length (ring_list (ring ?b)) < length (ring_list (ring b))" using False d(4) by (auto simp: n_def)
    moreover have "list_all ok (ring_list (ring ?b))" using less.prems(3) d(4) by (auto simp: list_all_iff dest: in_set_dropD)
    ultimately obtain ss' w' r' where "drain_all ops ?b w1 = Some (?b\<lparr>ring := r', sinks := ss'\<rparr>, w')" "ring_wf r'"
      "Capacity r' = Capacity r" "ring_list r' = []" "list_all inv ss'" "dispatch_list ops (ring_list r) ss1 w1 = Some (ss', w')"
      using less.hyps [of ?b w1] d(2,5) by auto
    moreover have "dispatch_list ops (ring_list (ring b)) (sinks b) w = dispatch_list ops (ring_list r) ss1 w1"
      using dispatch_list_append [of ops "take n (ring_list (ring b))" "ring_list r" "sinks b" w] d(4,6) by simp
    ultimately show ?thesis using d(1,3) False
      by (intro exI [of _ ss'] exI [of _ w'] exI [of _ r']) (simp add: drain_all.simps [of ops b w])
  qed
qed

lemma WorkerLoop_eq:
  "ring_wf (ring b) \<Longrightarrow> list_all inv (sinks b) \<Longrightarrow> list_all ok (ring_list (ring b)) \<Longrightarrow>
   \<exists>ss' w' r. WorkerLoop ops k idle b w = Some (b\<lparr>ring := r, sinks := ss'\<rparr>, w') \<and> ring_wf r \<and> Capacity r = Capacity (ring b) \<and>
     ring_list r = [] \<and> list_all inv ss' \<and> dispatch_list ops (ring_list (ring b)) (sinks b) w = Some (ss', w')"
proof (induction k arbitrary: idle b w)
  case 0
  then show ?case using drain_all_eq by simp
next
  case (Suc k)
  define n where "n = min 64 (length (ring_list (ring b)))"
  obtain ss1 w1 r where d: "Drain ops 64 b w = Some (n, b\<lparr>ring := r, sinks := ss1\<rparr>, w1)" "ring_wf r"
    "Capacity r = Capacity (ring b)" "ring_list r = drop n (ring_list (ring b))" "list_all inv ss1"
    "dispatch_list ops (take n (ring_list (ring b))) (sinks b) w = Some (ss1, w1)"
    using Drain_eq [OF Suc.prems n_def] by blast
  let ?b = "b\<lparr>ring := r, sinks := ss1\<rparr>"
  have "list_all ok (ring_list (ring ?b))" using Suc.prems(3) d(4) by (auto simp: list_all_iff dest: in_set_dropD)
  then obtain ss' w' r' where "WorkerLoop ops k (fst (idle_policy n idle)) ?b w1 = Some (?b\<lparr>ring := r', sinks := ss'\<rparr>, w')"
    "ring_wf r'" "Capacity r' = Capacity r" "ring_list r' = []" "list_all inv ss'" "dispatch_list ops (ring_list r) ss1 w1 = Some (ss', w')"
    using Suc.IH [of ?b "fst (idle_policy n idle)" w1] d(2,5) by auto
  moreover have "dispatch_list ops (ring_list (ring b)) (sinks b) w = dispatch_list ops (ring_list r) ss1 w1"
    using dispatch_list_append [of ops "take n (ring_list (ring b))" "ring_list r" "sinks b" w] d(4,6) by simp
  ultimately show ?case using d(1,3) by (intro exI [of _ ss'] exI [of _ w'] exI [of _ r']) simp
qed

lemma flush_all_inv: "list_all inv ss \<Longrightarrow> list_all inv (fst (flush_all ops ss w))"
proof (induction ss arbitrary: w)
  case Nil
  then show ?case by simp
next
  case (Cons s ss)
  with flush_inv [of s w] Cons.IH [of "snd (sink_Flush ops s w)"] show ?case by (simp add: split_def Let_def)
qed

text \<open>
  Stopping delivers everything that is pending, whatever the worker was doing, flushes every sink and leaves
  the ring empty.
\<close>

lemma Stop_eq:
  assumes "ring_wf (ring b)" "list_all inv (sinks b)" "list_all ok (ring_list (ring b))"
  shows "\<exists>ss1 w1 r. dispatch_list ops (ring_list (ring b)) (sinks b) w = Some (ss1, w1) \<and>
    backend_Stop ops k idle b w = Some (b\<lparr>ring := r, sinks := fst (flush_all ops ss1 w1), running := False, worker := False\<rparr>,
      snd (flush_all ops ss1 w1)) \<and>
    ring_wf r \<and> Capacity r = Capacity (ring b) \<and> ring_list r = [] \<and> list_all inv (fst (flush_all ops ss1 w1))"
proof -
  obtain ss1 w1 r1 where 1: "(if worker b then WorkerLoop ops k idle (b\<lparr>running := False\<rparr>) w else Some (b\<lparr>running := False\<rparr>, w)) =
      Some (b\<lparr>running := False, ring := r1, sinks := ss1\<rparr>, w1)" "ring_wf r1" "Capacity r1 = Capacity (ring b)"
    "list_all inv ss1" "list_all ok (ring_list r1)"
    "dispatch_list ops (ring_list (ring b)) (sinks b) w = dispatch_list ops (ring_list r1) ss1 w1"
  proof (cases "worker b")
    case True
    then show ?thesis using WorkerLoop_eq [of "b\<lparr>running := False\<rparr>" k idle w] assms
      by (auto intro!: that)
  next
    case False
    then show ?thesis using assms by (intro that [of "sinks b" "ring b" w]) simp_all
  qed
  let ?b = "b\<lparr>running := False, ring := r1, sinks := ss1, worker := False\<rparr>"
  obtain ss2 w2 r2 where 2: "drain_all ops ?b w1 = Some (?b\<lparr>ring := r2, sinks := ss2\<rparr>, w2)" "ring_wf r2"
    "Capacity r2 = Capacity r1" "ring_list r2 = []" "list_all inv ss2" "dispatch_list ops (ring_list r1) ss1 w1 = Some (ss2, w2)"
    using drain_all_eq [of ?b w1] 1 by auto
  have "backend_Stop ops k idle b w = Some (b\<lparr>ring := r2, sinks := fst (flush_all ops ss2 w2), running := False, worker := False\<rparr>,
      snd (flush_all ops ss2 w2))"
    unfolding backend_Stop_def 1(1) using 2(1) by (simp add: split_def Let_def)
  with 1 2 flush_all_inv [of ss2 w2] show ?thesis by auto
qed

end

end
