(* ===== verification/Sinks.thy ===== *)
theory Sinks
  imports Backend Console_Sink Ring_Memory_Sink Rotating_File_Sink Daily_File_Sink Ros2_Sink
begin

text \<open>
  The sinks of the library behind the interface \<open>ILogSink\<close>: the virtual calls \<open>Write\<close> and \<open>Flush\<close> as
  case distinctions over the sink classes, and the backend on top of them. The outside world is the pair of the
  standard streams and the state of the operating system and the ROS libraries; \<open>env\<close> collects the code that
  is not part of the repository.
\<close>

subsection \<open>Virtual dispatch\<close>

datatype 'w sink =
    Console ConsoleSink
  | Callback "'w CallbackSink"
  | RingMemory RingMemorySink
  | Rotating RotatingFileSink
  | Daily DailyFileSink
  | ROS2 ROS2Sink

record 'w env =
  env_tz :: timezone
  env_junk :: bytes
  env_px :: "'w posix"
  env_rcutils :: "'w rcutils_log"

fun ILogSink_Write :: "'w env \<Rightarrow> LogEntry \<Rightarrow> 'w sink \<Rightarrow> stdio \<times> 'w \<Rightarrow> ('w sink \<times> stdio \<times> 'w) option" where
  "ILogSink_Write env e (Console s) (io, w) =
     do { (s', io') \<leftarrow> ConsoleSink_Write (fst (env_tz env)) (env_junk env) e s io; Some (Console s', io', w) }"
| "ILogSink_Write env e (Callback s) (io, w) = (let (s', w') = CallbackSink_Write e s w in Some (Callback s', io, w'))"
| "ILogSink_Write env e (RingMemory s) (io, w) = do { s' \<leftarrow> RingMemorySink_Write e s; Some (RingMemory s', io, w) }"
| "ILogSink_Write env e (Rotating s) (io, w) =
     do { (s', w') \<leftarrow> RotatingFileSink_Write (fst (env_tz env)) (env_junk env) (env_px env) e s w; Some (Rotating s', io, w') }"
| "ILogSink_Write env e (Daily s) (io, w) =
     do { (s', w') \<leftarrow> DailyFileSink_Write (env_tz env) (env_junk env) (env_px env) e s w; Some (Daily s', io, w') }"
| "ILogSink_Write env e (ROS2 s) (io, w) =
     do { (s', w') \<leftarrow> ROS2Sink_Write (env_rcutils env) e s w; Some (ROS2 s', io, w') }"

fun ILogSink_Flush :: "'w env \<Rightarrow> 'w sink \<Rightarrow> stdio \<times> 'w \<Rightarrow> 'w sink \<times> stdio \<times> 'w" where
  "ILogSink_Flush env (Console s) (io, w) = (Console s, ConsoleSink_Flush s io, w)"
| "ILogSink_Flush env (Callback s) (io, w) = (Callback s, io, CallbackSink_Flush s w)"
| "ILogSink_Flush env (RingMemory s) (io, w) = (RingMemory (RingMemorySink_Flush s), io, w)"
| "ILogSink_Flush env (Rotating s) (io, w) = (Rotating s, io, RotatingFileSink_Flush (env_px env) s w)"
| "ILogSink_Flush env (Daily s) (io, w) = (Daily s, io, DailyFileSink_Flush (env_px env) s w)"
| "ILogSink_Flush env (ROS2 s) (io, w) = (ROS2 s, io, ROS2Sink_Flush s w)"

text \<open>The destructors. Only the file sinks have one of their own.\<close>

fun ILogSink_destroy :: "'w env \<Rightarrow> 'w sink \<Rightarrow> stdio \<times> 'w \<Rightarrow> stdio \<times> 'w" where
  "ILogSink_destroy env (Rotating s) (io, w) = (io, snd (RotatingFileSink_destroy (env_px env) s w))"
| "ILogSink_destroy env (Daily s) (io, w) = (io, snd (DailyFileSink_destroy (env_px env) s w))"
| "ILogSink_destroy env s (io, w) = (io, w)"

definition log_sinks :: "'w env \<Rightarrow> ('w sink, stdio \<times> 'w) sink_ops" where
  "log_sinks env = \<lparr>sink_Write = ILogSink_Write env, sink_Flush = ILogSink_Flush env\<rparr>"

subsection \<open>Every sink keeps the contract\<close>

fun sink_inv :: "'w sink \<Rightarrow> bool" where
  "sink_inv (Console s) = sink_wf s"
| "sink_inv (Callback s) = True"
| "sink_inv (RingMemory s) = mem_wf s"
| "sink_inv (Rotating s) = sink_wf s"
| "sink_inv (Daily s) = sink_wf s"
| "sink_inv (ROS2 s) = True"

text \<open>An entry as the logger makes it: well-formed, with a terminated message.\<close>

definition good_entry :: "config \<Rightarrow> 'w env \<Rightarrow> LogEntry \<Rightarrow> bool" where
  "good_entry cfg env e \<longleftrightarrow> entry_ok cfg (fst (env_tz env)) (env_junk env) e \<and> terminated (msg e)"

lemma Rotate_fields:
  "sink_formatter (fst (Rotate px s w)) = sink_formatter s \<and> format_buf (fst (Rotate px s w)) = format_buf s"
  by (simp add: Rotate_def Rotating_OpenFile_def Let_def split_def split: option.split)

lemma rotating_write_total:
  assumes "entry_ok cfg lt junk e" "sink_wf s"
  shows "\<exists>s' w'. RotatingFileSink_Write lt junk px e s w = Some (s', w') \<and> sink_wf s'"
proof (cases "ShouldLog s (level e)")
  case False
  with assms show ?thesis by (simp add: RotatingFileSink_Write_def)
next
  case True
  let ?s0 = "ensure_formatter rotating_pattern False s" and ?n = "length (sink_line lt rotating_pattern False s e)"
  obtain buf where b: "DoFormat lt junk e ?s0 = Some (?s0\<lparr>format_buf := buf\<rparr>, ?n)" "length buf = 2048"
    using DoFormat_line [OF assms] by blast
  have r: "format_buf (fst (rotate_if_needed px ?n (?s0\<lparr>format_buf := buf\<rparr>) w)) = buf"
    using Rotate_fields [of px "?s0\<lparr>format_buf := buf\<rparr>" w] by (simp add: rotate_if_needed_def)
  obtain s2 w2 where t: "rotate_if_needed px ?n (?s0\<lparr>format_buf := buf\<rparr>) w = (s2, w2)" by fastforce
  with r have "format_buf s2 = buf" by simp
  with True b t show ?thesis
    by (auto simp: RotatingFileSink_Write_def sink_wf_def Let_def split_def)
qed

lemma OpenFileForToday_fields:
  "sink_formatter (fst (OpenFileForToday tz px s w)) = sink_formatter s \<and> format_buf (fst (OpenFileForToday tz px s w)) = format_buf s"
  by (simp add: OpenFileForToday_def Let_def split_def)

lemma daily_write_total:
  assumes "entry_ok cfg (fst tz) junk e" "sink_wf s"
  shows "\<exists>s' w'. DailyFileSink_Write tz junk px e s w = Some (s', w') \<and> sink_wf s'"
proof (cases "ShouldLog s (level e)")
  case False
  with assms show ?thesis by (simp add: DailyFileSink_Write_def)
next
  case True
  define s1 where "s1 = ensure_formatter default_pattern False s"
  obtain now w1 where t: "px_time px w = (now, w1)" by fastforce
  obtain s2 w2 where o: "(if GetDay tz s1 now \<noteq> current_day s1 then OpenFileForToday tz px s1 w1 else (s1, w1)) = (s2, w2)" by fastforce
  then have "sink_formatter s2 = sink_formatter s1" "format_buf s2 = format_buf s1"
    using OpenFileForToday_fields [of tz px s1 w1] by (auto split: if_splits)
  moreover obtain f where "sink_formatter s1 = Some f" using ensure_formatter_line unfolding s1_def by blast
  ultimately obtain buf n where "DoFormat (fst tz) junk e s2 = Some (s2\<lparr>format_buf := buf\<rparr>, n)" "length buf = 2048"
    using DoFormat_out [OF assms(1), of s2 f] assms(2) by (auto simp: sink_wf_def s1_def)
  with True t o show ?thesis
    by (auto simp: DailyFileSink_Write_def s1_def [symmetric] sink_wf_def Let_def split_def)
qed

lemma memory_write_total: "mem_wf s \<Longrightarrow> \<exists>s'. RingMemorySink_Write e s = Some s' \<and> mem_wf s'"
proof (cases "ShouldLog s (level e)")
  case True
  then show "mem_wf s \<Longrightarrow> ?thesis" using Write_mem_list [of s e] by blast
next
  case False
  then show "mem_wf s \<Longrightarrow> ?thesis" by (simp add: RingMemorySink_Write_def)
qed

interpretation all_sinks: log_sink "log_sinks env" sink_inv "good_entry cfg env" for env cfg
proof unfold_locales
  fix s :: "'a sink" and e and w :: "stdio \<times> 'a"
  assume "sink_inv s" and e: "good_entry cfg env e"
  obtain io os where w: "w = (io, os)" by (cases w)
  note ok = e [unfolded good_entry_def]
  show "\<exists>s' w'. sink_Write (log_sinks env) e s w = Some (s', w') \<and> sink_inv s'"
  proof (cases s)
    case (Console c)
    then show ?thesis using ConsoleSink_Write_ok [of cfg "fst (env_tz env)" "env_junk env" e c io] ok \<open>sink_inv s\<close>
      by (auto simp: log_sinks_def w)
  next
    case (Callback c)
    then show ?thesis by (simp add: log_sinks_def w split_def Let_def)
  next
    case (RingMemory c)
    then show ?thesis using memory_write_total [of c e] \<open>sink_inv s\<close> by (auto simp: log_sinks_def w)
  next
    case (Rotating c)
    then show ?thesis using rotating_write_total [of cfg "fst (env_tz env)" "env_junk env" e c "env_px env" os] ok \<open>sink_inv s\<close>
      by (auto simp: log_sinks_def w)
  next
    case (Daily c)
    then show ?thesis using daily_write_total [of cfg "env_tz env" "env_junk env" e c "env_px env" os] ok \<open>sink_inv s\<close>
      by (auto simp: log_sinks_def w)
  next
    case (ROS2 c)
    then show ?thesis using ROS2Sink_Write_ok [of e "env_rcutils env" c os] ok by (simp add: log_sinks_def w)
  qed
next
  fix s :: "'a sink" and w :: "stdio \<times> 'a"
  assume "sink_inv s"
  then show "sink_inv (fst (sink_Flush (log_sinks env) s w))"
    by (cases s; cases w) (simp_all add: log_sinks_def RingMemorySink_Flush_def)
qed

subsection \<open>The backend in operation\<close>

text \<open>
  The calls different threads may make on a backend, in any order: producers push entries, the worker or the
  owner drains, the owner starts the worker. \<open>backend_reach cfg env ss w acc b w'\<close> says that from a fresh
  backend with the sinks \<open>ss\<close> in the world \<open>w\<close> such calls lead to \<open>b\<close> in \<open>w'\<close> and that the pushes
  which returned true were those of \<open>acc\<close>, in that order.
\<close>

inductive backend_reach ::
  "config \<Rightarrow> 'w env \<Rightarrow> 'w sink list \<Rightarrow> stdio \<times> 'w \<Rightarrow> LogEntry list \<Rightarrow> 'w sink LoggerBackend \<Rightarrow> stdio \<times> 'w \<Rightarrow> bool"
  for cfg env ss w where
  fresh: "b = fold backend_AddSink ss (LoggerBackend_init cfg) \<Longrightarrow> backend_reach cfg env ss w [] b w"
| push: "backend_reach cfg env ss w acc b w1 \<Longrightarrow> good_entry cfg env e \<Longrightarrow> backend_TryPush e b = Some (ok, b') \<Longrightarrow>
    backend_reach cfg env ss w (if ok then acc @ [e] else acc) b' w1"
| drain: "backend_reach cfg env ss w acc b w1 \<Longrightarrow> Drain (log_sinks env) k b w1 = Some (n, b', w2) \<Longrightarrow>
    backend_reach cfg env ss w acc b' w2"
| start: "backend_reach cfg env ss w acc b w1 \<Longrightarrow> backend_reach cfg env ss w acc (backend_Start cfg b) w1"

text \<open>What has been handed to the sinks and what is pending make up what was accepted.\<close>

definition delivery_inv ::
  "config \<Rightarrow> 'w env \<Rightarrow> 'w sink list \<Rightarrow> stdio \<times> 'w \<Rightarrow> LogEntry list \<Rightarrow> 'w sink LoggerBackend \<Rightarrow> stdio \<times> 'w \<Rightarrow> bool" where
  "delivery_inv cfg env ss w acc b w' \<longleftrightarrow> ring_wf (ring b) \<and> list_all sink_inv (sinks b) \<and>
     list_all (good_entry cfg env) acc \<and>
     (\<exists>del. acc = del @ ring_list (ring b) \<and> dispatch_list (log_sinks env) del ss w = Some (sinks b, w'))"

lemma fold_AddSink: "fold backend_AddSink ss b = b\<lparr>sinks := sinks b @ ss\<rparr>"
  by (induction ss arbitrary: b) (simp_all add: backend_AddSink_def)

lemma ring_wf_fresh: "valid_config cfg \<Longrightarrow> ring_wf (ring (LoggerBackend_init cfg))"
  by (auto simp: LoggerBackend_init_def valid_config_def capacity_ok_def intro!: ring_wf_init)

lemma delivery_push:
  assumes "delivery_inv cfg env ss w acc b w1" "good_entry cfg env e" "backend_TryPush e b = Some (ok, b')"
  shows "delivery_inv cfg env ss w (if ok then acc @ [e] else acc) b' w1"
proof -
  obtain r where r: "TryPush (ring b) e = Some (ok, r)" "b' = b\<lparr>ring := r\<rparr>"
    using assms(3) by (auto simp: backend_TryPush_def split: Option.bind_splits)
  have wf: "ring_wf (ring b)" using assms(1) by (simp add: delivery_inv_def)
  note p = rbq.push_result [OF wf r(1)]
  show ?thesis using assms(1,2) r(2) p(1,4) by (auto simp: delivery_inv_def)
qed

lemma delivery_drain:
  assumes "delivery_inv cfg env ss w acc b w1" "Drain (log_sinks env) k b w1 = Some (n, b', w2)"
  shows "delivery_inv cfg env ss w acc b' w2"
proof -
  from assms(1) obtain del where d: "ring_wf (ring b)" "list_all sink_inv (sinks b)" "list_all (good_entry cfg env) acc"
    "acc = del @ ring_list (ring b)" "dispatch_list (log_sinks env) del ss w = Some (sinks b, w1)"
    by (auto simp: delivery_inv_def)
  have "list_all (good_entry cfg env) (ring_list (ring b))" using d(3,4) by simp
  from all_sinks.Drain_eq [OF d(1,2) this refl, of k w1] assms(2) obtain ss' r where
    r: "b' = b\<lparr>ring := r, sinks := ss'\<rparr>" "ring_wf r" "ring_list r = drop n (ring_list (ring b))" "list_all sink_inv ss'"
    "dispatch_list (log_sinks env) (take n (ring_list (ring b))) (sinks b) w1 = Some (ss', w2)"
    by auto
  have "dispatch_list (log_sinks env) (del @ take n (ring_list (ring b))) ss w = Some (ss', w2)"
    using d(5) r(5) by (simp add: dispatch_list_append)
  moreover have "acc = (del @ take n (ring_list (ring b))) @ ring_list r" using d(4) r(3) by simp
  ultimately show ?thesis unfolding delivery_inv_def using r d(3) by (intro conjI exI) simp_all
qed

lemma delivery_stop:
  assumes "delivery_inv cfg env ss w acc b w'"
  shows "\<exists>ss1 w1 b'. dispatch_list (log_sinks env) acc ss w = Some (ss1, w1) \<and>
    backend_Stop (log_sinks env) k idle b w' = Some (b', snd (flush_all (log_sinks env) ss1 w1)) \<and>
    sinks b' = fst (flush_all (log_sinks env) ss1 w1) \<and> ring_list (ring b') = [] \<and> \<not> running b' \<and> \<not> worker b' \<and>
    ring_wf (ring b') \<and> list_all sink_inv (sinks b')"
proof -
  from assms obtain del where d: "ring_wf (ring b)" "list_all sink_inv (sinks b)"
    "list_all (good_entry cfg env) acc" "acc = del @ ring_list (ring b)" "dispatch_list (log_sinks env) del ss w = Some (sinks b, w')"
    by (auto simp: delivery_inv_def)
  have "list_all (good_entry cfg env) (ring_list (ring b))" using d(3,4) by simp
  from all_sinks.Stop_eq [OF d(1,2) this, of w' k idle] obtain ss1 w1 r where
    "dispatch_list (log_sinks env) (ring_list (ring b)) (sinks b) w' = Some (ss1, w1)"
    "backend_Stop (log_sinks env) k idle b w' = Some (b\<lparr>ring := r, sinks := fst (flush_all (log_sinks env) ss1 w1),
      running := False, worker := False\<rparr>, snd (flush_all (log_sinks env) ss1 w1))" "ring_list r = []"
    "ring_wf r" "list_all sink_inv (fst (flush_all (log_sinks env) ss1 w1))" by blast
  moreover from this(1) have "dispatch_list (log_sinks env) acc ss w = Some (ss1, w1)"
    using d(4,5) by (simp add: dispatch_list_append)
  ultimately show ?thesis by auto
qed

lemma stop_again:
  assumes "ring_wf (ring b)" "ring_list (ring b) = []" "list_all sink_inv (sinks b)"
  shows "\<exists>b'. backend_Stop (log_sinks env) k idle b w = Some (b', snd (flush_all (log_sinks env) (sinks b) w)) \<and>
    sinks b' = fst (flush_all (log_sinks env) (sinks b) w)"
  using all_sinks.Stop_eq [OF assms(1,3), of cfg env w k idle] assms(2) by auto

lemma backend_reach_inv:
  assumes "backend_reach cfg env ss w acc b w'" "valid_config cfg" "list_all sink_inv ss"
  shows "delivery_inv cfg env ss w acc b w'"
  using assms(1)
proof induction
  case (fresh b)
  then show ?case using assms ring_wf_fresh [OF assms(2)]
    by (simp add: delivery_inv_def fold_AddSink) (simp add: LoggerBackend_init_def)
next
  case (push acc b w1 e ok b')
  then show ?case using delivery_push by blast
next
  case (drain acc b w1 k n b' w2)
  then show ?case using delivery_drain by blast
next
  case (start acc b w1)
  then show ?case by (simp add: delivery_inv_def backend_Start_def)
qed

subsection \<open>Properties\<close>

text \<open>
  C12: entries are delivered exactly once, in order. However pushes, drains and the start of the worker are
  ordered, the entries handed to the sinks so far, followed by the entries still in the ring, are exactly the
  entries whose push was accepted, in the order of acceptance; every sink has seen all of the former, one after
  the other.
\<close>

theorem backend_delivery:
  assumes "backend_reach cfg env ss w acc b w'" and "valid_config cfg" and "list_all sink_inv ss"
  shows "\<exists>del. acc = del @ ring_list (ring b) \<and> dispatch_list (log_sinks env) del ss w = Some (sinks b, w')"
  using backend_reach_inv [OF assms] by (simp add: delivery_inv_def)

text \<open>
  C13: stopping loses nothing. From every reachable backend, with or without a worker thread and whatever number
  of rounds the worker still makes, \<open>Stop\<close> returns: both draining loops end, every accepted entry has then
  been handed to every sink in order of acceptance, the ring is empty, the sinks have been flushed last, and
  the worker is gone.
\<close>

theorem backend_stop_delivers_all:
  assumes "backend_reach cfg env ss w acc b w'" and "valid_config cfg" and "list_all sink_inv ss"
  shows "\<exists>ss1 w1 b'. dispatch_list (log_sinks env) acc ss w = Some (ss1, w1) \<and>
    backend_Stop (log_sinks env) k idle b w' = Some (b', snd (flush_all (log_sinks env) ss1 w1)) \<and>
    sinks b' = fst (flush_all (log_sinks env) ss1 w1) \<and> ring_list (ring b') = [] \<and> \<not> running b' \<and> \<not> worker b'"
  using delivery_stop [OF backend_reach_inv [OF assms], of k idle] by blast

text \<open>A small run for the witnesses: one memory sink, one entry pushed, nothing drained.\<close>

definition demo_env :: "mem_os env" where
  "demo_env = \<lparr>env_tz = (\<lambda>_. None, \<lambda>_. None), env_junk = replicate 128 NUL, env_px = mem_posix, env_rcutils = (\<lambda>l sv n m w. w)\<rparr>"

definition demo_world :: "stdio \<times> mem_os" where
  "demo_world = (\<lparr>std_out = \<lparr>stream_text = [], stream_flushed = 0\<rparr>, std_err = \<lparr>stream_text = [], stream_flushed = 0\<rparr>\<rparr>, mem_os_init 0)"

definition demo_memory :: "mem_os sink" where
  "demo_memory = RingMemory (RingMemorySink_init (platform_config False) (replicate 2048 NUL) 4)"

lemma demo_good: "good_entry (platform_config False) demo_env demo_entry"
  using demo_entry_ok
  by (simp add: good_entry_def demo_env_def) (simp add: demo_entry_def zero_entry_def platform_config_def terminated_def)

lemma demo_memory_inv: "list_all sink_inv [demo_memory]"
  using mem_wf_init [of 4] by (simp add: demo_memory_def)

lemma demo_reach:
  "\<exists>b. backend_reach (platform_config False) demo_env [demo_memory] demo_world [demo_entry] b demo_world"
proof -
  let ?b = "fold backend_AddSink [demo_memory] (LoggerBackend_init (platform_config False))"
  have f: "backend_reach (platform_config False) demo_env [demo_memory] demo_world [] ?b demo_world"
    by (rule backend_reach.fresh [OF refl])
  have wf: "ring_wf (ring ?b)" using ring_wf_fresh [OF valid_platform_config, of False] by (simp add: backend_AddSink_def)
  have "ring_list (ring ?b) = []" "Capacity (ring ?b) = 8192"
    by (simp_all add: backend_AddSink_def LoggerBackend_init_def platform_config_def)
  then obtain r where "TryPush (ring ?b) demo_entry = Some (True, r)" using rbq.push_room [OF wf, of demo_entry] by auto
  then have "backend_TryPush demo_entry ?b = Some (True, ?b\<lparr>ring := r\<rparr>)" by (simp add: backend_TryPush_def)
  from backend_reach.push [OF f demo_good this] show ?thesis by auto
qed

theorem backend_delivery_witness:
  "\<exists>b del. backend_reach (platform_config False) demo_env [demo_memory] demo_world [demo_entry] b demo_world \<and>
     [demo_entry] = del @ ring_list (ring b)"
  using demo_reach backend_delivery [OF _ valid_platform_config demo_memory_inv] by blast

theorem backend_stop_delivers_all_witness:
  "\<exists>b b' w'. backend_reach (platform_config False) demo_env [demo_memory] demo_world [demo_entry] b demo_world \<and>
     backend_Stop (log_sinks demo_env) 3 0 b demo_world = Some (b', w') \<and> ring_list (ring b') = []"
  using demo_reach backend_stop_delivers_all [OF _ valid_platform_config demo_memory_inv, of False demo_env demo_world "[demo_entry]"]
  by metis

text \<open>A number of consecutive rounds of the worker that find the ring empty.\<close>

fun idle_rounds :: "nat \<Rightarrow> u32 \<times> idle_action \<Rightarrow> u32 \<times> idle_action" where
  "idle_rounds 0 s = s"
| "idle_rounds (Suc n) s = idle_policy 0 (fst (idle_rounds n s))"

text \<open>
  The idle policy of the worker. After \<open>n\<close> consecutive empty rounds (up to the range of the counter) the
  worker spins while \<open>n\<close> is below 100, yields below 1000 and sleeps from then on; one entry resets the count.
\<close>

lemma worker_idle_policy:
  assumes "0 < n" and "n < 2 ^ 32" and "0 < drained"
  shows "idle_rounds n (idle_policy drained c) =
    (of_nat n, if n < 100 then Spin else if n < 1000 then Yield else Sleep)"
proof -
  have c: "fst (idle_rounds k (idle_policy drained c)) = of_nat k" for k
    using assms(3) by (induction k) (simp_all add: idle_policy_def Let_def add.commute)
  obtain k where k: "n = Suc k" using assms(1) by (cases n) auto
  have "unat (of_nat n :: u32) = n" using assms(2) by (intro unat_of_nat_small) simp
  then have "(of_nat n :: u32) < 100 \<longleftrightarrow> n < 100" "(of_nat n :: u32) < 1000 \<longleftrightarrow> n < 1000"
    by (simp_all add: word_less_nat_alt)
  then show ?thesis using c [of k] by (simp add: k idle_policy_def Let_def add.commute)
qed

lemma worker_idle_policy_witness: "snd (idle_rounds 500 (idle_policy 7 0)) = Yield"
  using worker_idle_policy [of 500 7 0] by simp

end
