(* ===== verification/Logger.thy ===== *)
theory Logger
  imports Sinks Log_Context "HOL-Library.Sublist"
begin

text \<open>
  The logger (\<open>logger.hpp\<close>, \<open>logger.cpp\<close>): making an entry, queueing it, and the logging macros. What a
  call site supplies and what the system reports at the call (clocks, process and thread id) is the record
  \<open>log_call\<close>. The message is either a format string without arguments, which is copied, or a format with
  arguments: then the complete text the format produces is given, or \<open>None\<close> for an encoding error, when
  \<open>snprintf\<close> reports a negative length.
\<close>

subsection \<open>State\<close>

record 's Logger =
  backend :: "'s LoggerBackend"
  logger_level :: LogLevel
  logger_sequence :: u64
  drop_count :: u64
  started :: bool

definition Logger_init :: "config \<Rightarrow> 's Logger" where
  "Logger_init cfg =
     \<lparr>backend = LoggerBackend_init cfg, logger_level = INFO, logger_sequence = 0, drop_count = 0, started = False\<rparr>"

datatype message = PlainFmt bytes | Printed "string option"

record log_call =
  call_level :: LogLevel
  call_loc :: SourceLocation
  call_msg :: message
  call_mono :: u64
  call_wall :: u64
  call_pid :: u32
  call_tid :: u64

subsection \<open>Logging an entry\<close>

text \<open>Step 6 of \<open>LogImpl\<close>.\<close>

definition format_message :: "config \<Rightarrow> message \<Rightarrow> LogEntry \<Rightarrow> LogEntry option" where
  "format_message cfg m e = (case m of
     PlainFmt fmt \<Rightarrow>
       do { n \<leftarrow> strlen fmt;
            let len = (if n \<ge> BR_LOG_MAX_MSG_LEN cfg then BR_LOG_MAX_MSG_LEN cfg - 1 else n) in
              do { b1 \<leftarrow> memcpy (msg e) 0 fmt len;
                   b2 \<leftarrow> store_byte b1 len NUL;
                   Some (e\<lparr>msg := b2, msg_len := of_nat len\<rparr>) } }
   | Printed (Some t) \<Rightarrow>
       do { (b, written) \<leftarrow> snprintf (msg e) (BR_LOG_MAX_MSG_LEN cfg) t;
            Some (e\<lparr>msg := b, msg_len := (if 0 < written then of_nat written else 0)\<rparr>) }
   | Printed None \<Rightarrow> Some (e\<lparr>msg_len := 0\<rparr>))"

text \<open>
  The same step in the build with the fmt library. \<open>fmt::format_to_n\<close> stores at most the given number of
  characters of the text \<open>t\<close> and no terminator, and reports the length of the whole text.
\<close>

definition format_message_fmtlib :: "config \<Rightarrow> string \<Rightarrow> LogEntry \<Rightarrow> LogEntry option" where
  "format_message_fmtlib cfg t e =
     do { b1 \<leftarrow> memcpy (msg e) 0 t (min (length t) (BR_LOG_MAX_MSG_LEN cfg - 1));
          let len = (of_nat (length t) :: u16) in
            do { b2 \<leftarrow> store_byte b1 (unat len) NUL;
                 Some (e\<lparr>msg := b2, msg_len := len\<rparr>) } }"

text \<open>Steps 1 to 6: the entry, and the thread's state after its id has been cached.\<close>

definition build_entry :: "config \<Rightarrow> LogContext \<Rightarrow> log_call \<Rightarrow> u64 \<Rightarrow> Tls \<Rightarrow> (LogEntry \<times> Tls) option" where
  "build_entry cfg ctx c seq tls =
     (let e0 = (zero_entry cfg)
            \<lparr>timestamp_ns := call_mono c, wall_clock_ns := call_wall c,
             level := call_level c,
             file_path := loc_file_path (call_loc c), file_name := loc_file_name (call_loc c),
             function_name := loc_function_name (call_loc c), pretty_function := loc_pretty_function (call_loc c),
             line := loc_line (call_loc c), column := loc_column (call_loc c),
             sequence_id := seq\<rparr>
      in do { (e1, tls1) \<leftarrow> FillThreadInfo (call_pid c) (call_tid c) tls e0;
              e2 \<leftarrow> FillTags cfg ctx tls1 e1;
              e3 \<leftarrow> format_message cfg (call_msg c) e2;
              Some (e3, tls1) })"

definition LogImpl :: "config \<Rightarrow> LogContext \<Rightarrow> log_call \<Rightarrow> 's Logger \<Rightarrow> Tls \<Rightarrow> ('s Logger \<times> Tls) option" where
  "LogImpl cfg ctx c lg tls =
     do { (e, tls1) \<leftarrow> build_entry cfg ctx c (logger_sequence lg) tls;
          (ok, b) \<leftarrow> backend_TryPush e (backend lg);
          Some (lg\<lparr>backend := b, logger_sequence := logger_sequence lg + 1,
                   drop_count := (if ok then drop_count lg else drop_count lg + 1)\<rparr>, tls1) }"

subsection \<open>The other operations\<close>

definition Logger_AddSink :: "'s \<Rightarrow> 's Logger \<Rightarrow> 's Logger" where
  "Logger_AddSink s lg = lg\<lparr>backend := backend_AddSink s (backend lg)\<rparr>"

definition Logger_SetLevel :: "LogLevel \<Rightarrow> 's Logger \<Rightarrow> 's Logger" where
  "Logger_SetLevel l lg = lg\<lparr>logger_level := l\<rparr>"

definition Logger_Level :: "'s Logger \<Rightarrow> LogLevel" where
  "Logger_Level lg = logger_level lg"

definition Logger_Start :: "config \<Rightarrow> 's Logger \<Rightarrow> 's Logger" where
  "Logger_Start cfg lg = (if started lg then lg else lg\<lparr>backend := backend_Start cfg (backend lg), started := True\<rparr>)"

definition Logger_Stop ::
  "('s, 'w) sink_ops \<Rightarrow> nat \<Rightarrow> u32 \<Rightarrow> 's Logger \<Rightarrow> 'w \<Rightarrow> ('s Logger \<times> 'w) option" where
  "Logger_Stop so k idle lg w =
     (if \<not> started lg then Some (lg, w)
      else do { (b, w') \<leftarrow> backend_Stop so k idle (backend lg) w; Some (lg\<lparr>backend := b, started := False\<rparr>, w') })"

definition Logger_Drain ::
  "('s, 'w) sink_ops \<Rightarrow> nat \<Rightarrow> 's Logger \<Rightarrow> 'w \<Rightarrow> (nat \<times> 's Logger \<times> 'w) option" where
  "Logger_Drain so max_entries lg w =
     do { (n, b, w') \<leftarrow> Drain so max_entries (backend lg) w; Some (n, lg\<lparr>backend := b\<rparr>, w') }"

text \<open>
  The destructor: \<open>Stop\<close>, then the destructor of the backend, which stops it once more, and those of the
  sinks. There is no worker left to join in the second stop.
\<close>

definition Logger_destroy ::
  "'w env \<Rightarrow> nat \<Rightarrow> u32 \<Rightarrow> 'w sink Logger \<Rightarrow> stdio \<times> 'w \<Rightarrow> (stdio \<times> 'w) option" where
  "Logger_destroy env k idle lg w =
     do { (lg1, w1) \<leftarrow> Logger_Stop (log_sinks env) k idle lg w;
          (b, w2) \<leftarrow> backend_Stop (log_sinks env) k idle (backend lg1) w1;
          Some (fold (ILogSink_destroy env) (sinks b) w2) }"

definition DropCount :: "'s Logger \<Rightarrow> u64" where
  "DropCount lg = drop_count lg"

definition ResetDropCount :: "'s Logger \<Rightarrow> 's Logger" where
  "ResetDropCount lg = lg\<lparr>drop_count := 0\<rparr>"

subsection \<open>The macros\<close>

definition BR_LOG_CALL ::
  "config \<Rightarrow> nat \<Rightarrow> LogContext \<Rightarrow> log_call \<Rightarrow> 's Logger \<Rightarrow> Tls \<Rightarrow> ('s Logger \<times> Tls) option" where
  "BR_LOG_CALL cfg active ctx c lg tls =
     (if level_value (call_level c) \<ge> active
      then if Logger_Level lg \<le> call_level c then LogImpl cfg ctx c lg tls else Some (lg, tls)
      else Some (lg, tls))"

definition LOG_IF ::
  "bool \<Rightarrow> config \<Rightarrow> nat \<Rightarrow> LogContext \<Rightarrow> log_call \<Rightarrow> 's Logger \<Rightarrow> Tls \<Rightarrow> ('s Logger \<times> Tls) option" where
  "LOG_IF cond cfg active ctx c lg tls = (if cond then BR_LOG_CALL cfg active ctx c lg tls else Some (lg, tls))"

text \<open>The counter and the flag are the static variables of one call site.\<close>

definition LOG_EVERY_N ::
  "u64 \<Rightarrow> config \<Rightarrow> nat \<Rightarrow> LogContext \<Rightarrow> log_call \<Rightarrow> u64 \<Rightarrow> 's Logger \<Rightarrow> Tls \<Rightarrow> (u64 \<times> 's Logger \<times> Tls) option" where
  "LOG_EVERY_N n cfg active ctx c cnt lg tls =
     (if n = 0 then None
      else do { (lg', tls') \<leftarrow> (if cnt mod n = 0 then BR_LOG_CALL cfg active ctx c lg tls else Some (lg, tls));
                Some (cnt + 1, lg', tls') })"

definition LOG_ONCE ::
  "config \<Rightarrow> nat \<Rightarrow> LogContext \<Rightarrow> log_call \<Rightarrow> bool \<Rightarrow> 's Logger \<Rightarrow> Tls \<Rightarrow> (bool \<times> 's Logger \<times> Tls) option" where
  "LOG_ONCE cfg active ctx c logged lg tls =
     do { (lg', tls') \<leftarrow> (if \<not> logged then BR_LOG_CALL cfg active ctx c lg tls else Some (lg, tls));
          Some (True, lg', tls') }"

subsection \<open>The entry that is built\<close>

text \<open>A message that leaves the entry well-formed, and the text that ends up in it.\<close>

fun message_fits :: "config \<Rightarrow> message \<Rightarrow> bool" where
  "message_fits cfg (PlainFmt f) = terminated f"
| "message_fits cfg (Printed (Some t)) = (length t < BR_LOG_MAX_MSG_LEN cfg)"
| "message_fits cfg (Printed None) = True"

fun message_text :: "config \<Rightarrow> message \<Rightarrow> string" where
  "message_text cfg (PlainFmt f) = take (BR_LOG_MAX_MSG_LEN cfg - 1) (c_str f)"
| "message_text cfg (Printed (Some t)) = t"
| "message_text cfg (Printed None) = []"

definition wf_call :: "log_call \<Rightarrow> bool" where
  "wf_call c \<longleftrightarrow> wf_ptr (loc_file_path (call_loc c)) \<and> wf_ptr (loc_file_name (call_loc c)) \<and>
     wf_ptr (loc_function_name (call_loc c)) \<and> wf_ptr (loc_pretty_function (call_loc c))"

lemma plain_message:
  assumes "valid_config cfg" "length (msg e) = BR_LOG_MAX_MSG_LEN cfg" "terminated f"
  shows "\<exists>b. format_message cfg (PlainFmt f) e = Some (e\<lparr>msg := b, msg_len := of_nat (length (message_text cfg (PlainFmt f)))\<rparr>) \<and>
    length b = BR_LOG_MAX_MSG_LEN cfg \<and> terminated b \<and>
    take (length (message_text cfg (PlainFmt f))) b = message_text cfg (PlainFmt f) \<and>
    length (message_text cfg (PlainFmt f)) < BR_LOG_MAX_MSG_LEN cfg"
proof -
  let ?M = "BR_LOG_MAX_MSG_LEN cfg" and ?n = "length (c_str f)"
  define len where "len = (if ?n \<ge> ?M then ?M - 1 else ?n)"
  have M: "0 < ?M" using valid_configD(1) [OF assms(1)] .
  then have len: "len < ?M" "len \<le> ?n" by (auto simp: len_def)
  have lf: "?n < length f" by (rule c_str_length_less [OF assms(3)])
  have lm: "len = min (?M - 1) ?n" using M by (auto simp: len_def min_def)
  have "take (?M - 1) (take ?n f) = take len f" unfolding lm by (rule take_take)
  then have m: "message_text cfg (PlainFmt f) = take len f" "length (take len f) = len" using len lf by simp_all
  let ?b1 = "take len f @ drop len (msg e)"
  define b where "b = ?b1[len := NUL]"
  have "memcpy (msg e) 0 f len = Some ?b1" using len lf assms(2) by (simp add: memcpy_def)
  moreover have "store_byte ?b1 len NUL = Some b" using len assms(2) m(2) by (simp add: store_byte_def b_def)
  ultimately have fm: "format_message cfg (PlainFmt f) e = Some (e\<lparr>msg := b, msg_len := of_nat len\<rparr>)"
    using strlen_terminated [OF assms(3)] by (simp add: format_message_def Let_def len_def)
  have b: "length b = ?M" "b ! len = NUL" "take len b = take len f" using len lf m(2) assms(2) by (simp_all add: b_def)
  have "terminated b" using b(1,2) len(1) by (intro nth_terminated [of len]) simp_all
  then show ?thesis unfolding m using fm b(1,3) m(2) len(1) by (intro exI [of _ b]) simp
qed

lemma printed_message:
  assumes "valid_config cfg" "length (msg e) = BR_LOG_MAX_MSG_LEN cfg" "length t < BR_LOG_MAX_MSG_LEN cfg"
  shows "\<exists>b. format_message cfg (Printed (Some t)) e = Some (e\<lparr>msg := b, msg_len := of_nat (length t)\<rparr>) \<and>
    length b = BR_LOG_MAX_MSG_LEN cfg \<and> terminated b \<and> take (length t) b = t"
proof -
  obtain b where "snprintf (msg e) (BR_LOG_MAX_MSG_LEN cfg) t = Some (b, length t)"
    and h: "holds_text (BR_LOG_MAX_MSG_LEN cfg) (msg e) t b"
    using snprintf_holds [of "BR_LOG_MAX_MSG_LEN cfg" "msg e" t] assms by auto
  moreover have "terminated b" using h assms by (intro nth_terminated [of "length t"]) (auto simp: holds_text_def)
  ultimately show ?thesis using h assms(2)
    by (intro exI [of _ b]) (cases "t = []"; simp add: format_message_def holds_text_def)
qed

lemma format_message_ok:
  assumes "valid_config cfg" "wf_entry_head cfg e" "terminated (msg e)" "message_fits cfg m"
  shows "\<exists>b. format_message cfg m e = Some (e\<lparr>msg := b, msg_len := of_nat (length (message_text cfg m))\<rparr>) \<and>
    length b = BR_LOG_MAX_MSG_LEN cfg \<and> terminated b \<and> take (length (message_text cfg m)) b = message_text cfg m \<and>
    length (message_text cfg m) < BR_LOG_MAX_MSG_LEN cfg"
proof -
  have l: "length (msg e) = BR_LOG_MAX_MSG_LEN cfg" using assms(2) by (simp add: wf_entry_head_def)
  show ?thesis
  proof (cases m)
    case (PlainFmt f)
    with plain_message [OF assms(1) l, of f] assms(4) show ?thesis by simp
  next
    case (Printed t)
    show ?thesis
    proof (cases t)
      case None
      with Printed l assms(3) valid_configD(1) [OF assms(1)] show ?thesis
        by (intro exI [of _ "msg e"]) (simp add: format_message_def)
    next
      case (Some t')
      then have "length t' < BR_LOG_MAX_MSG_LEN cfg" using Printed assms(4) by simp
      with printed_message [OF assms(1) l this] Printed Some show ?thesis by simp
    qed
  qed
qed

text \<open>What the entry of a call contains.\<close>

definition entry_of_call :: "config \<Rightarrow> LogContext \<Rightarrow> Tls \<Rightarrow> log_call \<Rightarrow> u64 \<Rightarrow> LogEntry \<Rightarrow> bool" where
  "entry_of_call cfg ctx tls c seq e \<longleftrightarrow>
     timestamp_ns e = call_mono c \<and> wall_clock_ns e = call_wall c \<and> level e = call_level c \<and>
     file_path e = loc_file_path (call_loc c) \<and> file_name e = loc_file_name (call_loc c) \<and>
     function_name e = loc_function_name (call_loc c) \<and> pretty_function e = loc_pretty_function (call_loc c) \<and>
     line e = loc_line (call_loc c) \<and> column e = loc_column (call_loc c) \<and>
     sequence_id e = seq \<and> process_id e = call_pid c \<and>
     thread_id e = (if tls_thread_id_cached tls then tls_thread_id tls else ucast (call_tid c)) \<and>
     c_str (thread_name e) = c_str (tls_thread_name tls) \<and>
     map tag_text (entry_tags e) = take (BR_LOG_MAX_TAGS cfg) (ctx_tags ctx @ tls_texts tls) \<and>
     entry_msg e = message_text cfg (call_msg c)"

abbreviation call_entry :: "config \<Rightarrow> log_call \<Rightarrow> u64 \<Rightarrow> LogEntry" where
  "call_entry cfg c seq \<equiv> (zero_entry cfg)
            \<lparr>timestamp_ns := call_mono c, wall_clock_ns := call_wall c, level := call_level c,
             file_path := loc_file_path (call_loc c), file_name := loc_file_name (call_loc c),
             function_name := loc_function_name (call_loc c), pretty_function := loc_pretty_function (call_loc c),
             line := loc_line (call_loc c), column := loc_column (call_loc c), sequence_id := seq\<rparr>"

text \<open>The entry after the two calls into the context: the fields of the call, the thread's data and the tags.\<close>

lemma context_entry_ok:
  assumes "valid_config cfg" "ctx_wf cfg ctx" "tls_wf cfg tls" "wf_call c"
  obtains e1 tls1 e2 where "FillThreadInfo (call_pid c) (call_tid c) tls (call_entry cfg c seq) = Some (e1, tls1)"
    and "FillTags cfg ctx tls1 e1 = Some e2"
    and "wf_entry_head cfg e2" and "terminated (msg e2)" and "tls_wf cfg tls1" and "tls_texts tls1 = tls_texts tls"
    and "map tag_text (entry_tags e2) = take (BR_LOG_MAX_TAGS cfg) (ctx_tags ctx @ tls_texts tls)"
    and "process_id e2 = call_pid c"
    and "thread_id e2 = (if tls_thread_id_cached tls then tls_thread_id tls else ucast (call_tid c))"
    and "c_str (thread_name e2) = c_str (tls_thread_name tls)"
    and "e2 = (call_entry cfg c seq)\<lparr>process_id := process_id e2, thread_id := thread_id e2,
           thread_name := thread_name e2, tags := tags e2, tag_count := tag_count e2\<rparr>"
proof -
  let ?e0 = "call_entry cfg c seq"
  have h0: "wf_entry_head cfg ?e0"
    using wf_zero_entry [OF assms(1)] assms(4) by (simp add: wf_entry_def wf_entry_head_def wf_call_def)
  have t0: "terminated (msg ?e0)" using valid_configD(1) [OF assms(1)] by (simp add: zero_entry_def terminated_def)
  obtain e1 tls1 where 1: "FillThreadInfo (call_pid c) (call_tid c) tls ?e0 = Some (e1, tls1)" "wf_entry_head cfg e1" "tls_wf cfg tls1"
    "process_id e1 = call_pid c" "thread_id e1 = (if tls_thread_id_cached tls then tls_thread_id tls else ucast (call_tid c))"
    "c_str (thread_name e1) = c_str (tls_thread_name tls)" "tls_texts tls1 = tls_texts tls"
    "e1 = ?e0\<lparr>process_id := process_id e1, thread_id := thread_id e1, thread_name := thread_name e1\<rparr>"
    using FillThreadInfo_wf [OF assms(3) h0, of "call_pid c" "call_tid c"] by blast
  obtain e2 where 2: "FillTags cfg ctx tls1 e1 = Some e2" "wf_entry_head cfg e2"
    "entry_tags e2 = take (BR_LOG_MAX_TAGS cfg) (fv_list (global_tags ctx) @ fv_list (tls_tags tls1))"
    "e2 = e1\<lparr>tags := tags e2, tag_count := tag_count e2\<rparr>"
    using FillTags_wf [OF assms(1,2) 1(3,2)] by blast
  have f: "process_id e2 = process_id e1" "thread_id e2 = thread_id e1" "thread_name e2 = thread_name e1"
    by (subst 2(4), simp)+
  have e2: "e2 = ?e0\<lparr>process_id := process_id e2, thread_id := thread_id e2,
           thread_name := thread_name e2, tags := tags e2, tag_count := tag_count e2\<rparr>"
    unfolding f by (subst 2(4), subst 1(8), simp)
  have "msg e2 = msg ?e0" by (subst e2, simp)
  moreover have "map tag_text (fv_list (global_tags ctx) @ fv_list (tls_tags tls1)) = ctx_tags ctx @ tls_texts tls"
    using 1(7) by (simp add: ctx_tags_def tls_texts_def tag_texts_def)
  then have "map tag_text (entry_tags e2) = take (BR_LOG_MAX_TAGS cfg) (ctx_tags ctx @ tls_texts tls)"
    by (simp only: 2(3) take_map [symmetric])
  ultimately show ?thesis using t0 1(4,5,6) by (intro that [OF 1(1) 2(1,2) _ 1(3,7) _ _ _ _ e2]) (simp_all add: f)
qed

lemma build_entry_ok:
  assumes "valid_config cfg" "ctx_wf cfg ctx" "tls_wf cfg tls" "wf_call c" "message_fits cfg (call_msg c)"
  shows "\<exists>e tls'. build_entry cfg ctx c seq tls = Some (e, tls') \<and> wf_entry cfg e \<and> terminated (msg e) \<and>
    tls_wf cfg tls' \<and> tls_texts tls' = tls_texts tls \<and> entry_of_call cfg ctx tls c seq e"
proof -
  let ?text = "message_text cfg (call_msg c)" and ?e0 = "call_entry cfg c seq"
  obtain e1 tls1 e2 where 1: "FillThreadInfo (call_pid c) (call_tid c) tls ?e0 = Some (e1, tls1)"
    and 2: "FillTags cfg ctx tls1 e1 = Some e2" and h: "wf_entry_head cfg e2" and t: "terminated (msg e2)"
    and tls: "tls_wf cfg tls1" "tls_texts tls1 = tls_texts tls"
    and tags: "map tag_text (entry_tags e2) = take (BR_LOG_MAX_TAGS cfg) (ctx_tags ctx @ tls_texts tls)"
    and ids: "process_id e2 = call_pid c"
      "thread_id e2 = (if tls_thread_id_cached tls then tls_thread_id tls else ucast (call_tid c))"
      "c_str (thread_name e2) = c_str (tls_thread_name tls)"
    and e2: "e2 = ?e0\<lparr>process_id := process_id e2, thread_id := thread_id e2,
           thread_name := thread_name e2, tags := tags e2, tag_count := tag_count e2\<rparr>"
    by (rule context_entry_ok [OF assms(1-4)])
  from format_message_ok [OF assms(1) h t assms(5)] obtain b where
    b: "format_message cfg (call_msg c) e2 = Some (e2\<lparr>msg := b, msg_len := of_nat (length ?text)\<rparr>)"
    "length b = BR_LOG_MAX_MSG_LEN cfg" "terminated b" "take (length ?text) b = ?text"
    "length ?text < BR_LOG_MAX_MSG_LEN cfg" by blast
  define e3 where "e3 = e2\<lparr>msg := b, msg_len := of_nat (length ?text)\<rparr>"
  have n: "unat (msg_len e3) = length ?text"
    using b(5) valid_configD(2) [OF assms(1)] unfolding e3_def by (simp add: unat_of_nat_small)
  have f: "timestamp_ns e2 = timestamp_ns ?e0" "wall_clock_ns e2 = wall_clock_ns ?e0" "level e2 = level ?e0" "file_path e2 = file_path ?e0"
    "file_name e2 = file_name ?e0" "function_name e2 = function_name ?e0" "pretty_function e2 = pretty_function ?e0" "line e2 = line ?e0"
    "column e2 = column ?e0" "sequence_id e2 = sequence_id ?e0" by (subst e2, simp)+
  have "build_entry cfg ctx c seq tls = Some (e3, tls1)" using 1 2 b(1) by (simp add: build_entry_def e3_def)
  moreover have "wf_entry cfg e3" "terminated (msg e3)"
    using h b n by (simp_all add: wf_entry_def wf_entry_head_def) (simp_all add: e3_def)
  moreover have "entry_tags e3 = entry_tags e2" by (simp add: entry_tags_def e3_def)
  moreover have "entry_msg e3 = ?text" unfolding entry_msg_def n using b(4) by (simp add: e3_def)
  ultimately show ?thesis using tls ids tags f unfolding entry_of_call_def
    by (intro exI [of _ e3] exI [of _ tls1]) (simp add: e3_def)
qed

subsection \<open>A logging call\<close>

text \<open>Whether a call gets past the compile-time and the run-time level.\<close>

definition passes :: "nat \<Rightarrow> 's Logger \<Rightarrow> log_call \<Rightarrow> bool" where
  "passes active lg c \<longleftrightarrow> active \<le> level_value (call_level c) \<and> Logger_Level lg \<le> call_level c"

lemma BR_LOG_CALL_eq:
  "BR_LOG_CALL cfg active ctx c lg tls = (if passes active lg c then LogImpl cfg ctx c lg tls else Some (lg, tls))"
  by (simp add: BR_LOG_CALL_def passes_def)

text \<open>What a call site and its thread may supply.\<close>

definition good_call :: "config \<Rightarrow> LogContext \<Rightarrow> Tls \<Rightarrow> log_call \<Rightarrow> bool" where
  "good_call cfg ctx tls c \<longleftrightarrow> ctx_wf cfg ctx \<and> tls_wf cfg tls \<and> wf_call c \<and> message_fits cfg (call_msg c)"

lemma LogImpl_entry:
  assumes "valid_config cfg" "good_call cfg ctx tls c"
  shows "\<exists>e tls'. wf_entry cfg e \<and> terminated (msg e) \<and> tls_wf cfg tls' \<and> tls_texts tls' = tls_texts tls \<and>
    entry_of_call cfg ctx tls c (logger_sequence lg) e \<and>
    LogImpl cfg ctx c lg tls =
      do { (ok, r) \<leftarrow> TryPush (ring (backend lg)) e;
           Some (lg\<lparr>backend := (backend lg)\<lparr>ring := r\<rparr>, logger_sequence := logger_sequence lg + 1,
                    drop_count := (if ok then drop_count lg else drop_count lg + 1)\<rparr>, tls') }"
proof -
  obtain e tls' where "build_entry cfg ctx c (logger_sequence lg) tls = Some (e, tls')" "wf_entry cfg e" "terminated (msg e)"
    "tls_wf cfg tls'" "tls_texts tls' = tls_texts tls" "entry_of_call cfg ctx tls c (logger_sequence lg) e"
    using build_entry_ok [of cfg ctx tls c "logger_sequence lg"] assms by (auto simp: good_call_def)
  then show ?thesis
    by (intro exI [of _ e] exI [of _ tls']) (simp add: LogImpl_def backend_TryPush_def split_def Option.bind_assoc)
qed

subsection \<open>Histories of a logger\<close>

text \<open>
  \<open>logger_reach cfg env active ss w cs lg w'\<close>: from a fresh logger with the sinks \<open>ss\<close> in the world \<open>w\<close>,
  calls of any threads in any order lead to \<open>lg\<close> in the world \<open>w'\<close>, and \<open>cs\<close> are the logging calls that
  got past the level filters, each with the context and the thread state it saw.
\<close>

inductive logger_reach ::
  "config \<Rightarrow> 'w env \<Rightarrow> nat \<Rightarrow> 'w sink list \<Rightarrow> stdio \<times> 'w \<Rightarrow> (LogContext \<times> Tls \<times> log_call) list \<Rightarrow> 'w sink Logger \<Rightarrow> stdio \<times> 'w \<Rightarrow> bool"
  for cfg env active ss w where
  fresh: "lg = fold Logger_AddSink ss (Logger_init cfg) \<Longrightarrow> logger_reach cfg env active ss w [] lg w"
| log_call: "logger_reach cfg env active ss w cs lg w1 \<Longrightarrow> good_call cfg ctx tls c \<Longrightarrow>
    BR_LOG_CALL cfg active ctx c lg tls = Some (lg', tls') \<Longrightarrow>
    logger_reach cfg env active ss w (if passes active lg c then cs @ [(ctx, tls, c)] else cs) lg' w1"
| set_level: "logger_reach cfg env active ss w cs lg w1 \<Longrightarrow> logger_reach cfg env active ss w cs (Logger_SetLevel l lg) w1"
| drain: "logger_reach cfg env active ss w cs lg w1 \<Longrightarrow> Logger_Drain (log_sinks env) k lg w1 = Some (n, lg', w2) \<Longrightarrow>
    logger_reach cfg env active ss w cs lg' w2"
| start: "logger_reach cfg env active ss w cs lg w1 \<Longrightarrow> logger_reach cfg env active ss w cs (Logger_Start cfg lg) w1"

text \<open>The entries that calls make, numbered from \<open>n\<close>.\<close>

fun entries_of_calls :: "config \<Rightarrow> nat \<Rightarrow> (LogContext \<times> Tls \<times> log_call) list \<Rightarrow> LogEntry list \<Rightarrow> bool" where
  "entries_of_calls cfg n [] es \<longleftrightarrow> es = []"
| "entries_of_calls cfg n ((ctx, tls, c) # cs) es \<longleftrightarrow>
     (\<exists>e es'. es = e # es' \<and> entry_of_call cfg ctx tls c (of_nat n) e \<and> entries_of_calls cfg (Suc n) cs es')"

lemma entries_of_calls_append:
  "entries_of_calls cfg n cs es \<Longrightarrow> entry_of_call cfg ctx tls c (of_nat (n + length cs)) e \<Longrightarrow>
   entries_of_calls cfg n (cs @ [(ctx, tls, c)]) (es @ [e])"
  by (induction cs arbitrary: n es) (auto simp del: of_nat_add of_nat_Suc)

definition logger_inv where
  "logger_inv cfg env ss w cs lg w' \<longleftrightarrow> (\<exists>es acc. entries_of_calls cfg 0 cs es \<and> subseq acc es \<and>
     backend_reach cfg env ss w acc (backend lg) w' \<and> length acc \<le> length cs \<and>
     logger_sequence lg = of_nat (length cs) \<and> drop_count lg = of_nat (length cs - length acc))"

lemma logger_inv_log:
  assumes "valid_config cfg" "localtime_ok (fst (env_tz env))" "length (env_junk env) = 128"
    and "logger_inv cfg env ss w cs lg w1" "good_call cfg ctx tls c" "LogImpl cfg ctx c lg tls = Some (lg', tls')"
  shows "logger_inv cfg env ss w (cs @ [(ctx, tls, c)]) lg' w1"
proof -
  from assms(4) obtain es acc where i: "entries_of_calls cfg 0 cs es" "subseq acc es"
    "backend_reach cfg env ss w acc (backend lg) w1" "length acc \<le> length cs" "logger_sequence lg = of_nat (length cs)"
    "drop_count lg = of_nat (length cs - length acc)"
    by (auto simp: logger_inv_def)
  obtain e where e: "wf_entry cfg e" "terminated (msg e)" "entry_of_call cfg ctx tls c (of_nat (length cs)) e"
    "LogImpl cfg ctx c lg tls =
      do { (ok, r) \<leftarrow> TryPush (ring (backend lg)) e;
           Some (lg\<lparr>backend := (backend lg)\<lparr>ring := r\<rparr>, logger_sequence := logger_sequence lg + 1,
                    drop_count := (if ok then drop_count lg else drop_count lg + 1)\<rparr>, tls') }"
    using LogImpl_entry [OF assms(1,5), of lg] assms(6) i(5) by (auto split: Option.bind_splits)
  then obtain ok r where r: "TryPush (ring (backend lg)) e = Some (ok, r)"
    "lg' = lg\<lparr>backend := (backend lg)\<lparr>ring := r\<rparr>, logger_sequence := logger_sequence lg + 1,
                    drop_count := (if ok then drop_count lg else drop_count lg + 1)\<rparr>"
    using assms(6) by (auto split: Option.bind_splits)
  have "good_entry cfg env e" using e(1,2) assms(2,3) by (simp add: good_entry_def entry_ok_def)
  moreover have "backend_TryPush e (backend lg) = Some (ok, (backend lg)\<lparr>ring := r\<rparr>)" using r(1) by (simp add: backend_TryPush_def)
  ultimately have "backend_reach cfg env ss w (if ok then acc @ [e] else acc) (backend lg') w1"
    using backend_reach.push [OF i(3)] r(2) by simp
  moreover have "entries_of_calls cfg 0 (cs @ [(ctx, tls, c)]) (es @ [e])"
    using entries_of_calls_append [OF i(1)] e(3) by simp
  moreover have "subseq (if ok then acc @ [e] else acc) (es @ [e])" using i(2) by (auto intro: list_emb_append_mono)
  moreover have "drop_count lg' = of_nat (length (cs @ [(ctx, tls, c)]) - length (if ok then acc @ [e] else acc))"
    using r(2) i(4,6) by (simp add: Suc_diff_le)
  ultimately show ?thesis unfolding logger_inv_def using r(2) i(4,5)
    by (intro exI [of _ "es @ [e]"] exI [of _ "if ok then acc @ [e] else acc"]) simp
qed

lemma fold_Logger_AddSink: "fold Logger_AddSink ss lg = lg\<lparr>backend := fold backend_AddSink ss (backend lg)\<rparr>"
  by (induction ss arbitrary: lg) (simp_all add: Logger_AddSink_def)

lemma logger_reach_inv:
  assumes "logger_reach cfg env active ss w cs lg w'" "valid_config cfg" "localtime_ok (fst (env_tz env))"
    "length (env_junk env) = 128"
  shows "logger_inv cfg env ss w cs lg w'"
  using assms(1)
proof induction
  case (fresh lg)
  have "backend_reach cfg env ss w [] (fold backend_AddSink ss (LoggerBackend_init cfg)) w" by (rule backend_reach.fresh [OF refl])
  then show ?case unfolding fresh fold_Logger_AddSink logger_inv_def
    by (intro exI [of _ "[]"]) (simp add: Logger_init_def)
next
  case (log_call cs lg w1 ctx tls c lg' tls')
  with logger_inv_log [OF assms(2-4)] show ?case by (auto simp: BR_LOG_CALL_eq split: if_splits)
next
  case (set_level cs lg w1 l)
  then show ?case by (simp add: logger_inv_def Logger_SetLevel_def)
next
  case (drain cs lg w1 k n lg' w2)
  then obtain b where "Drain (log_sinks env) k (backend lg) w1 = Some (n, b, w2)" "lg' = lg\<lparr>backend := b\<rparr>"
    by (auto simp: Logger_Drain_def split: Option.bind_splits)
  then have "backend_reach cfg env ss w acc (backend lg') w2" if "backend_reach cfg env ss w acc (backend lg) w1" for acc
    using backend_reach.drain [OF that] by simp
  with drain.IH \<open>lg' = _\<close> show ?case unfolding logger_inv_def by auto
next
  case (start cs lg w1)
  then have "backend_reach cfg env ss w acc (backend (Logger_Start cfg lg)) w1" if "backend_reach cfg env ss w acc (backend lg) w1" for acc
    using that backend_reach.start [OF that] by (simp add: Logger_Start_def)
  moreover have "logger_sequence (Logger_Start cfg lg) = logger_sequence lg" "drop_count (Logger_Start cfg lg) = drop_count lg"
    by (simp_all add: Logger_Start_def)
  ultimately show ?case using start.IH unfolding logger_inv_def by metis
qed

subsection \<open>Call sites\<close>

text \<open>The calls \<open>cs\<close> made in turn by one thread through one call site, without and with rate limiting.\<close>

fun plain_calls where
  "plain_calls cfg active ctx [] lg tls = Some (lg, tls)"
| "plain_calls cfg active ctx (c # cs) lg tls =
     do { (lg', tls') \<leftarrow> BR_LOG_CALL cfg active ctx c lg tls; plain_calls cfg active ctx cs lg' tls' }"

fun every_n_calls where
  "every_n_calls n cfg active ctx [] cnt lg tls = Some (cnt, lg, tls)"
| "every_n_calls n cfg active ctx (c # cs) cnt lg tls =
     do { (cnt', lg', tls') \<leftarrow> LOG_EVERY_N n cfg active ctx c cnt lg tls; every_n_calls n cfg active ctx cs cnt' lg' tls' }"

fun once_calls where
  "once_calls cfg active ctx [] logged lg tls = Some (logged, lg, tls)"
| "once_calls cfg active ctx (c # cs) logged lg tls =
     do { (logged', lg', tls') \<leftarrow> LOG_ONCE cfg active ctx c logged lg tls; once_calls cfg active ctx cs logged' lg' tls' }"

lemma every_n_calls_from:
  assumes "0 < n" "n < 2 ^ 64"
  shows "i + length cs < 2 ^ 64 \<Longrightarrow>
    map_option snd (every_n_calls (of_nat n) cfg active ctx cs (of_nat i) (lg :: 's Logger) tls) =
    plain_calls cfg active ctx (nths cs {j. (i + j) mod n = 0}) lg tls"
proof (induction cs arbitrary: i lg tls)
  case Nil
  then show ?case by simp
next
  case (Cons c cs)
  have u: "unat (of_nat i :: u64) = i" "unat (of_nat n :: u64) = n"
    using Cons.prems assms(2) by (simp_all add: unat_of_nat_small)
  then have z: "(of_nat i :: u64) mod of_nat n = 0 \<longleftrightarrow> i mod n = 0" "(of_nat n :: u64) \<noteq> 0"
    using assms(1) by (simp_all add: word_unat_eq_iff unat_mod)
  have IH: "map_option snd (every_n_calls (of_nat n) cfg active ctx cs (of_nat i + 1) lg1 tls1) =
      plain_calls cfg active ctx (nths cs {j. (i + Suc j) mod n = 0}) lg1 tls1" for lg1 :: "'s Logger" and tls1
    using Cons.IH [of "Suc i" lg1 tls1] Cons.prems by (simp add: add.commute)
  show ?case
  proof (cases "i mod n = 0")
    case True
    then show ?thesis using z IH
      by (cases "BR_LOG_CALL cfg active ctx c lg tls") (auto simp: LOG_EVERY_N_def nths_Cons)
  next
    case False
    then show ?thesis using z IH by (simp add: LOG_EVERY_N_def nths_Cons)
  qed
qed

lemma once_calls_after: "once_calls cfg active ctx cs True lg tls = Some (True, lg, tls)"
  by (induction cs) (simp_all add: LOG_ONCE_def)

lemma logger_stop_delivers:
  assumes "logger_reach cfg env active ss w cs lg w'" and "valid_config cfg" and "list_all sink_inv ss"
    and "localtime_ok (fst (env_tz env))" and "length (env_junk env) = 128" and "started lg"
  shows "\<exists>es acc ss1 w1 lg'. entries_of_calls cfg 0 cs es \<and> subseq acc es \<and>
    DropCount lg = of_nat (length cs - length acc) \<and>
    dispatch_list (log_sinks env) acc ss w = Some (ss1, w1) \<and>
    Logger_Stop (log_sinks env) k idle lg w' = Some (lg', snd (flush_all (log_sinks env) ss1 w1)) \<and>
    sinks (backend lg') = fst (flush_all (log_sinks env) ss1 w1) \<and>
    ring_list (ring (backend lg')) = [] \<and> \<not> started lg' \<and>
    list_all (good_entry cfg env) acc"
proof -
  obtain es acc where i: "entries_of_calls cfg 0 cs es" "subseq acc es" "drop_count lg = of_nat (length cs - length acc)"
    "backend_reach cfg env ss w acc (backend lg) w'"
    using logger_reach_inv [OF assms(1,2,4,5)] by (auto simp: logger_inv_def)
  from i(4) have "delivery_inv cfg env ss w acc (backend lg) w'" by (rule backend_reach_inv [OF _ assms(2,3)])
  then have good: "list_all (good_entry cfg env) acc" by (simp add: delivery_inv_def)
  from \<open>delivery_inv cfg env ss w acc (backend lg) w'\<close> obtain ss1 w1 b where
    s: "dispatch_list (log_sinks env) acc ss w = Some (ss1, w1)"
      "backend_Stop (log_sinks env) k idle (backend lg) w' = Some (b, snd (flush_all (log_sinks env) ss1 w1))"
      "sinks b = fst (flush_all (log_sinks env) ss1 w1)" "ring_list (ring b) = []"
    using delivery_stop [of cfg env ss w acc "backend lg" w' k idle] by blast
  have "Logger_Stop (log_sinks env) k idle lg w' =
      Some (lg\<lparr>backend := b, started := False\<rparr>, snd (flush_all (log_sinks env) ss1 w1))"
    using s(2) assms(6) by (simp add: Logger_Stop_def)
  with i s good show ?thesis unfolding DropCount_def
    by (intro exI [of _ es] exI [of _ acc] exI [of _ ss1] exI [of _ w1] exI [of _ "lg\<lparr>backend := b, started := False\<rparr>"]) simp
qed

subsection \<open>A concrete call\<close>

definition demo_call :: log_call where
  "demo_call = \<lparr>call_level = INFO,
     call_loc = \<lparr>loc_file_path = None, loc_file_name = None, loc_function_name = None, loc_pretty_function = None, loc_line = 7, loc_column = 0\<rparr>,
     call_msg = PlainFmt (c_lit ''hi''), call_mono = 0, call_wall = 0, call_pid = 1, call_tid = 2\<rparr>"

definition demo_ctx :: LogContext where
  "demo_ctx = LogContext_init (platform_config False)"

definition demo_tls :: Tls where
  "demo_tls = Tls_init (platform_config False)"

definition demo_logger :: "mem_os sink list \<Rightarrow> mem_os sink Logger" where
  "demo_logger ss = Logger_Start (platform_config False) (fold Logger_AddSink ss (Logger_init (platform_config False)))"

lemma demo_call_good: "good_call (platform_config False) demo_ctx demo_tls demo_call"
  using ctx_init_wf [OF valid_platform_config, of False]
  by (simp add: good_call_def demo_ctx_def demo_tls_def wf_call_def demo_call_def wf_ptr_def terminated_c_lit)

lemma demo_logger_ring:
  "ring_wf (ring (backend (demo_logger ss)))" "ring_list (ring (backend (demo_logger ss))) = []" "Capacity (ring (backend (demo_logger ss))) = 8192"
  using ring_wf_fresh [OF valid_platform_config, of False]
  by (simp_all add: demo_logger_def Logger_Start_def backend_Start_def fold_Logger_AddSink fold_AddSink Logger_init_def)
     (simp_all add: LoggerBackend_init_def platform_config_def)

lemma demo_logger_started: "started (demo_logger ss)" "passes 0 (demo_logger ss) demo_call"
  by (simp_all add: demo_logger_def Logger_Start_def fold_Logger_AddSink Logger_init_def Logger_Level_def passes_def demo_call_def)

lemma demo_log:
  "\<exists>lg tls'. BR_LOG_CALL (platform_config False) 0 demo_ctx demo_call (demo_logger ss) demo_tls = Some (lg, tls') \<and> started lg"
proof -
  let ?lg = "demo_logger ss"
  obtain e tls' where "LogImpl (platform_config False) demo_ctx demo_call ?lg demo_tls =
      do { (ok, r) \<leftarrow> TryPush (ring (backend ?lg)) e;
           Some (?lg\<lparr>backend := (backend ?lg)\<lparr>ring := r\<rparr>, logger_sequence := logger_sequence ?lg + 1,
                    drop_count := (if ok then drop_count ?lg else drop_count ?lg + 1)\<rparr>, tls') }"
    using LogImpl_entry [OF valid_platform_config demo_call_good, of ?lg] by blast
  moreover obtain r where "TryPush (ring (backend ?lg)) e = Some (True, r)"
    using rbq.push_room [OF demo_logger_ring(1), of ss e] demo_logger_ring by auto
  ultimately show ?thesis using demo_logger_started by (simp add: BR_LOG_CALL_eq)
qed

lemma demo_logger_reach:
  "\<exists>lg. logger_reach (platform_config False) demo_env 0 ss w [(demo_ctx, demo_tls, demo_call)] lg w \<and> started lg"
proof -
  have "logger_reach (platform_config False) demo_env 0 ss w [] (demo_logger ss) w"
    unfolding demo_logger_def by (intro logger_reach.start logger_reach.fresh refl)
  from logger_reach.log_call [OF this demo_call_good] demo_log [of ss] demo_logger_started(2) [of ss] show ?thesis by force
qed

lemma demo_env_ok: "localtime_ok (fst (env_tz demo_env))" "length (env_junk demo_env) = 128"
  by (simp_all add: demo_env_def localtime_ok_def)

subsection \<open>Properties\<close>

text \<open>
  C1: end to end. Take any history of a started logger: calls of any threads in any order, level changes, drains.
  The calls that got past the level filters make entries numbered 0, 1, 2, ... with the content of the call, its
  context and its thread; those that were queued are a subsequence of them, and the drop counter counts the
  others. \<open>Stop\<close> returns, and every sink has then been given exactly the queued entries, in their order, and
  has been flushed.
\<close>

theorem logger_end_to_end:
  assumes "logger_reach cfg env active ss w cs lg w'" and "valid_config cfg" and "list_all sink_inv ss"
    and "localtime_ok (fst (env_tz env))" and "length (env_junk env) = 128" and "started lg"
  shows "\<exists>es acc ss1 w1 lg'. entries_of_calls cfg 0 cs es \<and> subseq acc es \<and>
    DropCount lg = of_nat (length cs - length acc) \<and>
    dispatch_list (log_sinks env) acc ss w = Some (ss1, w1) \<and>
    Logger_Stop (log_sinks env) k idle lg w' = Some (lg', snd (flush_all (log_sinks env) ss1 w1)) \<and>
    sinks (backend lg') = fst (flush_all (log_sinks env) ss1 w1) \<and>
    ring_list (ring (backend lg')) = [] \<and> \<not> started lg'"
  using logger_stop_delivers [OF assms, of k idle] by blast

theorem logger_end_to_end_witness:
  "\<exists>lg es acc lg' w'. logger_reach (platform_config False) demo_env 0 [demo_memory] demo_world [(demo_ctx, demo_tls, demo_call)] lg demo_world \<and>
     entries_of_calls (platform_config False) 0 [(demo_ctx, demo_tls, demo_call)] es \<and> subseq acc es \<and>
     Logger_Stop (log_sinks demo_env) 3 0 lg demo_world = Some (lg', w') \<and> ring_list (ring (backend lg')) = []"
  using demo_logger_reach [of "[demo_memory]" demo_world]
    logger_end_to_end [OF _ valid_platform_config demo_memory_inv demo_env_ok, of False 0 demo_world "[(demo_ctx, demo_tls, demo_call)]"]
  by metis

text \<open>
  C25: destroying the logger loses nothing, whether it was started or not. In every history the destructor
  returns, and by then every queued entry has been handed to every sink in order; the sinks are flushed, once
  more if the logger was started, and then destroyed.
\<close>

theorem logger_destroy_delivers_all:
  assumes "logger_reach cfg env active ss w cs lg w'" and "valid_config cfg" and "list_all sink_inv ss"
    and "localtime_ok (fst (env_tz env))" and "length (env_junk env) = 128"
  shows "\<exists>es acc st. entries_of_calls cfg 0 cs es \<and> subseq acc es \<and> DropCount lg = of_nat (length cs - length acc) \<and>
    dispatch_list (log_sinks env) acc ss w = Some st \<and>
    Logger_destroy env k idle lg w' =
      Some (case ((\<lambda>(ss, w). flush_all (log_sinks env) ss w) ^^ (if started lg then 2 else 1)) st of
              (ss', w'') \<Rightarrow> fold (ILogSink_destroy env) ss' w'')"
proof -
  let ?so = "log_sinks env"
  obtain es acc where i: "entries_of_calls cfg 0 cs es" "subseq acc es" "drop_count lg = of_nat (length cs - length acc)"
    "backend_reach cfg env ss w acc (backend lg) w'"
    using logger_reach_inv [OF assms(1,2,4,5)] by (auto simp: logger_inv_def)
  obtain ss1 w1 b where s: "dispatch_list ?so acc ss w = Some (ss1, w1)"
    "backend_Stop ?so k idle (backend lg) w' = Some (b, snd (flush_all ?so ss1 w1))"
    "sinks b = fst (flush_all ?so ss1 w1)" "ring_list (ring b) = []" "ring_wf (ring b)" "list_all sink_inv (sinks b)"
    using delivery_stop [OF backend_reach_inv [OF i(4) assms(2,3)], of k idle] by blast
  let ?v = "snd (flush_all ?so ss1 w1)"
  obtain b' where b': "backend_Stop ?so k idle b ?v = Some (b', snd (flush_all ?so (sinks b) ?v))"
    "sinks b' = fst (flush_all ?so (sinks b) ?v)"
    using stop_again [OF s(5,4,6), of env k idle ?v] by blast
  have "Logger_destroy env k idle lg w' =
      Some (case ((\<lambda>(ss, w). flush_all ?so ss w) ^^ (if started lg then 2 else 1)) (ss1, w1) of
              (ss', w'') \<Rightarrow> fold (ILogSink_destroy env) ss' w'')"
    using s(2,3) b' by (simp add: Logger_destroy_def Logger_Stop_def numeral_2_eq_2 split_def)
  with i s(1) show ?thesis unfolding DropCount_def by blast
qed

theorem logger_destroy_delivers_all_witness:
  "\<exists>lg es acc w'. logger_reach (platform_config False) demo_env 0 [demo_memory] demo_world [(demo_ctx, demo_tls, demo_call)] lg demo_world \<and>
     entries_of_calls (platform_config False) 0 [(demo_ctx, demo_tls, demo_call)] es \<and> subseq acc es \<and>
     Logger_destroy demo_env 3 0 lg demo_world = Some w'"
  using demo_logger_reach [of "[demo_memory]" demo_world]
    logger_destroy_delivers_all [OF _ valid_platform_config demo_memory_inv demo_env_ok, of False 0 demo_world "[(demo_ctx, demo_tls, demo_call)]"]
  by metis

text \<open>
  C19: what one call of \<open>LogImpl\<close> does. With room it queues one entry with the content of the call and the next
  sequence number. On a full ring it counts a drop and changes nothing else, except that it does not return in
  the positions after the write position has wrapped. The thread keeps its tags.
\<close>

theorem LogImpl_every_branch:
  assumes "valid_config cfg" and "good_call cfg ctx tls c" and "ring_wf (ring (backend lg))"
  shows "if length (ring_list (ring (backend lg))) < Capacity (ring (backend lg))
    then \<exists>e r tls'. LogImpl cfg ctx c lg tls =
        Some (lg\<lparr>backend := (backend lg)\<lparr>ring := r\<rparr>, logger_sequence := logger_sequence lg + 1\<rparr>, tls') \<and>
      ring_wf r \<and> ring_list r = ring_list (ring (backend lg)) @ [e] \<and>
      entry_of_call cfg ctx tls c (logger_sequence lg) e \<and> wf_entry cfg e \<and> tls_texts tls' = tls_texts tls
    else if Capacity (ring (backend lg)) - 1 \<le> unat (write_pos (ring (backend lg)))
    then \<exists>tls'. LogImpl cfg ctx c lg tls =
        Some (lg\<lparr>logger_sequence := logger_sequence lg + 1, drop_count := drop_count lg + 1\<rparr>, tls') \<and>
      tls_texts tls' = tls_texts tls
    else LogImpl cfg ctx c lg tls = None"
proof -
  let ?r = "ring (backend lg)"
  obtain e tls' where e: "wf_entry cfg e" "tls_texts tls' = tls_texts tls" "entry_of_call cfg ctx tls c (logger_sequence lg) e"
    "LogImpl cfg ctx c lg tls =
      do { (ok, r) \<leftarrow> TryPush ?r e;
           Some (lg\<lparr>backend := (backend lg)\<lparr>ring := r\<rparr>, logger_sequence := logger_sequence lg + 1,
                    drop_count := (if ok then drop_count lg else drop_count lg + 1)\<rparr>, tls') }"
    using LogImpl_entry [OF assms(1,2), of lg] by blast
  consider (room) "ring_size ?r < Capacity ?r" | (full) "ring_size ?r = Capacity ?r" "Capacity ?r - 1 \<le> unat (write_pos ?r)"
    | (wrapped) "ring_size ?r = Capacity ?r" "unat (write_pos ?r) < Capacity ?r - 1"
    using ring_wfD(2) [OF assms(3)] by linarith
  then show ?thesis
  proof cases
    case room
    with TryPush_room [OF assms(3), of e] obtain r where
      "TryPush ?r e = Some (True, r)" "ring_wf r" "ring_list r = ring_list ?r @ [e]" by blast
    with e room show ?thesis by auto
  next
    case full
    with TryPush_full [OF assms(3), of e] e show ?thesis by auto
  next
    case wrapped
    with TryPush_full_wrapped [OF assms(3), of e] e show ?thesis by auto
  qed
qed

theorem LogImpl_every_branch_witness:
  "\<exists>lg' tls'. LogImpl (platform_config False) demo_ctx demo_call (demo_logger []) demo_tls = Some (lg', tls') \<and>
     (\<exists>e. ring_list (ring (backend lg')) = [e])"
  using LogImpl_every_branch [OF valid_platform_config demo_call_good demo_logger_ring(1) [of "[]"]] demo_logger_ring(2,3) [of "[]"] by auto

text \<open>
  Rate limiting. \<open>k\<close> calls through a \<open>LOG_EVERY_N\<close> call site have the effect of logging the calls with the
  numbers 0, n, 2n, ... and no others, as long as the 64-bit counter does not wrap.
\<close>

lemma LOG_EVERY_N_correct:
  assumes "0 < n" and "n < 2 ^ 64" and "length cs < 2 ^ 64"
  shows "map_option snd (every_n_calls (of_nat n) cfg active ctx cs 0 lg tls) =
    plain_calls cfg active ctx (nths cs {i. i mod n = 0}) lg tls"
  using every_n_calls_from [OF assms(1,2), of 0 cs] assms(3) by simp

lemma LOG_EVERY_N_correct_witness:
  "map_option snd (every_n_calls 2 (platform_config False) 0 demo_ctx [demo_call, demo_call, demo_call] 0 (demo_logger []) demo_tls) =
   plain_calls (platform_config False) 0 demo_ctx [demo_call, demo_call] (demo_logger []) demo_tls"
  using LOG_EVERY_N_correct [of 2 "[demo_call, demo_call, demo_call]" "platform_config False" 0 demo_ctx "demo_logger []" demo_tls]
  by (simp add: nths_Cons)

text \<open>The process name and the application version of the context reach no entry.\<close>

lemma names_not_in_entries:
  "LogImpl cfg (ctx\<lparr>process_name := p, app_version := a\<rparr>) c lg tls = LogImpl cfg ctx c lg tls"
  by (simp add: LogImpl_def build_entry_def FillTags_def)

text \<open>A \<open>LOG_ONCE\<close> call site logs its first call and no other.\<close>

lemma LOG_ONCE_correct:
  "map_option snd (once_calls cfg active ctx cs False lg tls) = plain_calls cfg active ctx (take 1 cs) lg tls"
  by (cases cs; cases "BR_LOG_CALL cfg active ctx (hd cs) lg tls")
     (auto simp: LOG_ONCE_def once_calls_after)

text \<open>
  C37: an overlong formatted message. The copied message of a call without arguments is cut to its array, but
  after \<open>snprintf\<close> the length field is the length of the whole text, also when only a part of it was stored.
  The entry then claims more bytes than its array has, and a formatter that prints the message reads past it.
\<close>

theorem overlong_message_over_read:
  assumes "BR_LOG_MAX_MSG_LEN cfg < length t" and "length t < 2 ^ 16" and "BR_LOG_MAX_MSG_LEN cfg < 2047"
    and "valid_config cfg" and "length (msg e) = BR_LOG_MAX_MSG_LEN cfg" and "length buf = 2048"
  shows "\<exists>e'. format_message cfg (Printed (Some t)) e = Some e' \<and> length (msg e') < unat (msg_len e') \<and>
    PatternFormatter_Format lt junk (PatternFormatter_init ''%m'' False) e' buf 2048 = None"
proof -
  obtain b where b: "snprintf (msg e) (BR_LOG_MAX_MSG_LEN cfg) t = Some (b, length t)" "length b = BR_LOG_MAX_MSG_LEN cfg"
    using snprintf_holds [of "BR_LOG_MAX_MSG_LEN cfg" "msg e" t] assms valid_configD(1) [OF assms(4)] by (auto simp: holds_text_def)
  define e' where "e' = e\<lparr>msg := b, msg_len := of_nat (length t)\<rparr>"
  have n: "unat (msg_len e') = length t" using assms(2) by (simp add: e'_def unat_of_nat_small)
  have "format_message cfg (Printed (Some t)) e = Some e'" using b(1) assms(1) by (auto simp: format_message_def e'_def)
  moreover have "append_data 2048 (msg e') (unat (msg_len e')) (buf', 0) = None" for buf'
    using n b(2) assms(1,3) by (cases "t = []") (simp_all add: append_data_def memcpy_def e'_def)
  then have "PatternFormatter_Format lt junk (PatternFormatter_init ''%m'' False) e' buf 2048 = None"
    using assms(6)
    by (simp add: PatternFormatter_Format_def PatternFormatter_init_def CompilePattern_def placeholder_def
        flush_literal_def format_op_def store_byte_def)
  ultimately show ?thesis using n b(2) assms(1) by (intro exI [of _ e']) (simp add: e'_def)
qed

theorem overlong_message_over_read_witness:
  "\<exists>e'. format_message (platform_config False) (Printed (Some (replicate 400 CHR ''x''))) (zero_entry (platform_config False)) = Some e' \<and>
     length (msg e') < unat (msg_len e')"
  using overlong_message_over_read [OF _ _ _ valid_platform_config, of False "replicate 400 CHR ''x''" "zero_entry (platform_config False)"
      "replicate 2048 NUL"]
  by (simp add: platform_config_def zero_entry_def) blast

text \<open>
  C38: the build with the fmt library. A text that fits its array is stored whole with its terminator; from
  \<open>BR_LOG_MAX_MSG_LEN\<close> characters on, up to the range of the 16-bit length, the terminator is written outside
  the array.
\<close>

theorem fmtlib_message_every_length:
  assumes "valid_config cfg" and "length (msg e) = BR_LOG_MAX_MSG_LEN cfg" and "length t < 2 ^ 16"
  shows "if length t < BR_LOG_MAX_MSG_LEN cfg
    then \<exists>e'. format_message_fmtlib cfg t e = Some e' \<and> entry_msg e' = t \<and> msg e' ! length t = NUL
    else format_message_fmtlib cfg t e = None"
  using assms valid_configD(1,2) [OF assms(1)]
  by (auto simp: format_message_fmtlib_def memcpy_def store_byte_def unat_of_nat_small Let_def entry_msg_def)

theorem fmtlib_message_every_length_witness:
  "format_message_fmtlib (platform_config True) (replicate 200 CHR ''x'') (zero_entry (platform_config True)) = None"
  using fmtlib_message_every_length [OF valid_platform_config, of "zero_entry (platform_config True)" True "replicate 200 CHR ''x''"]
  by (simp add: platform_config_def zero_entry_def)

end
