(* ===== verification/Ros2_Bridge.thy ===== *)
theory Ros2_Bridge
  imports Logger
begin

text \<open>
  The connection to ROS 2: the tags that describe the node (\<open>ros2_context.cpp\<close>), the set-up and tear-down of
  the logger for a node (\<open>ros2_bridge.hpp\<close>, \<open>ros2_bridge.cpp\<close>) and the tags of a callback
  (\<open>ros2_macros.hpp\<close>). What the ROS libraries and the system report about the node and the process is the
  record \<open>node\<close>; \<open>node_exe\<close> is the target of the link \<open>/proc/self/exe\<close>, \<open>None\<close> when it cannot be read and
  on systems without it.
\<close>

subsection \<open>State and operations\<close>

record node =
  node_name :: bytes
  node_namespace :: bytes
  node_domain_id :: u64
  node_package :: bytes
  node_exe :: "string option"
  node_rmw :: bytes
  node_logger :: string

record BridgeConfig =
  enable_ros2_sink :: bool
  enable_console :: bool
  enable_file :: bool
  bridge_file_path :: string
  bridge_max_file_size :: nat
  bridge_max_files :: nat
  console_pattern :: string

definition BridgeConfig_default :: BridgeConfig where
  "BridgeConfig_default =
     \<lparr>enable_ros2_sink = True, enable_console = True, enable_file = False,
      bridge_file_path = ''/tmp/robot_logs/'', bridge_max_file_size = 50 * 1024 * 1024, bridge_max_files = 5,
      console_pattern = ''[%D %T%e] [%C%L%R] [%g] [%f:%#::%n] %m''\<rparr>"

text \<open>The loop over \<open>exe_path\<close>: \<open>p\<close> runs to the terminator, \<open>name\<close> trails it.\<close>

fun exe_name_loop :: "bytes \<Rightarrow> bytes \<Rightarrow> bytes option" where
  "exe_name_loop name [] = None"
| "exe_name_loop name (c # p) =
     (if c = NUL then Some name
      else if c = CHR ''/'' then exe_name_loop p p
      else exe_name_loop name p)"

text \<open>The value of the tag \<open>ros.executable\<close>. \<open>readlink\<close> stores at most 255 bytes and no terminator.\<close>

definition exe_name :: "string option \<Rightarrow> bytes option" where
  "exe_name link = (case link of
     None \<Rightarrow> Some (c_lit ''unknown'')
   | Some target \<Rightarrow>
       let len = min (length target) 255 in
       do { exe_path \<leftarrow> memcpy (replicate 256 NUL) 0 target len;
            if 0 < len
            then do { exe_path1 \<leftarrow> store_byte exe_path len NUL; exe_name_loop exe_path1 exe_path1 }
            else Some (c_lit ''unknown'') })"

definition ROS2ContextProvider :: "config \<Rightarrow> node \<Rightarrow> LogContext \<Rightarrow> LogContext option" where
  "ROS2ContextProvider cfg nd ctx0 =
     do { ctx1 \<leftarrow> SetGlobalTag cfg (Some (c_lit ''ros.node'')) (Some (node_name nd)) ctx0;
          ctx2 \<leftarrow> SetGlobalTag cfg (Some (c_lit ''ros.namespace'')) (Some (node_namespace nd)) ctx1;
          (domain_buf, _) \<leftarrow> snprintf (replicate 16 NUL) 16 (dec_digits (unat (node_domain_id nd)));
          ctx3 \<leftarrow> SetGlobalTag cfg (Some (c_lit ''ros.domain_id'')) (Some domain_buf) ctx2;
          ctx4 \<leftarrow> SetGlobalTag cfg (Some (c_lit ''ros.package'')) (Some (node_package nd)) ctx3;
          name \<leftarrow> exe_name (node_exe nd);
          ctx5 \<leftarrow> SetGlobalTag cfg (Some (c_lit ''ros.executable'')) (Some name) ctx4;
          SetGlobalTag cfg (Some (c_lit ''ros.rmw'')) (Some (node_rmw nd)) ctx5 }"

text \<open>
  \<open>init\<close>. \<open>fbuf\<close> is what the line buffers of the new sinks contain, \<open>out_tty\<close> and \<open>err_tty\<close> what \<open>isatty\<close>
  reports for the standard streams. Each new sink is moved into the logger at once.
\<close>

definition add_if :: "bool \<Rightarrow> 's \<Rightarrow> 's Logger \<Rightarrow> 's Logger" where
  "add_if enabled s lg = (if enabled then Logger_AddSink s lg else lg)"

definition ros2_init ::
  "config \<Rightarrow> 'w posix \<Rightarrow> bytes \<Rightarrow> bool \<Rightarrow> bool \<Rightarrow> node \<Rightarrow> BridgeConfig \<Rightarrow> LogContext \<Rightarrow> 'w sink Logger \<Rightarrow> 'w \<Rightarrow>
   (LogContext \<times> 'w sink Logger \<times> 'w) option" where
  "ros2_init cfg px fbuf out_tty err_tty nd config ctx lg w =
     do { ctx1 \<leftarrow> ROS2ContextProvider cfg nd ctx;
          let lg1 = add_if (enable_ros2_sink config) (ROS2 (ROS2Sink_init fbuf (node_logger nd))) lg;
              lg2 = add_if (enable_console config)
                      (Console (SetFormatter (Pattern (PatternFormatter_init (console_pattern config) True))
                        (ConsoleSink_init fbuf out_tty err_tty None))) lg1;
              (lg3, w1) =
                (if enable_file config
                 then let log_path = bridge_file_path config @ c_str (node_name nd) @ ''.log'';
                          (s, w') = RotatingFileSink_init px fbuf log_path (bridge_max_file_size config) (bridge_max_files config) w
                      in (Logger_AddSink (Rotating s) lg2, w')
                 else (lg2, w))
          in Some (ctx1, Logger_Start cfg lg3, w1) }"

definition ros2_shutdown ::
  "('s, 'w) sink_ops \<Rightarrow> nat \<Rightarrow> u32 \<Rightarrow> 's Logger \<Rightarrow> 'w \<Rightarrow> ('s Logger \<times> 'w) option" where
  "ros2_shutdown so k idle lg w = Logger_Stop so k idle lg w"

text \<open>A callback body under one of the callback macros: two scoped tags, popped in reverse order.\<close>

definition callback_scope :: "string \<Rightarrow> string \<Rightarrow> bytes \<Rightarrow> scope list \<Rightarrow> scope" where
  "callback_scope key cb_type name body = Scope (c_lit key) name [Scope (c_lit ''ros.cb_type'') (c_lit cb_type) body]"

definition LOG_SUB_CALLBACK :: "bytes \<Rightarrow> scope list \<Rightarrow> scope" where
  "LOG_SUB_CALLBACK = callback_scope ''ros.topic'' ''subscription''"

definition LOG_SRV_CALLBACK :: "bytes \<Rightarrow> scope list \<Rightarrow> scope" where
  "LOG_SRV_CALLBACK = callback_scope ''ros.service'' ''service''"

definition LOG_TIMER_CALLBACK :: "bytes \<Rightarrow> scope list \<Rightarrow> scope" where
  "LOG_TIMER_CALLBACK = callback_scope ''ros.timer'' ''timer''"

definition LOG_ACTION_CALLBACK :: "bytes \<Rightarrow> scope list \<Rightarrow> scope" where
  "LOG_ACTION_CALLBACK = callback_scope ''ros.action'' ''action''"

subsection \<open>The executable's name\<close>

definition after_slash :: "string \<Rightarrow> string" where
  "after_slash s = rev (takeWhile (\<lambda>c. c \<noteq> CHR ''/'') (rev s))"

lemma after_slash_Cons:
  "after_slash (c # s) = (if CHR ''/'' \<in> set s \<or> c = CHR ''/'' then after_slash s else c # s)"
  by (auto simp: after_slash_def takeWhile_append takeWhile_eq_all_conv [THEN iffD2])

lemma after_slash_id: "CHR ''/'' \<notin> set s \<Longrightarrow> after_slash s = s"
  by (induction s) (simp add: after_slash_def, auto simp: after_slash_Cons)

lemma exe_name_loop_correct:
  "terminated p \<Longrightarrow> \<exists>r. exe_name_loop name p = Some r \<and>
     (if CHR ''/'' \<in> set (c_str p) then terminated r \<and> c_str r = after_slash (c_str p) else r = name)"
proof (induction p arbitrary: name)
  case Nil
  then show ?case by (simp add: terminated_def)
next
  case (Cons c p)
  show ?case
  proof (cases "c = NUL")
    case True
    then show ?thesis by (simp add: c_str_Cons)
  next
    case False
    with Cons.prems have t: "terminated p" by simp
    from Cons.IH [OF t, of "if c = CHR ''/'' then p else name"] False t after_slash_id [of "c_str p"] show ?thesis
      by (auto simp: c_str_Cons after_slash_Cons split: if_splits)
  qed
qed

definition exe_text :: "string option \<Rightarrow> string" where
  "exe_text link = (case link of
     Some target \<Rightarrow> if target = [] then ''unknown'' else after_slash (c_str (take 255 target @ [NUL]))
   | None \<Rightarrow> ''unknown'')"

lemma take_min_255: "take (min (length t) 255) t = take 255 t"
  by (simp add: min_def)

lemma exe_name_correct: "\<exists>r. exe_name link = Some r \<and> terminated r \<and> c_str r = exe_text link"
proof (cases "\<exists>t. link = Some t \<and> t \<noteq> []")
  case False
  then show ?thesis
    by (auto simp: exe_name_def exe_text_def memcpy_def c_str_c_lit split: option.split)
next
  case True
  then obtain t where t: "link = Some t" "t \<noteq> []" by blast
  define len where "len = min (length t) 255"
  have pos: "0 < len" using t(2) by (simp add: len_def)
  define b where "b = take len t @ NUL # replicate (255 - len) NUL"
  have "replicate (256 - len) NUL = NUL # replicate (255 - len) NUL"
    by (simp add: len_def replicate_Suc [symmetric] Suc_diff_le del: replicate_Suc)
  then have m: "memcpy (replicate 256 NUL) 0 t len = Some b" by (simp add: memcpy_def len_def b_def)
  have "store_byte b len NUL = Some b" by (simp add: store_byte_def b_def len_def min_def list_update_append)
  with m t have e: "exe_name link = exe_name_loop b b"
    by (simp add: exe_name_def Let_def len_def [symmetric] pos)
  have b: "terminated b" "c_str b = c_str (take 255 t @ [NUL])"
    by (simp_all add: b_def terminated_def len_def take_min_255)
  from exe_name_loop_correct [OF b(1), of b] b after_slash_id [of "c_str b"] show ?thesis
    unfolding e by (auto simp: exe_text_def t split: if_splits)
qed

subsection \<open>The node's tags\<close>

text \<open>Setting several tags one after the other.\<close>

fun set_tags :: "config \<Rightarrow> (string \<times> bytes) list \<Rightarrow> LogContext \<Rightarrow> LogContext option" where
  "set_tags cfg [] ctx = Some ctx"
| "set_tags cfg ((k, v) # kvs) ctx = do { ctx' \<leftarrow> SetGlobalTag cfg (Some (c_lit k)) (Some v) ctx; set_tags cfg kvs ctx' }"

lemma set_tags_eqs:
  "set_tags cfg [] = Some"
  "set_tags cfg ((k, v) # kvs) = (\<lambda>ctx. do { ctx' \<leftarrow> SetGlobalTag cfg (Some (c_lit k)) (Some v) ctx; set_tags cfg kvs ctx' })"
  by (simp_all add: fun_eq_iff)

lemma set_tags_map:
  "valid_config cfg \<Longrightarrow> ctx_wf cfg ctx \<Longrightarrow> distinct (map fst (ctx_tags ctx)) \<Longrightarrow>
   list_all (\<lambda>(k, v). NUL \<notin> set k \<and> length k < BR_LOG_MAX_TAG_KEY_LEN cfg \<and> terminated v) kvs \<Longrightarrow>
   length (ctx_tags ctx) + length kvs \<le> 16 \<Longrightarrow>
   \<exists>ctx'. set_tags cfg kvs ctx = Some ctx' \<and> ctx_wf cfg ctx' \<and> distinct (map fst (ctx_tags ctx')) \<and>
     map_of (ctx_tags ctx') = (map_of (ctx_tags ctx))(map fst kvs [\<mapsto>] map (\<lambda>kv. stored_value cfg (snd kv)) kvs)"
proof (induction kvs arbitrary: ctx)
  case Nil
  then show ?case by simp
next
  case (Cons kv kvs)
  obtain k v where kv: "kv = (k, v)" by force
  with Cons.prems(4) have k: "c_str (c_lit k) = k" "length k < BR_LOG_MAX_TAG_KEY_LEN cfg" "terminated v"
    by (auto simp: c_str_c_lit)
  from SetGlobalTag_map [OF Cons.prems(1,2) terminated_c_lit k(3), of k] k Cons.prems(3,5) obtain ctx1 where
    c: "SetGlobalTag cfg (Some (c_lit k)) (Some v) ctx = Some ctx1" "ctx_wf cfg ctx1" "length (ctx_tags ctx1) \<le> Suc (length (ctx_tags ctx))"
      "distinct (map fst (ctx_tags ctx1))" "map_of (ctx_tags ctx1) = (map_of (ctx_tags ctx))(k \<mapsto> stored_value cfg v)"
    by auto
  have "list_all (\<lambda>(k, v). NUL \<notin> set k \<and> length k < BR_LOG_MAX_TAG_KEY_LEN cfg \<and> terminated v) kvs"
    "length (ctx_tags ctx1) + length kvs \<le> 16" using Cons.prems(4,5) c(3) by simp_all
  from Cons.IH [OF Cons.prems(1) c(2,4) this] obtain ctx' where
    "set_tags cfg kvs ctx1 = Some ctx'" "ctx_wf cfg ctx'" "distinct (map fst (ctx_tags ctx'))"
    "map_of (ctx_tags ctx') = (map_of (ctx_tags ctx1))(map fst kvs [\<mapsto>] map (\<lambda>kv. stored_value cfg (snd kv)) kvs)" by blast
  then show ?case unfolding kv using c(1,5) by (intro exI [of _ ctx']) simp
qed

text \<open>The bytes of the domain number and what they spell.\<close>

lemma domain_buf_correct:
  "\<exists>b n. snprintf (replicate 16 NUL) 16 (dec_digits d) = Some (b, n) \<and> terminated b \<and> c_str b = take 15 (dec_digits d)"
proof -
  obtain b where b: "snprintf (replicate 16 NUL) 16 (dec_digits d) = Some (b, length (dec_digits d))"
    "holds_text 16 (replicate 16 NUL) (take 15 (dec_digits d)) b"
    using snprintf_holds [of 16 "replicate 16 NUL" "dec_digits d"] by auto
  have "NUL \<notin> set (take 15 (dec_digits d))" using dec_digits_NUL [of d] by (auto dest: in_set_takeD)
  with b holds_text_c_str [OF b(2)] show ?thesis by auto
qed

lemma ROS2ContextProvider_eq:
  "\<exists>dom exe. ROS2ContextProvider cfg nd ctx = set_tags cfg
     [(''ros.node'', node_name nd), (''ros.namespace'', node_namespace nd), (''ros.domain_id'', dom),
      (''ros.package'', node_package nd), (''ros.executable'', exe), (''ros.rmw'', node_rmw nd)] ctx \<and>
     terminated dom \<and> c_str dom = take 15 (dec_digits (unat (node_domain_id nd))) \<and>
     terminated exe \<and> c_str exe = exe_text (node_exe nd)"
proof -
  obtain dom n where d: "snprintf (replicate 16 NUL) 16 (dec_digits (unat (node_domain_id nd))) = Some (dom, n)"
    "terminated dom" "c_str dom = take 15 (dec_digits (unat (node_domain_id nd)))"
    using domain_buf_correct by blast
  obtain exe where e: "exe_name (node_exe nd) = Some exe" "terminated exe" "c_str exe = exe_text (node_exe nd)"
    using exe_name_correct by blast
  show ?thesis using d e by (intro exI [of _ dom, OF exI [of _ exe]]) (simp add: ROS2ContextProvider_def set_tags_eqs)
qed

definition wf_node :: "node \<Rightarrow> bool" where
  "wf_node nd \<longleftrightarrow> terminated (node_name nd) \<and> terminated (node_namespace nd) \<and> terminated (node_package nd) \<and> terminated (node_rmw nd)"

text \<open>The tags of a node, with values cut to the room of a tag value.\<close>

definition node_tags :: "config \<Rightarrow> node \<Rightarrow> (string \<times> string) list" where
  "node_tags cfg nd = map (\<lambda>(k, v). (k, take (BR_LOG_MAX_TAG_VAL_LEN cfg - 1) v))
     [(''ros.node'', c_str (node_name nd)), (''ros.namespace'', c_str (node_namespace nd)),
      (''ros.domain_id'', take 15 (dec_digits (unat (node_domain_id nd)))),
      (''ros.package'', c_str (node_package nd)), (''ros.executable'', exe_text (node_exe nd)), (''ros.rmw'', c_str (node_rmw nd))]"

lemma ROS2ContextProvider_ok:
  assumes "valid_config cfg" "14 < BR_LOG_MAX_TAG_KEY_LEN cfg" "wf_node nd" "ctx_wf cfg ctx"
    "distinct (map fst (ctx_tags ctx))" "length (ctx_tags ctx) \<le> 10"
  shows "\<exists>ctx'. ROS2ContextProvider cfg nd ctx = Some ctx' \<and> ctx_wf cfg ctx' \<and> distinct (map fst (ctx_tags ctx')) \<and>
    map_of (ctx_tags ctx') = (map_of (ctx_tags ctx))(map fst (node_tags cfg nd) [\<mapsto>] map snd (node_tags cfg nd))"
proof -
  obtain dom exe where p: "ROS2ContextProvider cfg nd ctx = set_tags cfg
     [(''ros.node'', node_name nd), (''ros.namespace'', node_namespace nd), (''ros.domain_id'', dom),
      (''ros.package'', node_package nd), (''ros.executable'', exe), (''ros.rmw'', node_rmw nd)] ctx"
    "terminated dom" "c_str dom = take 15 (dec_digits (unat (node_domain_id nd)))"
    "terminated exe" "c_str exe = exe_text (node_exe nd)" using ROS2ContextProvider_eq by blast
  let ?kvs = "[(''ros.node'', node_name nd), (''ros.namespace'', node_namespace nd), (''ros.domain_id'', dom),
      (''ros.package'', node_package nd), (''ros.executable'', exe), (''ros.rmw'', node_rmw nd)]"
  have "list_all (\<lambda>(k, v). NUL \<notin> set k \<and> length k < BR_LOG_MAX_TAG_KEY_LEN cfg \<and> terminated v) ?kvs"
    using assms(2,3) p(2,4) by (simp add: wf_node_def)
  moreover have "length (ctx_tags ctx) + length ?kvs \<le> 16" using assms(6) by simp
  moreover have "map fst ?kvs = map fst (node_tags cfg nd)" "map (\<lambda>kv. stored_value cfg (snd kv)) ?kvs = map snd (node_tags cfg nd)"
    using p(3,5) by (simp_all add: node_tags_def stored_value_def)
  ultimately show ?thesis using set_tags_map [OF assms(1,4,5), of ?kvs] p(1) by simp
qed

subsection \<open>Set-up\<close>

lemma Rotating_OpenFile_buf: "format_buf (fst (Rotating_OpenFile px s w)) = format_buf s"
  by (simp add: Rotating_OpenFile_def Let_def split_def split: option.split)

text \<open>The sinks \<open>init\<close> adds, in order.\<close>

definition bridge_sinks :: "'w posix \<Rightarrow> bytes \<Rightarrow> bool \<Rightarrow> bool \<Rightarrow> node \<Rightarrow> BridgeConfig \<Rightarrow> 'w \<Rightarrow> 'w sink list" where
  "bridge_sinks px fbuf out_tty err_tty nd config w =
     (if enable_ros2_sink config then [ROS2 (ROS2Sink_init fbuf (node_logger nd))] else []) @
     (if enable_console config
      then [Console (SetFormatter (Pattern (PatternFormatter_init (console_pattern config) True)) (ConsoleSink_init fbuf out_tty err_tty None))]
      else []) @
     (if enable_file config
      then [Rotating (fst (RotatingFileSink_init px fbuf (bridge_file_path config @ c_str (node_name nd) @ ''.log'')
              (bridge_max_file_size config) (bridge_max_files config) w))]
      else [])"

lemma bridge_sinks_inv: "length fbuf = 2048 \<Longrightarrow> list_all sink_inv (bridge_sinks px fbuf out_tty err_tty nd config w)"
  by (simp add: bridge_sinks_def sink_wf_def SetFormatter_def ConsoleSink_init_def RotatingFileSink_init_def Rotating_OpenFile_buf)

lemma ros2_init_eq:
  assumes "ROS2ContextProvider cfg nd ctx = Some ctx'"
  shows "\<exists>w'. ros2_init cfg px fbuf out_tty err_tty nd config ctx lg w =
    Some (ctx', Logger_Start cfg (fold Logger_AddSink (bridge_sinks px fbuf out_tty err_tty nd config w) lg), w')"
  using assms by (simp add: ros2_init_def bridge_sinks_def add_if_def Let_def split_def)

subsection \<open>Callbacks\<close>

lemma callback_scope_tags:
  assumes "valid_config cfg" "tls_wf cfg s" "terminated name" "NUL \<notin> set key" "NUL \<notin> set cb_type"
    and "length key < BR_LOG_MAX_TAG_KEY_LEN cfg" "11 < BR_LOG_MAX_TAG_KEY_LEN cfg"
    and "length (tls_texts s) + 2 \<le> BR_LOG_MAX_TAGS cfg" "scopes_fit cfg (length (tls_texts s) + 2) body"
  shows "\<exists>s1 s2 s3. tls_texts s1 = tls_texts s @ [(key, stored_value cfg name), (''ros.cb_type'', take (BR_LOG_MAX_TAG_VAL_LEN cfg - 1) cb_type)] \<and>
    run_scopes cfg body s1 = Some s2 \<and> run_scope cfg (callback_scope key cb_type name body) s = Some s3 \<and> tls_texts s3 = tls_texts s"
proof -
  let ?c = "callback_scope key cb_type name body"
  have "scope_fits cfg (length (tls_texts s)) ?c"
    using assms by (simp add: callback_scope_def c_str_c_lit eval_nat_numeral)
  then obtain s3 where s3: "run_scope cfg ?c s = Some s3" "tls_texts s3 = tls_texts s"
    using run_scopes_restore(1) [OF _ assms(1,2) refl] by blast
  obtain sa where a: "PushScopedTag cfg (Some (c_lit key)) (Some name) s = Some sa" "tls_wf cfg sa"
    "tls_texts sa = tls_texts s @ [(key, stored_value cfg name)]"
    using PushScopedTag_ok [OF assms(1,2) terminated_c_lit assms(3), of key] assms(4,6,8)
    by (auto simp: stored_key_def c_str_c_lit)
  obtain sb where b: "PushScopedTag cfg (Some (c_lit ''ros.cb_type'')) (Some (c_lit cb_type)) sa = Some sb" "tls_wf cfg sb"
    "tls_texts sb = tls_texts sa @ [(''ros.cb_type'', take (BR_LOG_MAX_TAG_VAL_LEN cfg - 1) cb_type)]"
    using PushScopedTag_ok [OF assms(1) a(2) terminated_c_lit terminated_c_lit, of "''ros.cb_type''" cb_type] assms(5,7,8) a(3)
    by (auto simp: stored_key_def stored_value_def c_str_c_lit)
  have "\<exists>sc. run_scopes cfg body sb = Some sc"
    using run_scopes_restore(2) [of cfg "length (tls_texts s) + 2" body sb] assms(1,9) a(3) b(2,3) by auto
  with s3 a(3) b(3) show ?thesis by auto
qed

subsection \<open>Properties\<close>

text \<open>
  C35: setting up a node, when at most ten tags are set before, so that all six find room, and their keys are
  distinct. \<open>init\<close> sets the six tags that describe the node to their values, cut to the size of a tag, and keeps all
  other tags; it adds exactly the enabled sinks, in the order ROS, console, file, behind those the logger already
  has, every new sink is in a state it can be written to, nothing queued is lost, and the logger is started.
\<close>

theorem ros2_init_correct:
  assumes "valid_config cfg" and "14 < BR_LOG_MAX_TAG_KEY_LEN cfg" and "wf_node nd" and "ctx_wf cfg ctx"
    and "distinct (map fst (ctx_tags ctx))" and "length (ctx_tags ctx) \<le> 10" and "length fbuf = 2048"
  shows "\<exists>ctx' lg' w'. ros2_init cfg px fbuf out_tty err_tty nd config ctx lg w = Some (ctx', lg', w') \<and> ctx_wf cfg ctx' \<and>
    map_of (ctx_tags ctx') = (map_of (ctx_tags ctx))(map fst (node_tags cfg nd) [\<mapsto>] map snd (node_tags cfg nd)) \<and>
    sinks (backend lg') = sinks (backend lg) @ bridge_sinks px fbuf out_tty err_tty nd config w \<and>
    list_all sink_inv (bridge_sinks px fbuf out_tty err_tty nd config w) \<and>
    ring (backend lg') = ring (backend lg) \<and> started lg'"
proof -
  obtain ctx' where c: "ROS2ContextProvider cfg nd ctx = Some ctx'" "ctx_wf cfg ctx'"
    "map_of (ctx_tags ctx') = (map_of (ctx_tags ctx))(map fst (node_tags cfg nd) [\<mapsto>] map snd (node_tags cfg nd))"
    using ROS2ContextProvider_ok [OF assms(1-6)] by blast
  define ss where "ss = bridge_sinks px fbuf out_tty err_tty nd config w"
  obtain w' where "ros2_init cfg px fbuf out_tty err_tty nd config ctx lg w = Some (ctx', Logger_Start cfg (fold Logger_AddSink ss lg), w')"
    unfolding ss_def using ros2_init_eq [OF c(1), of px fbuf out_tty err_tty config lg w] by (elim exE)
  moreover have "list_all sink_inv ss" unfolding ss_def by (rule bridge_sinks_inv [OF assms(7)])
  ultimately show ?thesis using c(2,3) unfolding ss_def [symmetric]
    by (intro exI [of _ ctx', OF exI [of _ "Logger_Start cfg (fold Logger_AddSink ss lg)", OF exI [of _ w']]])
       (simp add: Logger_Start_def backend_Start_def fold_Logger_AddSink fold_AddSink)
qed

definition demo_node :: node where
  "demo_node = \<lparr>node_name = c_lit ''talker'', node_namespace = c_lit ''/'', node_domain_id = 42, node_package = c_lit ''unknown'',
     node_exe = Some ''/opt/bin/talker'', node_rmw = c_lit ''rmw'', node_logger = ''talker''\<rparr>"

theorem ros2_init_correct_witness:
  "\<exists>ctx' lg' w'. ros2_init (platform_config False) mem_posix (replicate 2048 NUL) True True demo_node BridgeConfig_default
      (LogContext_init (platform_config False)) (Logger_init (platform_config False)) (mem_os_init 0) = Some (ctx', lg', w') \<and>
    map_of (ctx_tags ctx') ''ros.executable'' = Some ''talker'' \<and> length (sinks (backend lg')) = 2 \<and> started lg'"
proof -
  let ?cfg = "platform_config False"
  have "ctx_tags (LogContext_init ?cfg) = []" by (simp add: ctx_tags_def LogContext_init_def tag_texts_def)
  moreover have "wf_node demo_node" by (simp add: wf_node_def demo_node_def)
  moreover have "map fst (node_tags ?cfg demo_node) = [''ros.node'', ''ros.namespace'', ''ros.domain_id'', ''ros.package'', ''ros.executable'', ''ros.rmw'']"
    "map snd (node_tags ?cfg demo_node) = [''talker'', ''/'', ''42'', ''unknown'', ''talker'', ''rmw'']"
    by (simp_all add: node_tags_def demo_node_def platform_config_def c_str_c_lit exe_text_def after_slash_def dec_eval c_str_Cons)
  moreover have "length (bridge_sinks mem_posix (replicate 2048 NUL) True True demo_node BridgeConfig_default (mem_os_init 0)) = 2"
    by (simp add: bridge_sinks_def BridgeConfig_default_def)
  moreover have "sinks (backend (Logger_init ?cfg)) = []" by (simp add: Logger_init_def LoggerBackend_init_def)
  ultimately show ?thesis
    using ros2_init_correct [OF valid_platform_config _ _ ctx_init_wf(1) [OF valid_platform_config], of False demo_node "replicate 2048 NUL"
        mem_posix True True BridgeConfig_default "Logger_init ?cfg" "mem_os_init 0"]
    by (auto simp: platform_config_def)
qed

text \<open>
  The callback macros. The body of a callback runs with two more tags on the thread, the name of its topic,
  service, timer or action and the kind of the callback, and afterwards the thread has the tags it had before.
\<close>

lemma callback_tags_correct:
  assumes "(macro, key, kind) \<in> {(LOG_SUB_CALLBACK, ''ros.topic'', ''subscription''), (LOG_SRV_CALLBACK, ''ros.service'', ''service''),
      (LOG_TIMER_CALLBACK, ''ros.timer'', ''timer''), (LOG_ACTION_CALLBACK, ''ros.action'', ''action'')}"
    and "valid_config cfg" and "11 < BR_LOG_MAX_TAG_KEY_LEN cfg" and "12 < BR_LOG_MAX_TAG_VAL_LEN cfg"
    and "tls_wf cfg s" and "terminated name" and "length (tls_texts s) + 2 \<le> BR_LOG_MAX_TAGS cfg"
    and "scopes_fit cfg (length (tls_texts s) + 2) body"
  shows "\<exists>s1 s2 s3. tls_texts s1 = tls_texts s @ [(key, stored_value cfg name), (''ros.cb_type'', kind)] \<and>
    run_scopes cfg body s1 = Some s2 \<and> run_scope cfg (macro name body) s = Some s3 \<and> tls_texts s3 = tls_texts s"
proof -
  have "macro name body = callback_scope key kind name body" "NUL \<notin> set key" "NUL \<notin> set kind" "length key \<le> 11" "length kind \<le> 12"
    using assms(1) by (auto simp: LOG_SUB_CALLBACK_def LOG_SRV_CALLBACK_def LOG_TIMER_CALLBACK_def LOG_ACTION_CALLBACK_def)
  with callback_scope_tags [OF assms(2,5,6) _ _ _ assms(3,7,8), of key kind] assms(3,4) show ?thesis by simp
qed

lemma callback_tags_correct_witness:
  "\<exists>s3. run_scope (platform_config False) (LOG_SUB_CALLBACK (c_lit ''/chatter'') []) (Tls_init (platform_config False)) = Some s3 \<and> tls_texts s3 = []"
proof -
  have "tls_texts (Tls_init (platform_config False)) = []" by (simp add: tls_texts_def Tls_init_def tag_texts_def)
  with callback_tags_correct [of LOG_SUB_CALLBACK "''ros.topic''" "''subscription''" "platform_config False" "Tls_init (platform_config False)"
      "c_lit ''/chatter''" "[]"] valid_platform_config [of False] ctx_init_wf(2) [OF valid_platform_config, of False]
  show ?thesis by (auto simp: platform_config_def)
qed

end
