(* ===== verification/Logger_Concurrent.thy ===== *)
theory Logger_Concurrent
  imports Logger Ring_Calls
begin

text \<open>
  The logger under concurrency: any number of threads inside \<open>LogImpl\<close> (\<open>logger.hpp\<close>), the worker thread
  inside \<open>WorkerLoop\<close> and the owner of the logger inside \<open>Start\<close>, \<open>Stop\<close> or \<open>Drain\<close> (\<open>backend.cpp\<close>),
  interleaved at every access to shared memory. The ring is the concurrent one of \<open>Ring_Calls\<close>. The state has
  three parts: \<open>front\<close>, which the logging threads own, the ring, and \<open>rear\<close>, which the worker and the owner
  own; each part has its steps and its invariant, and what one side does to the ring leaves the invariant of the
  other side alone.

  A call on the context runs under the context's mutex or on thread-local data and is one step. Sinks are only
  touched by the thread that drains, so one \<open>Dispatch\<close> is one step. \<open>Start\<close>, \<open>Stop\<close> and \<open>Drain\<close> belong to
  one owner thread, and \<open>Drain\<close> to builds or phases without a worker, as \<open>backend.hpp\<close> asks.

  History variables: \<open>made\<close>, the thread and the call behind each sequence number; \<open>dropped\<close>, the numbers of
  the entries that were counted as dropped; \<open>out_events\<close>, what the sinks were told.
\<close>

subsection \<open>The logging threads\<close>

text \<open>
  A thread is outside \<open>LogImpl\<close>, past the level test, past the increment of the sequence counter, past the
  making of the entry, inside \<open>TryPush\<close>, or past a \<open>TryPush\<close> that returned false.
\<close>

datatype caller =
    LOut
  | LEntered log_call
  | LNumbered log_call u64
  | LFilled LogEntry
  | LPushing u64
  | LRejected u64

record front =
  callers :: "nat \<Rightarrow> caller"
  f_ctx :: LogContext
  f_tls :: "nat \<Rightarrow> Tls"
  f_level :: LogLevel
  f_sequence :: u64
  f_drop_count :: u64
  made :: "(nat \<times> log_call) list"
  dropped :: "u64 list"
  reset_at :: nat

definition front_init :: "config \<Rightarrow> front" where
  "front_init cfg =
     \<lparr>callers = (\<lambda>_. LOut), f_ctx = LogContext_init cfg, f_tls = (\<lambda>_. Tls_init cfg), f_level = INFO,
      f_sequence = 0, f_drop_count = 0, made = [], dropped = [], reset_at = 0\<rparr>"

abbreviation caller_goto :: "front \<Rightarrow> nat \<Rightarrow> caller \<Rightarrow> front" where
  "caller_goto f t c \<equiv> f\<lparr>callers := (callers f)(t := c)\<rparr>"

text \<open>
  The accesses of \<open>LogImpl\<close> and of the macro around it, and the calls that change what \<open>LogImpl\<close> reads. A
  call site supplies C strings, and a message that fits (see \<open>overlong_message_over_read\<close> for one that does not).
\<close>

inductive front_step :: "config \<Rightarrow> nat \<Rightarrow> nat \<Rightarrow> front \<Rightarrow> LogEntry mpsc \<Rightarrow> front \<Rightarrow> LogEntry mpsc \<Rightarrow> bool"
  for cfg active t where
  level_test: "callers f t = LOut \<Longrightarrow> wf_call c \<Longrightarrow> message_fits cfg (call_msg c) \<Longrightarrow>
     active \<le> level_value (call_level c) \<Longrightarrow> f_level f \<le> call_level c \<Longrightarrow>
     front_step cfg active t f m (caller_goto f t (LEntered c)) m"
| fetch_number: "callers f t = LEntered c \<Longrightarrow>
     front_step cfg active t f m
       (f\<lparr>callers := (callers f)(t := LNumbered c (f_sequence f)), f_sequence := f_sequence f + 1,
          made := made f @ [(t, c)]\<rparr>) m"
| fill: "callers f t = LNumbered c n \<Longrightarrow> build_entry cfg (f_ctx f) c n (f_tls f t) = Some (e, tls') \<Longrightarrow>
     front_step cfg active t f m (f\<lparr>callers := (callers f)(t := LFilled e), f_tls := (f_tls f)(t := tls')\<rparr>) m"
| push_call: "callers f t = LFilled e \<Longrightarrow>
     front_step cfg active t f m (caller_goto f t (LPushing (sequence_id e))) (TryPush_call t e m)"
| push_run: "callers f t = LPushing n \<Longrightarrow> TryPush_act t None m m' \<Longrightarrow> front_step cfg active t f m f m'"
| push_true: "callers f t = LPushing n \<Longrightarrow> TryPush_act t (Some True) m m' \<Longrightarrow>
     front_step cfg active t f m (caller_goto f t LOut) m'"
| push_false: "callers f t = LPushing n \<Longrightarrow> TryPush_act t (Some False) m m' \<Longrightarrow>
     front_step cfg active t f m (caller_goto f t (LRejected n)) m'"
| count_drop: "callers f t = LRejected n \<Longrightarrow>
     front_step cfg active t f m
       (f\<lparr>callers := (callers f)(t := LOut), f_drop_count := f_drop_count f + 1, dropped := dropped f @ [n]\<rparr>) m"
| context_call: "callers f t = LOut \<Longrightarrow> ctx_step cfg (f_ctx f, f_tls f t) (c', tls') \<Longrightarrow>
     front_step cfg active t f m (f\<lparr>f_ctx := c', f_tls := (f_tls f)(t := tls')\<rparr>) m"
| set_level: "callers f t = LOut \<Longrightarrow> front_step cfg active t f m (f\<lparr>f_level := l\<rparr>) m"
| reset_drops: "callers f t = LOut \<Longrightarrow>
     front_step cfg active t f m (f\<lparr>f_drop_count := 0, reset_at := length (dropped f)\<rparr>) m"

subsection \<open>The worker and the owner\<close>

text \<open>
  Inside \<open>Drain\<close> with its limit and its count: running \<open>TryPop\<close>, holding the entry that \<open>TryPop\<close> gave, or
  returning the count.
\<close>

datatype drain_pc = DPop nat nat | DGot nat nat LogEntry | DRet nat

definition drain_enter :: "nat \<Rightarrow> nat \<Rightarrow> drain_pc" where
  "drain_enter k n = (if n < k then DPop k n else DRet n)"

datatype worker_pc = WNone | WTest u32 | WDrain u32 drain_pc | WFinal drain_pc | WExit

datatype owner_pc = OOut | OJoin | ODrain drain_pc | OFlush | OManual drain_pc

datatype sink_event = Wrote LogEntry | Flushed

record 'w outputs =
  out_sinks :: "'w sink list"
  out_world :: "stdio \<times> 'w"
  out_events :: "sink_event list"

record 'w rear =
  b_running :: bool
  b_started :: bool
  wk :: worker_pc
  own :: owner_pc
  rear_out :: "'w outputs"

definition rear_init :: "'w sink list \<Rightarrow> stdio \<times> 'w \<Rightarrow> 'w rear" where
  "rear_init ss w =
     \<lparr>b_running = False, b_started = False, wk = WNone, own = OOut,
      rear_out = \<lparr>out_sinks = ss, out_world = w, out_events = []\<rparr>\<rparr>"

inductive drain_step ::
  "'w env \<Rightarrow> drain_pc \<Rightarrow> LogEntry mpsc \<Rightarrow> 'w outputs \<Rightarrow> drain_pc \<Rightarrow> LogEntry mpsc \<Rightarrow> 'w outputs \<Rightarrow> bool"
  for env where
  pop_run: "TryPop_act None m m' \<Longrightarrow> drain_step env (DPop k n) m out (DPop k n) m' out"
| pop_empty: "TryPop_act (Some None) m m' \<Longrightarrow> drain_step env (DPop k n) m out (DRet n) m' out"
| pop_entry: "TryPop_act (Some (Some e)) m m' \<Longrightarrow> drain_step env (DPop k n) m out (DGot k n e) m' out"
| dispatch: "Dispatch (log_sinks env) e (out_sinks out) (out_world out) = Some (ss, w) \<Longrightarrow>
     drain_step env (DGot k n e) m out (drain_enter k (Suc n)) m
       (out\<lparr>out_sinks := ss, out_world := w, out_events := out_events out @ [Wrote e]\<rparr>)"

text \<open>\<open>WorkerLoop\<close>: the loop with its reads of \<open>running_\<close>, and the final draining loop.\<close>

inductive worker_step :: "'w env \<Rightarrow> 'w rear \<Rightarrow> LogEntry mpsc \<Rightarrow> 'w rear \<Rightarrow> LogEntry mpsc \<Rightarrow> bool" for env where
  see_running: "wk b = WTest idle \<Longrightarrow> b_running b \<Longrightarrow>
     worker_step env b m (b\<lparr>wk := WDrain idle (drain_enter 64 0)\<rparr>) m"
| see_stopped: "wk b = WTest idle \<Longrightarrow> \<not> b_running b \<Longrightarrow>
     worker_step env b m (b\<lparr>wk := WFinal (drain_enter 64 0)\<rparr>) m"
| round_step: "wk b = WDrain idle d \<Longrightarrow> drain_step env d m (rear_out b) d' m' out' \<Longrightarrow>
     worker_step env b m (b\<lparr>wk := WDrain idle d', rear_out := out'\<rparr>) m'"
| round_end: "wk b = WDrain idle (DRet n) \<Longrightarrow>
     worker_step env b m (b\<lparr>wk := WTest (fst (idle_policy n idle))\<rparr>) m"
| final_step: "wk b = WFinal d \<Longrightarrow> drain_step env d m (rear_out b) d' m' out' \<Longrightarrow>
     worker_step env b m (b\<lparr>wk := WFinal d', rear_out := out'\<rparr>) m'"
| final_again: "wk b = WFinal (DRet n) \<Longrightarrow> 0 < n \<Longrightarrow> worker_step env b m (b\<lparr>wk := WFinal (drain_enter 64 0)\<rparr>) m"
| final_end: "wk b = WFinal (DRet 0) \<Longrightarrow> worker_step env b m (b\<lparr>wk := WExit\<rparr>) m"

text \<open>
  The owner: \<open>Logger::Start\<close>, \<open>Logger::Stop\<close> with \<open>LoggerBackend::Stop\<close> inside it, and \<open>Logger::Drain\<close>.
  \<open>join\<close> waits for the worker to end.
\<close>

inductive control_step :: "config \<Rightarrow> 'w env \<Rightarrow> 'w rear \<Rightarrow> LogEntry mpsc \<Rightarrow> 'w rear \<Rightarrow> LogEntry mpsc \<Rightarrow> bool"
  for cfg env where
  start_again: "own b = OOut \<Longrightarrow> b_started b \<Longrightarrow> control_step cfg env b m b m"
| start_worker: "own b = OOut \<Longrightarrow> \<not> b_started b \<Longrightarrow>
     control_step cfg env b m
       (if b_running b then b\<lparr>b_started := True\<rparr>
        else b\<lparr>b_running := True, wk := (if BR_LOG_HAS_THREAD cfg then WTest 0 else wk b), b_started := True\<rparr>) m"
| stop_unstarted: "own b = OOut \<Longrightarrow> \<not> b_started b \<Longrightarrow> control_step cfg env b m b m"
| stop_flag: "own b = OOut \<Longrightarrow> b_started b \<Longrightarrow> control_step cfg env b m (b\<lparr>b_running := False, own := OJoin\<rparr>) m"
| join_worker: "own b = OJoin \<Longrightarrow> wk b = WExit \<Longrightarrow>
     control_step cfg env b m (b\<lparr>wk := WNone, own := ODrain (drain_enter 64 0)\<rparr>) m"
| join_none: "own b = OJoin \<Longrightarrow> wk b = WNone \<Longrightarrow>
     control_step cfg env b m (b\<lparr>own := ODrain (drain_enter 64 0)\<rparr>) m"
| stop_drain: "own b = ODrain d \<Longrightarrow> drain_step env d m (rear_out b) d' m' out' \<Longrightarrow>
     control_step cfg env b m (b\<lparr>own := ODrain d', rear_out := out'\<rparr>) m'"
| stop_again: "own b = ODrain (DRet n) \<Longrightarrow> 0 < n \<Longrightarrow>
     control_step cfg env b m (b\<lparr>own := ODrain (drain_enter 64 0)\<rparr>) m"
| stop_drained: "own b = ODrain (DRet 0) \<Longrightarrow> control_step cfg env b m (b\<lparr>own := OFlush\<rparr>) m"
| stop_flush: "own b = OFlush \<Longrightarrow> flush_all (log_sinks env) (out_sinks (rear_out b)) (out_world (rear_out b)) = (ss, w) \<Longrightarrow>
     control_step cfg env b m
       (b\<lparr>own := OOut, b_started := False,
          rear_out := (rear_out b)\<lparr>out_sinks := ss, out_world := w, out_events := out_events (rear_out b) @ [Flushed]\<rparr>\<rparr>) m"
| manual_call: "own b = OOut \<Longrightarrow> wk b = WNone \<Longrightarrow> control_step cfg env b m (b\<lparr>own := OManual (drain_enter k 0)\<rparr>) m"
| manual_step: "own b = OManual d \<Longrightarrow> drain_step env d m (rear_out b) d' m' out' \<Longrightarrow>
     control_step cfg env b m (b\<lparr>own := OManual d', rear_out := out'\<rparr>) m'"
| manual_end: "own b = OManual (DRet n) \<Longrightarrow> control_step cfg env b m (b\<lparr>own := OOut\<rparr>) m"

subsection \<open>Runs\<close>

definition ring_junk :: "config \<Rightarrow> LogEntry list" where
  "ring_junk cfg = replicate (BR_LOG_RING_SIZE cfg) (zero_entry cfg)"

inductive conc_step ::
  "config \<Rightarrow> 'w env \<Rightarrow> nat \<Rightarrow> front \<times> LogEntry mpsc \<times> 'w rear \<Rightarrow> front \<times> LogEntry mpsc \<times> 'w rear \<Rightarrow> bool"
  for cfg env active where
  by_caller: "front_step cfg active t f m f' m' \<Longrightarrow> conc_step cfg env active (f, m, b) (f', m', b)"
| by_worker: "worker_step env b m b' m' \<Longrightarrow> conc_step cfg env active (f, m, b) (f, m', b')"
| by_owner: "control_step cfg env b m b' m' \<Longrightarrow> conc_step cfg env active (f, m, b) (f, m', b')"

definition conc_init :: "config \<Rightarrow> 'w sink list \<Rightarrow> stdio \<times> 'w \<Rightarrow> front \<times> LogEntry mpsc \<times> 'w rear" where
  "conc_init cfg ss w = (front_init cfg, mpsc_init (ring_junk cfg), rear_init ss w)"

definition conc_reach ::
  "config \<Rightarrow> 'w env \<Rightarrow> nat \<Rightarrow> 'w sink list \<Rightarrow> stdio \<times> 'w \<Rightarrow> front \<times> LogEntry mpsc \<times> 'w rear \<Rightarrow> bool" where
  "conc_reach cfg env active ss w s \<longleftrightarrow> (conc_step cfg env active)\<^sup>*\<^sup>* (conc_init cfg ss w) s"

subsection \<open>Sequence numbers\<close>

text \<open>
  Every number that was handed out is used (claimed by an entry in the ring, or counted as dropped) or held by
  exactly one thread, and no number is used twice.
\<close>

definition numbers_ok :: "u64 list \<Rightarrow> (nat \<Rightarrow> u64 option) \<Rightarrow> nat \<Rightarrow> bool" where
  "numbers_ok used held N \<longleftrightarrow> distinct used \<and>
     (\<forall>t n. held t = Some n \<longrightarrow> n \<notin> set used) \<and>
     (\<forall>t u n. held t = Some n \<longrightarrow> held u = Some n \<longrightarrow> t = u) \<and>
     set used \<union> {n. \<exists>t. held t = Some n} = of_nat ` {..<N}"

lemma of_nat_u64_eq: "k < 2 ^ 64 \<Longrightarrow> n < 2 ^ 64 \<Longrightarrow> (of_nat k :: u64) = of_nat n \<longleftrightarrow> k = n"
proof
  assume "k < 2 ^ 64" "n < 2 ^ 64" "(of_nat k :: u64) = of_nat n"
  then have "unat (of_nat k :: u64) = unat (of_nat n :: u64)" "k mod 2 ^ 64 = k" "n mod 2 ^ 64 = n" by simp_all
  then show "k = n" by (simp add: unat_of_nat)
qed simp

lemma numbers_take:
  assumes "numbers_ok used held N" and "held t = None" and N: "N < 2 ^ 64"
  shows "numbers_ok used (held(t := Some (of_nat N))) (Suc N)"
proof -
  have fresh: "(of_nat N :: u64) \<notin> of_nat ` {..<N}" using N by (auto simp: of_nat_u64_eq)
  then have "of_nat N \<notin> set used" and "\<And>u. held u \<noteq> Some (of_nat N)"
    using assms(1) by (auto simp: numbers_ok_def)
  moreover have "{n. \<exists>u. (held(t := Some (of_nat N))) u = Some n} = insert (of_nat N) {n. \<exists>u. held u = Some n}"
    using assms(2) by auto (metis option.distinct(1))
  moreover have "of_nat ` {..<Suc N} = insert (of_nat N :: u64) (of_nat ` {..<N})" by (simp add: lessThan_Suc)
  ultimately show ?thesis using assms(1) unfolding numbers_ok_def by (auto split: if_splits)
qed

lemma numbers_use:
  assumes "numbers_ok used held N" and t: "held t = Some n" and used: "mset used' = add_mset n (mset used)"
  shows "numbers_ok used' (held(t := None)) N"
proof -
  have set: "set used' = insert n (set used)" using used by (metis set_mset_add_mset_insert set_mset_mset)
  have "distinct used'" using assms mset_eq_imp_distinct_iff [of used' "n # used"] by (simp add: numbers_ok_def)
  moreover have "{k. \<exists>u. held u = Some k} = insert n {k. \<exists>u. (held(t := None)) u = Some k}"
    using t by auto (metis option.inject)
  ultimately show ?thesis using assms(1) t unfolding numbers_ok_def set by (auto split: if_splits)
qed

lemma numbers_count:
  assumes "numbers_ok used held N" and "\<And>t. held t = None" and "N < 2 ^ 64"
  shows "length used = N" and "set used = of_nat ` {..<N}"
proof -
  show s: "set used = of_nat ` {..<N}" using assms(1,2) by (simp add: numbers_ok_def)
  have "inj_on (of_nat :: nat \<Rightarrow> u64) {..<N}" using assms(3) by (auto intro!: inj_onI simp: of_nat_u64_eq)
  then have "card (set used) = N" by (simp add: s card_image)
  then show "length used = N" using assms(1) by (simp add: numbers_ok_def distinct_card)
qed

text \<open>
  The numbers of one thread are claimed in increasing order, below any number it still holds: a thread logs one
  entry at a time.
\<close>

definition order_ok :: "(nat \<times> 'c) list \<Rightarrow> nat list \<Rightarrow> (nat \<Rightarrow> u64 option) \<Rightarrow> bool" where
  "order_ok mk ks held \<longleftrightarrow> (\<forall>k\<in>set ks. k < length mk) \<and>
     (\<forall>t. sorted_wrt (<) (filter (\<lambda>k. fst (mk ! k) = t) ks)) \<and>
     (\<forall>t n. held t = Some n \<longrightarrow> unat n < length mk \<and> fst (mk ! unat n) = t \<and>
        (\<forall>k\<in>set ks. fst (mk ! k) = t \<longrightarrow> k < unat n))"

lemma order_take:
  assumes "order_ok mk ks held" and "length mk < 2 ^ 64"
  shows "order_ok (mk @ [(t, c)]) ks (held(t := Some (of_nat (length mk))))"
proof -
  have "filter (\<lambda>k. fst ((mk @ [(t, c)]) ! k) = u) ks = filter (\<lambda>k. fst (mk ! k) = u) ks" for u
    using assms(1) by (intro filter_cong) (auto simp: order_ok_def nth_append)
  moreover have "unat (of_nat (length mk) :: u64) = length mk" using assms(2) by (simp add: unat_of_nat)
  ultimately show ?thesis using assms(1) unfolding order_ok_def
    by (auto simp: nth_append less_SucI split: if_splits)
qed

lemma order_use:
  assumes "order_ok mk ks held" and "held t = Some n"
  shows "order_ok mk (ks @ [unat n]) (held(t := None))" and "order_ok mk ks (held(t := None))"
  using assms unfolding order_ok_def by (auto simp: sorted_wrt_append)

subsection \<open>The invariant of the logging threads\<close>

text \<open>The number a thread holds: given to it, not yet claimed in the ring and not yet counted as dropped.\<close>

fun held_number :: "caller \<Rightarrow> LogEntry producer \<Rightarrow> u64 option" where
  "held_number (LNumbered c n) p = Some n"
| "held_number (LFilled e) p = Some (sequence_id e)"
| "held_number (LPushing n) p = (if unclaimed p then Some n else None)"
| "held_number (LRejected n) p = Some n"
| "held_number _ p = None"

abbreviation held_at :: "front \<Rightarrow> LogEntry mpsc \<Rightarrow> nat \<Rightarrow> u64 option" where
  "held_at f m \<equiv> \<lambda>t. held_number (callers f t) (prod m t)"

text \<open>An entry as its call made it, and fit for every sink.\<close>

definition entry_made :: "config \<Rightarrow> 'w env \<Rightarrow> (nat \<times> log_call) list \<Rightarrow> LogEntry \<Rightarrow> bool" where
  "entry_made cfg env mk e \<longleftrightarrow> good_entry cfg env e \<and> unat (sequence_id e) < length mk \<and>
     (\<exists>ctx tls. entry_of_call cfg ctx tls (snd (mk ! unat (sequence_id e))) (sequence_id e) e)"

fun caller_ok :: "config \<Rightarrow> 'w env \<Rightarrow> (nat \<times> log_call) list \<Rightarrow> caller \<Rightarrow> LogEntry producer \<Rightarrow> bool" where
  "caller_ok cfg env mk LOut p = (p = PIdle)"
| "caller_ok cfg env mk (LEntered c) p = (p = PIdle \<and> wf_call c \<and> message_fits cfg (call_msg c))"
| "caller_ok cfg env mk (LNumbered c n) p = (p = PIdle \<and> wf_call c \<and> message_fits cfg (call_msg c) \<and>
     unat n < length mk \<and> snd (mk ! unat n) = c)"
| "caller_ok cfg env mk (LFilled e) p = (p = PIdle \<and> entry_made cfg env mk e)"
| "caller_ok cfg env mk (LPushing n) p = (\<exists>e. push_entry p = Some e \<and> sequence_id e = n \<and> entry_made cfg env mk e)"
| "caller_ok cfg env mk (LRejected n) p = (p = PIdle)"

abbreviation claimed_numbers :: "LogEntry mpsc \<Rightarrow> u64 list" where
  "claimed_numbers m \<equiv> map sequence_id (claimed m)"

definition front_wf :: "config \<Rightarrow> 'w env \<Rightarrow> front \<Rightarrow> LogEntry mpsc \<Rightarrow> bool" where
  "front_wf cfg env f m \<longleftrightarrow> ctx_wf cfg (f_ctx f) \<and> (\<forall>t. tls_wf cfg (f_tls f t)) \<and>
     (\<forall>t. caller_ok cfg env (made f) (callers f t) (prod m t)) \<and>
     (\<forall>e\<in>set (claimed m). entry_made cfg env (made f) e) \<and>
     f_sequence f = of_nat (length (made f)) \<and> reset_at f \<le> length (dropped f) \<and>
     f_drop_count f = of_nat (length (dropped f) - reset_at f)"

definition front_numbers :: "front \<Rightarrow> LogEntry mpsc \<Rightarrow> bool" where
  "front_numbers f m \<longleftrightarrow> numbers_ok (claimed_numbers m @ dropped f) (held_at f m) (length (made f)) \<and>
     order_ok (made f) (map unat (claimed_numbers m)) (held_at f m)"

lemma entry_made_mono: "entry_made cfg env mk e \<Longrightarrow> entry_made cfg env (mk @ xs) e"
  by (auto simp: entry_made_def nth_append)

lemma caller_ok_mono: "caller_ok cfg env mk c p \<Longrightarrow> caller_ok cfg env (mk @ xs) c p"
  by (cases c) (auto simp: nth_append intro: entry_made_mono)

lemma front_wfD:
  assumes "front_wf cfg env f m"
  shows "ctx_wf cfg (f_ctx f)" and "tls_wf cfg (f_tls f t)"
    and "caller_ok cfg env (made f) (callers f t) (prod m t)"
    and "e \<in> set (claimed m) \<Longrightarrow> entry_made cfg env (made f) e"
    and "f_sequence f = of_nat (length (made f))"
  using assms by (simp_all add: front_wf_def)

text \<open>A step that moves one thread and leaves the history of numbers alone.\<close>

lemma front_wf_goto:
  assumes "front_wf cfg env f m" and "caller_ok cfg env (made f) c (prod m' t)" and "claimed m' = claimed m"
    and "\<And>u. u \<noteq> t \<Longrightarrow> prod m' u = prod m u"
  shows "front_wf cfg env (caller_goto f t c) m'"
  using assms by (auto simp: front_wf_def)

lemma front_wf_run:
  assumes wf: "front_wf cfg env f m" and pc: "callers f t = LPushing n" and act: "TryPush_act t None m m'"
  shows "front_wf cfg env f m'"
proof -
  obtain e where e: "push_entry (prod m t) = Some e" "sequence_id e = n" "entry_made cfg env (made f) e"
    using front_wfD(3) [OF wf, of t] pc by auto
  have "push_entry (prod m' t) = Some e" and "set (claimed m') \<subseteq> insert e (set (claimed m))"
    using act e(1) by (cases rule: TryPush_act_cases; force)+
  then have "caller_ok cfg env (made f) (callers f u) (prod m' u)" for u
    using front_wfD(3) [OF wf, of u] TryPush_act_frame(3) [OF act, of u] e pc by (cases "u = t") auto
  with \<open>set (claimed m') \<subseteq> _\<close> e wf show ?thesis unfolding front_wf_def by auto
qed

text \<open>The entry of a numbered call.\<close>

lemma fill_entry_made:
  assumes wf: "front_wf cfg env f m" and cfg: "valid_config cfg" and lt: "localtime_ok (fst (env_tz env))"
    and junk: "length (env_junk env) = 128" and pc: "callers f t = LNumbered c n"
    and build: "build_entry cfg (f_ctx f) c n (f_tls f t) = Some (e, tls')"
  shows "entry_made cfg env (made f) e" and "sequence_id e = n" and "tls_wf cfg tls'"
proof -
  have c: "wf_call c" "message_fits cfg (call_msg c)" "unat n < length (made f)" "snd (made f ! unat n) = c"
    using front_wfD(3) [OF wf, of t] pc by simp_all
  obtain e' tls'' where b: "build_entry cfg (f_ctx f) c n (f_tls f t) = Some (e', tls'')" "wf_entry cfg e'"
    "terminated (msg e')" "tls_wf cfg tls''" "entry_of_call cfg (f_ctx f) (f_tls f t) c n e'"
    using build_entry_ok [OF cfg front_wfD(1,2) [OF wf] c(1,2)] by blast
  with build have e: "e' = e" "tls'' = tls'" by simp_all
  with b(4,5) show seq: "sequence_id e = n" and "tls_wf cfg tls'" by (simp_all add: entry_of_call_def)
  show "entry_made cfg env (made f) e"
    using b c lt junk unfolding e entry_made_def seq by (auto simp: good_entry_def entry_ok_def)
qed

lemma build_enabled:
  assumes "front_wf cfg env f m" and "valid_config cfg" and "callers f t = LNumbered c n"
  shows "\<exists>e tls'. build_entry cfg (f_ctx f) c n (f_tls f t) = Some (e, tls')"
  using build_entry_ok [OF assms(2) front_wfD(1) [OF assms(1)] front_wfD(2) [OF assms(1), of t], of c n]
    front_wfD(3) [OF assms(1), of t] assms(3) by auto

lemma front_wf_step:
  assumes step: "front_step cfg active t f m f' m'" and wf: "front_wf cfg env f m" and cfg: "valid_config cfg"
    and lt: "localtime_ok (fst (env_tz env))" and junk: "length (env_junk env) = 128"
    and bound: "length (made f) < 2 ^ 64"
  shows "front_wf cfg env f' m'"
  using step
proof cases
  case (level_test c)
  then show ?thesis using front_wf_goto [OF wf, of "LEntered c" m t] front_wfD(3) [OF wf, of t] by simp
next
  case (fetch_number c)
  have "caller_ok cfg env (made f @ [(t, c)]) (callers f u) (prod m u)" for u
    using front_wfD(3) [OF wf] by (rule caller_ok_mono)
  moreover have "caller_ok cfg env (made f) (LEntered c) (prod m t)" using front_wfD(3) [OF wf, of t] fetch_number by simp
  moreover have "entry_made cfg env (made f @ [(t, c)]) e" if "e \<in> set (claimed m)" for e
    using front_wfD(4) [OF wf that] by (rule entry_made_mono)
  ultimately show ?thesis using fetch_number wf unfolding front_wf_def
    using unat_of_nat_small [of "length (made f)", where ?'w = 64] bound by auto
next
  case (fill c n e tls')
  note e = fill_entry_made [OF wf cfg lt junk fill(3,4)]
  have "prod m t = PIdle" using front_wfD(3) [OF wf, of t] fill(3) by simp
  then show ?thesis using fill wf e unfolding front_wf_def by auto
next
  case (push_call e)
  then show ?thesis using front_wf_goto [OF wf, of "LPushing (sequence_id e)" "TryPush_call t e m" t] front_wfD(3) [OF wf, of t]
    by auto
next
  case (push_run n)
  then show ?thesis using front_wf_run [OF wf] by simp
next
  case (push_true n)
  from push_true(3) show ?thesis
    by (cases rule: TryPush_act_cases)
      (use push_true front_wf_goto [OF wf, of LOut m' t] TryPush_act_frame(3) [OF push_true(3)] in simp_all)
next
  case (push_false n)
  from push_false(3) show ?thesis
    by (cases rule: TryPush_act_cases)
      (use push_false front_wf_goto [OF wf, of "LRejected n" m' t] TryPush_act_frame(3) [OF push_false(3)] in simp_all)
next
  case (count_drop n)
  have "prod m t = PIdle" using front_wfD(3) [OF wf, of t] count_drop by simp
  then show ?thesis using count_drop wf unfolding front_wf_def by (auto simp: Suc_diff_le)
next
  case (context_call c' tls')
  then show ?thesis using wf ctx_step_wf [OF context_call(4) cfg] unfolding front_wf_def by auto
next
  case (set_level l)
  then show ?thesis using wf by (simp add: front_wf_def)
next
  case reset_drops
  then show ?thesis using wf by (simp add: front_wf_def)
qed

text \<open>What a step does to the number its thread holds.\<close>

lemma held_at_upd:
  assumes "\<And>u. u \<noteq> t \<Longrightarrow> callers f' u = callers f u" and "\<And>u. u \<noteq> t \<Longrightarrow> prod m' u = prod m u"
  shows "held_at f' m' = (held_at f m)(t := held_at f' m' t)"
  using assms by auto

lemma front_numbers_same:
  assumes "front_numbers f m" and "\<And>u. u \<noteq> t \<Longrightarrow> callers f' u = callers f u"
    and "\<And>u. u \<noteq> t \<Longrightarrow> prod m' u = prod m u" and "held_at f' m' t = held_at f m t"
    and "claimed m' = claimed m" and "dropped f' = dropped f" and "made f' = made f"
  shows "front_numbers f' m'"
proof -
  have "held_at f' m' = held_at f m" using assms(2-4) by fastforce
  with assms(1,5-7) show ?thesis by (simp add: front_numbers_def)
qed

lemma front_numbers_use:
  assumes inv: "front_numbers f m" and "\<And>u. u \<noteq> t \<Longrightarrow> callers f' u = callers f u"
    and "\<And>u. u \<noteq> t \<Longrightarrow> prod m' u = prod m u" and n: "held_at f m t = Some n" and "held_at f' m' t = None"
    and mk: "made f' = made f"
    and use: "claimed_numbers m' = claimed_numbers m @ [n] \<and> dropped f' = dropped f \<or>
              claimed m' = claimed m \<and> dropped f' = dropped f @ [n]"
  shows "front_numbers f' m'"
proof -
  have upd: "held_at f' m' = (held_at f m)(t := None)" using held_at_upd [OF assms(2,3)] assms(5) by simp
  have "mset (claimed_numbers m' @ dropped f') = add_mset n (mset (claimed_numbers m @ dropped f))"
    using use by (auto simp del: mset_map)
  then have "numbers_ok (claimed_numbers m' @ dropped f') (held_at f' m') (length (made f'))"
    using inv numbers_use [of _ _ _ t n] n unfolding front_numbers_def upd mk by blast
  moreover have "map unat (claimed_numbers m') \<in> {map unat (claimed_numbers m) @ [unat n], map unat (claimed_numbers m)}"
    using use by (auto simp del: map_map)
  then have "order_ok (made f') (map unat (claimed_numbers m')) (held_at f' m')"
    using inv order_use [of "made f" "map unat (claimed_numbers m)" "held_at f m" t n] n
    unfolding front_numbers_def upd mk by (auto simp del: map_map)
  ultimately show ?thesis by (simp add: front_numbers_def)
qed

lemma front_numbers_run:
  assumes inv: "front_numbers f m" and wf: "front_wf cfg env f m" and pc: "callers f t = LPushing n"
    and act: "TryPush_act t None m m'"
  shows "front_numbers f m'"
proof -
  obtain e where e: "push_entry (prod m t) = Some e" "sequence_id e = n"
    using front_wfD(3) [OF wf, of t] pc by auto
  note frame = TryPush_act_frame(3) [OF act]
  from act show ?thesis
  proof (cases rule: TryPush_act_cases)
    case (claim x)
    then have "x = e" using e by simp
    have "held_at f m t = Some n" and "held_at f m' t = None" using claim(3,5) pc by simp_all
    then show ?thesis
      by (intro front_numbers_use [OF inv, where t = t and n = n]) (use claim e \<open>x = e\<close> frame in simp_all)
  next
    case (keep x)
    then have "held_at f m' t = held_at f m t" using pc by simp
    then show ?thesis by (intro front_numbers_same [OF inv, where t = t]) (use keep frame in simp_all)
  qed simp_all
qed

lemma front_numbers_fetch:
  assumes inv: "front_numbers f m" and seq: "f_sequence f = of_nat (length (made f))"
    and pc: "callers f t = LEntered c" and bound: "length (made f) < 2 ^ 64"
  shows "front_numbers (f\<lparr>callers := (callers f)(t := LNumbered c (f_sequence f)), f_sequence := f_sequence f + 1,
          made := made f @ [(t, c)]\<rparr>) m"
proof -
  let ?f = "f\<lparr>callers := (callers f)(t := LNumbered c (f_sequence f)), f_sequence := f_sequence f + 1,
          made := made f @ [(t, c)]\<rparr>"
  have upd: "held_at ?f m = (held_at f m)(t := Some (of_nat (length (made f))))" using seq by auto
  have "numbers_ok (claimed_numbers m @ dropped f) (held_at ?f m) (Suc (length (made f)))"
    unfolding upd using inv pc bound by (intro numbers_take) (simp_all add: front_numbers_def)
  moreover have "order_ok (made f @ [(t, c)]) (map unat (claimed_numbers m)) (held_at ?f m)"
    unfolding upd using inv bound by (intro order_take) (simp_all add: front_numbers_def)
  ultimately show ?thesis by (simp add: front_numbers_def)
qed

lemma front_numbers_step:
  assumes step: "front_step cfg active t f m f' m'" and inv: "front_numbers f m" and wf: "front_wf cfg env f m"
    and env: "valid_config cfg" "localtime_ok (fst (env_tz env))" "length (env_junk env) = 128"
    and bound: "length (made f) < 2 ^ 64"
  shows "front_numbers f' m'"
  using step
proof cases
  case (level_test c)
  then show ?thesis by (intro front_numbers_same [OF inv, of t]) simp_all
next
  case (fetch_number c)
  then show ?thesis using front_numbers_fetch [OF inv front_wfD(5) [OF wf] _ bound] by simp
next
  case (fill c n e tls')
  with fill_entry_made(2) [OF wf env fill(3,4)] show ?thesis
    by (intro front_numbers_same [OF inv, of t]) simp_all
next
  case (push_call e)
  then show ?thesis by (intro front_numbers_same [OF inv, of t]) simp_all
next
  case (push_run n)
  then show ?thesis using front_numbers_run [OF inv wf] by simp
next
  case (push_true n)
  from push_true(3) show ?thesis
    by (cases rule: TryPush_act_cases)
      (use push_true TryPush_act_frame(3) [OF push_true(3)] in \<open>auto intro!: front_numbers_same [OF inv, of t]\<close>)
next
  case (push_false n)
  from push_false(3) show ?thesis
    by (cases rule: TryPush_act_cases)
      (use push_false TryPush_act_frame(3) [OF push_false(3)] in \<open>auto intro!: front_numbers_same [OF inv, of t]\<close>)
next
  case (count_drop n)
  then show ?thesis by (intro front_numbers_use [OF inv, where t = t and n = n]) simp_all
next
  case (context_call c' tls')
  then show ?thesis by (intro front_numbers_same [OF inv, of t]) simp_all
next
  case (set_level l)
  then show ?thesis by (intro front_numbers_same [OF inv, of t]) simp_all
next
  case reset_drops
  then show ?thesis by (intro front_numbers_same [OF inv, of t]) simp_all
qed

text \<open>What the consumer does to the ring is no concern of the logging threads.\<close>

lemma front_pop:
  assumes "prod m' = prod m" and "claimed m' = claimed m"
  shows "front_wf cfg env f m' = front_wf cfg env f m" and "front_numbers f m' = front_numbers f m"
  using assms by (simp_all add: front_wf_def front_numbers_def)

subsection \<open>The invariant of the worker and the owner\<close>

fun written :: "sink_event list \<Rightarrow> LogEntry list" where
  "written [] = []"
| "written (Wrote e # es) = e # written es"
| "written (Flushed # es) = written es"

lemma written_append [simp]: "written (xs @ ys) = written xs @ written ys"
  by (induction xs rule: written.induct) simp_all

text \<open>The sinks and the world after a sequence of events.\<close>

fun replay :: "('s, 'w) sink_ops \<Rightarrow> sink_event list \<Rightarrow> 's list \<Rightarrow> 'w \<Rightarrow> ('s list \<times> 'w) option" where
  "replay so [] ss w = Some (ss, w)"
| "replay so (Wrote e # es) ss w = do { (ss', w') \<leftarrow> Dispatch so e ss w; replay so es ss' w' }"
| "replay so (Flushed # es) ss w = (let (ss', w') = flush_all so ss w in replay so es ss' w')"

lemma replay_append:
  "replay so (es @ fs) ss w = do { (ss', w') \<leftarrow> replay so es ss w; replay so fs ss' w' }"
  by (induction so es ss w rule: replay.induct) (auto simp: split_def Let_def cong: Option.bind_cong)

text \<open>Where the thread that drains is, and the entry it has popped and not yet dispatched.\<close>

fun drain_at :: "worker_pc \<Rightarrow> owner_pc \<Rightarrow> drain_pc" where
  "drain_at (WDrain idle d) q = d"
| "drain_at (WFinal d) q = d"
| "drain_at p (ODrain d) = d"
| "drain_at p (OManual d) = d"
| "drain_at p q = DRet 0"

abbreviation drain_of :: "'w rear \<Rightarrow> drain_pc" where
  "drain_of b \<equiv> drain_at (wk b) (own b)"

fun in_hand :: "drain_pc \<Rightarrow> LogEntry list" where
  "in_hand (DGot k n e) = [e]"
| "in_hand _ = []"

fun popping :: "drain_pc \<Rightarrow> bool" where
  "popping (DPop k n) = True"
| "popping _ = False"

definition drain_inv ::
  "'w env \<Rightarrow> 'w sink list \<Rightarrow> stdio \<times> 'w \<Rightarrow> drain_pc \<Rightarrow> LogEntry mpsc \<Rightarrow> 'w outputs \<Rightarrow> bool" where
  "drain_inv env ss w d m out \<longleftrightarrow> (cons m \<noteq> CIdle \<longrightarrow> popping d) \<and>
     written (out_events out) @ in_hand d = popped m \<and>
     replay (log_sinks env) (out_events out) ss w = Some (out_sinks out, out_world out) \<and>
     list_all sink_inv (out_sinks out)"

text \<open>The owner drains only when there is no worker, and starts a worker only when there is none.\<close>

definition lifecycle :: "'w rear \<Rightarrow> bool" where
  "lifecycle b \<longleftrightarrow> (own b \<notin> {OOut, OJoin} \<longrightarrow> wk b = WNone) \<and> (wk b \<noteq> WNone \<longrightarrow> b_started b) \<and>
     (\<not> b_started b \<longrightarrow> \<not> b_running b) \<and>
     (own b = OJoin \<or> own b = OFlush \<or> (\<exists>d. own b = ODrain d) \<longrightarrow> b_started b \<and> \<not> b_running b)"

definition rear_inv :: "'w env \<Rightarrow> 'w sink list \<Rightarrow> stdio \<times> 'w \<Rightarrow> 'w rear \<Rightarrow> LogEntry mpsc \<Rightarrow> bool" where
  "rear_inv env ss w b m \<longleftrightarrow> lifecycle b \<and> drain_inv env ss w (drain_of b) m (rear_out b)"

lemma drain_enter_simps [simp]: "in_hand (drain_enter k n) = []"
  by (simp add: drain_enter_def)

lemma drain_inv_idle:
  assumes "drain_inv env ss w d m out" and "\<not> popping d" and "in_hand d = []" and "in_hand d' = []"
  shows "drain_inv env ss w d' m out"
  using assms by (simp add: drain_inv_def)

lemma drain_step_inv:
  assumes step: "drain_step env d m out d' m' out'" and inv: "drain_inv env ss w d m out"
    and good: "list_all (good_entry cfg env) (popped m)"
  shows "drain_inv env ss w d' m' out'"
  using step
proof cases
  case (dispatch e ss1 w1 k n)
  have d: "written (out_events out) @ [e] = popped m" "replay (log_sinks env) (out_events out) ss w = Some (out_sinks out, out_world out)"
    "list_all sink_inv (out_sinks out)" "cons m = CIdle"
    using inv dispatch(1) by (auto simp: drain_inv_def)
  have "good_entry cfg env e" using good unfolding d(1) [symmetric] by simp
  from all_sinks.Dispatch_total [OF d(3) this, of "out_world out"] dispatch(5) have "list_all sink_inv ss1" by auto
  moreover have "replay (log_sinks env) (out_events out @ [Wrote e]) ss w = Some (ss1, w1)"
    using d(2) dispatch(5) by (simp add: replay_append)
  ultimately show ?thesis using dispatch d by (simp add: drain_inv_def)
qed (use inv in \<open>auto simp: drain_inv_def dest: TryPop_act_frame(3) TryPop_done\<close>)

text \<open>What the producers do to the ring is no concern of the thread that drains.\<close>

lemma rear_push:
  assumes "cons m' = cons m" and "popped m' = popped m"
  shows "rear_inv env ss w b m' = rear_inv env ss w b m"
  using assms by (simp add: rear_inv_def drain_inv_def)

lemma rear_invD:
  assumes "rear_inv env ss w b m"
  shows "lifecycle b" and "drain_inv env ss w (drain_of b) m (rear_out b)"
  using assms by (simp_all add: rear_inv_def)

text \<open>The worker moves on: the owner is then outside its draining loops.\<close>

lemma rear_inv_wk:
  assumes inv: "rear_inv env ss w b m" and wk: "wk b \<noteq> WNone" "wk' \<noteq> WNone"
    and drain: "drain_inv env ss w (drain_at wk' OOut) m' out'"
  shows "rear_inv env ss w (b\<lparr>wk := wk', rear_out := out'\<rparr>) m'"
proof -
  have "own b \<in> {OOut, OJoin}" using rear_invD(1) [OF inv] wk(1) by (auto simp: lifecycle_def)
  then have "drain_at wk' (own b) = drain_at wk' OOut" by (cases wk') auto
  with drain rear_invD(1) [OF inv] wk show ?thesis by (auto simp: rear_inv_def lifecycle_def)
qed

lemma worker_step_inv:
  assumes step: "worker_step env b m b' m'" and inv: "rear_inv env ss w b m"
    and good: "list_all (good_entry cfg env) (popped m)"
  shows "rear_inv env ss w b' m'"
proof -
  note drain = rear_invD(2) [OF inv] and run = drain_step_inv [OF _ _ good]
  have move: "rear_inv env ss w (b\<lparr>wk := wk'\<rparr>) m"
    if "wk b \<noteq> WNone" "wk' \<noteq> WNone" "\<not> popping (drain_of b)" "in_hand (drain_of b) = []" "in_hand (drain_at wk' OOut) = []" for wk'
    using rear_inv_wk [OF inv that(1,2) drain_inv_idle [OF drain that(3,4,5)]] by simp
  have own: "wk b \<noteq> WNone \<Longrightarrow> own b \<in> {OOut, OJoin}" using rear_invD(1) [OF inv] by (auto simp: lifecycle_def)
  from step show ?thesis
  proof cases
    case (round_step i d d' out')
    then show ?thesis using run [OF round_step(3)] drain rear_inv_wk [OF inv, of "WDrain i d'"] by simp
  next
    case (final_step d d' out')
    then show ?thesis using run [OF final_step(3)] drain rear_inv_wk [OF inv, of "WFinal d'"] by simp
  qed (use move own in auto)
qed

text \<open>The owner moves on while there is no worker.\<close>

lemma rear_inv_own:
  assumes inv: "rear_inv env ss w b m" and wk: "wk b = WNone"
    and own: "own' = OOut \<or> (\<exists>d. own' = OManual d) \<or> b_started b \<and> \<not> b_running b"
    and drain: "drain_inv env ss w (drain_at WNone own') m' out'"
  shows "rear_inv env ss w (b\<lparr>own := own', rear_out := out'\<rparr>) m'"
  using assms by (auto simp: rear_inv_def lifecycle_def)

lemma flush_inv:
  assumes "drain_inv env ss w d m out" and "\<not> popping d" and "in_hand d = []" and "in_hand d' = []"
    and "flush_all (log_sinks env) (out_sinks out) (out_world out) = (ss1, w1)"
  shows "drain_inv env ss w d' m (out\<lparr>out_sinks := ss1, out_world := w1, out_events := out_events out @ [Flushed]\<rparr>)"
  using assms all_sinks.flush_all_inv [of "out_sinks out" env "out_world out"]
  by (auto simp: drain_inv_def replay_append)

lemma control_step_inv:
  assumes step: "control_step cfg env b m b' m'" and inv: "rear_inv env ss w b m"
    and good: "list_all (good_entry cfg env) (popped m)"
  shows "rear_inv env ss w b' m'"
proof -
  note life = rear_invD(1) [OF inv] and drain = rear_invD(2) [OF inv] and run = drain_step_inv [OF _ _ good]
  have wk: "own b \<notin> {OOut, OJoin} \<Longrightarrow> wk b = WNone" and
    st: "own b = OJoin \<or> own b = OFlush \<or> (\<exists>d. own b = ODrain d) \<Longrightarrow> b_started b \<and> \<not> b_running b"
    using life by (auto simp: lifecycle_def)
  have move: "rear_inv env ss w (b\<lparr>own := own'\<rparr>) m"
    if "wk b = WNone" "own' = OOut \<or> (\<exists>d. own' = OManual d) \<or> b_started b \<and> \<not> b_running b"
      "\<not> popping (drain_of b)" "in_hand (drain_of b) = []" "in_hand (drain_at WNone own') = []" for own'
    using rear_inv_own [OF inv that(1,2) drain_inv_idle [OF drain that(3,4,5)]] by simp
  from step show ?thesis
  proof cases
    case start_worker
    then have "wk b = WNone" "\<not> b_running b" using life by (auto simp: lifecycle_def)
    with start_worker drain show ?thesis by (auto simp: rear_inv_def lifecycle_def drain_inv_def)
  next
    case stop_flag
    then have "drain_at (wk b) OJoin = drain_of b" by (cases "wk b") simp_all
    with stop_flag life drain show ?thesis by (auto simp: rear_inv_def lifecycle_def)
  next
    case join_worker
    then show ?thesis using life drain_inv_idle [OF drain] by (auto simp: rear_inv_def lifecycle_def)
  next
    case (stop_drain d d' out')
    then show ?thesis using run [OF stop_drain(3)] drain wk st rear_inv_own [OF inv, of "ODrain d'"] by simp
  next
    case (stop_flush ss1 w1)
    then have "wk b = WNone" "\<not> b_running b" using wk st by simp_all
    with stop_flush flush_inv [OF drain, of "DRet 0" ss1 w1] show ?thesis by (auto simp: rear_inv_def lifecycle_def)
  next
    case (manual_step d d' out')
    then show ?thesis using run [OF manual_step(3)] drain wk rear_inv_own [OF inv, of "OManual d'"] by simp
  qed (use inv move wk st in auto)
qed

subsection \<open>Every reachable state\<close>

definition conc_inv ::
  "config \<Rightarrow> 'w env \<Rightarrow> 'w sink list \<Rightarrow> stdio \<times> 'w \<Rightarrow> front \<times> LogEntry mpsc \<times> 'w rear \<Rightarrow> bool" where
  "conc_inv cfg env ss w s \<longleftrightarrow> (case s of (f, m, b) \<Rightarrow> mpsc_reachable (ring_junk cfg) m \<and>
     front_wf cfg env f m \<and> front_numbers f m \<and> rear_inv env ss w b m)"

text \<open>The runs considered: fewer than \<open>2 ^ 32\<close> claimed entries and \<open>2 ^ 64\<close> numbers.\<close>

definition bounded :: "front \<times> LogEntry mpsc \<times> 'w rear \<Rightarrow> bool" where
  "bounded s \<longleftrightarrow> (case s of (f, m, b) \<Rightarrow> length (claimed m) < 2 ^ 32 \<and> length (made f) < 2 ^ 64)"

text \<open>What the documented environment gives: the build's limits and a working \<open>localtime_r\<close>.\<close>

definition env_ok :: "config \<Rightarrow> 'w env \<Rightarrow> bool" where
  "env_ok cfg env \<longleftrightarrow> valid_config cfg \<and> localtime_ok (fst (env_tz env)) \<and> length (env_junk env) = 128"

lemma capacity_ring_junk: "valid_config cfg \<Longrightarrow> capacity_ok (length (ring_junk cfg))"
  by (auto simp: ring_junk_def valid_config_def capacity_ok_def)

lemma drain_step_frame:
  assumes "drain_step env d m out d' m' out'"
  shows "prod m' = prod m" and "claimed m' = claimed m" and "mpsc_reachable junk m \<Longrightarrow> mpsc_reachable junk m'"
  using assms by (cases; auto dest: TryPop_act_frame TryPop_reachable)+

lemma rear_step_frame:
  assumes "worker_step env b m b' m' \<or> control_step cfg env b m b' m'"
  shows "prod m' = prod m" and "claimed m' = claimed m" and "mpsc_reachable junk m \<Longrightarrow> mpsc_reachable junk m'"
  using assms by (auto elim!: worker_step.cases control_step.cases dest: drain_step_frame)

lemma front_step_frame:
  assumes "front_step cfg active t f m f' m'"
  shows "cons m' = cons m" and "popped m' = popped m" and "prefix (made f) (made f')"
    and "prefix (claimed m) (claimed m')"
    and "front_wf cfg env f m \<Longrightarrow> mpsc_reachable junk m \<Longrightarrow> mpsc_reachable junk m'"
proof -
  show "cons m' = cons m" "popped m' = popped m" "prefix (made f) (made f')"
    using assms by (cases; auto dest: TryPush_act_frame)+
  have claim: "prefix (claimed m) (claimed m')" if "TryPush_act t r m m'" for r
    using that by (cases rule: TryPush_act_cases) auto
  from assms show "prefix (claimed m) (claimed m')" by cases (auto intro: claim)
  show "mpsc_reachable junk m'" if "front_wf cfg env f m" "mpsc_reachable junk m"
    using assms that front_wfD(3) [OF that(1), of t]
    by cases (auto intro: TryPush_reachable TryPush_call_reachable)
qed

lemma conc_step_mono:
  assumes "conc_step cfg env active (f, m, b) (f', m', b')"
  shows "prefix (made f) (made f')" and "prefix (claimed m) (claimed m')"
  using assms by (cases; auto simp: rear_step_frame(2) [of env b m b' m' cfg] dest: front_step_frame)+

lemma conc_step_bounded: "conc_step cfg env active s s' \<Longrightarrow> bounded s' \<Longrightarrow> bounded s"
  using conc_step_mono by (cases s; cases s') (fastforce simp: bounded_def dest: prefix_length_le)

lemma popped_good:
  assumes "conc_inv cfg env ss w (f, m, b)" and "valid_config cfg" and "bounded (f, m, b)"
  shows "mpsc_inv m" and "popped m = take (length (popped m)) (claimed m)" and "list_all (good_entry cfg env) (popped m)"
proof -
  show inv: "mpsc_inv m" using assms
    by (intro mpsc_reachable_inv [OF _ capacity_ring_junk]) (auto simp: conc_inv_def bounded_def)
  then show p: "popped m = take (length (popped m)) (claimed m)" by (simp add: mpsc_inv_def inv_pos_def)
  have "list_all (good_entry cfg env) (claimed m)"
    using assms(1) by (auto simp: conc_inv_def front_wf_def list_all_iff entry_made_def)
  then show "list_all (good_entry cfg env) (popped m)" by (subst p) (auto simp: list_all_iff dest: in_set_takeD)
qed

lemma conc_inv_rear:
  assumes step: "worker_step env b m b' m' \<or> control_step cfg env b m b' m'" and inv: "conc_inv cfg env ss w (f, m, b)"
    and "valid_config cfg" and "bounded (f, m, b)"
  shows "conc_inv cfg env ss w (f, m', b')"
proof -
  note frame = rear_step_frame [OF step]
  have "rear_inv env ss w b m" using inv by (simp add: conc_inv_def)
  then have "rear_inv env ss w b' m'"
    using step worker_step_inv control_step_inv popped_good(3) [OF inv assms(3,4)] by blast
  with inv frame front_pop(1) [OF frame(1,2), of cfg env f] front_pop(2) [OF frame(1,2), of f] show ?thesis by (simp add: conc_inv_def)
qed

lemma conc_step_inv:
  assumes step: "conc_step cfg env active s s'" and inv: "conc_inv cfg env ss w s" and env: "env_ok cfg env" and bd: "bounded s"
  shows "conc_inv cfg env ss w s'"
proof -
  note E = env [unfolded env_ok_def]
  from step show ?thesis
  proof cases
    case (by_caller t f m f' m' b)
    then have "length (made f) < 2 ^ 64" using bd by (simp add: bounded_def)
    with by_caller inv E front_wf_step [OF by_caller(3)] front_numbers_step [OF by_caller(3)]
      front_step_frame [OF by_caller(3)] rear_push [of m' m env ss w b]
    show ?thesis by (auto simp: conc_inv_def)
  next
    case (by_worker b m b' m' f)
    then show ?thesis using conc_inv_rear inv E bd by blast
  next
    case (by_owner b m b' m' f)
    then show ?thesis using conc_inv_rear inv E bd by blast
  qed
qed

lemma conc_init_inv:
  assumes "valid_config cfg" and "list_all sink_inv ss"
  shows "conc_inv cfg env ss w (conc_init cfg ss w)"
proof -
  have "mpsc_reachable (ring_junk cfg) (mpsc_init (ring_junk cfg))" by (rule mpsc_reachable.start)
  moreover have "claimed (mpsc_init xs) = []" "popped (mpsc_init xs) = []" "prod (mpsc_init xs) t = PIdle" "cons (mpsc_init xs) = CIdle"
    for xs :: "LogEntry list" and t by (simp_all add: mpsc_init_def)
  ultimately show ?thesis using assms ctx_init_wf [OF assms(1)]
    by (simp add: conc_inv_def conc_init_def front_wf_def front_init_def front_numbers_def numbers_ok_def order_ok_def
        rear_inv_def rear_init_def lifecycle_def drain_inv_def)
qed

lemma conc_steps_inv:
  assumes "(conc_step cfg env active)\<^sup>*\<^sup>* s s'" and "conc_inv cfg env ss w s" and "env_ok cfg env" and "bounded s'"
  shows "conc_inv cfg env ss w s'"
  using assms(1,4)
proof (induction rule: rtranclp_induct)
  case base
  show ?case by (rule assms(2))
next
  case (step y z)
  then show ?case using conc_step_bounded [OF step.hyps(2)] conc_step_inv [OF step.hyps(2) _ assms(3)] by blast
qed

lemma conc_reach_inv:
  assumes "conc_reach cfg env active ss w s" and "env_ok cfg env" and "list_all sink_inv ss" and "bounded s"
  shows "conc_inv cfg env ss w s"
  using conc_steps_inv [OF assms(1) [unfolded conc_reach_def] conc_init_inv [OF _ assms(3)] assms(2,4)] assms(2)
  by (simp add: env_ok_def)

end
