(* ===== verification/Logger_Progress.thy ===== *)
theory Logger_Progress
  imports Logger_Concurrent
begin

text \<open>
  What the concurrent logger of \<open>Logger_Concurrent\<close> promises: entries reach the sinks in order and none is lost
  silently, \<open>Stop\<close> delivers what was ready when it cleared the flag and can always complete, no thread gets stuck. The lemmas
  about stopping follow the draining loops step by step; those about completion exhibit the steps a thread takes
  when it runs, and bound them by the number of pending entries.
\<close>

subsection \<open>Stopping\<close>

text \<open>The ring positions below \<open>p\<close> are claimed and no producer is still between claiming and publishing one of them.\<close>

definition settled :: "nat \<Rightarrow> LogEntry mpsc \<Rightarrow> bool" where
  "settled p m \<longleftrightarrow> p \<le> length (claimed m) \<and> (\<forall>t q x w. owned (prod m t) = Some (q, x, w) \<longrightarrow> p \<le> q)"

lemma settled_push:
  assumes inv: "mpsc_inv m" and bound: "length (claimed m) < 2 ^ 32" and act: "TryPush_act t r m m'" and p: "settled p m"
  shows "settled p m'"
proof -
  have wp: "unat (write_pos (Ring_Concurrent.ring m)) = length (claimed m)"
    using mpsc_invD(1) [OF inv] bound by (simp add: inv_pos_def unat_of_nat_u32)
  have old: "case owned (prod m t) of None \<Rightarrow> True | Some (q, x, w) \<Rightarrow> p \<le> q" and le: "p \<le> length (claimed m)"
    using p by (auto simp: settled_def split: option.split)
  have "p \<le> q" if "owned (prod m' t) = Some (q, x, w)" for q x w
    using act that wp old le by cases auto
  moreover have "length (claimed m) \<le> length (claimed m')" using act by (cases rule: TryPush_act_cases) auto
  ultimately show ?thesis using p TryPush_act_frame(3) [OF act] unfolding settled_def by (metis order_trans)
qed

lemma settled_front:
  assumes "mpsc_inv m" and "length (claimed m) < 2 ^ 32" and "front_step cfg active t f m f' m'" and p: "settled p m"
  shows "settled p m'"
  using assms(3)
proof cases
  case (push_call e)
  then show ?thesis using p by (auto simp: settled_def split: if_splits)
qed (use p settled_push [OF assms(1,2) _ p] in auto)

text \<open>
  The entries that are claimed and, with all those claimed before them, published: the ring's entries up to the
  first position that a producer still holds.
\<close>

definition ready :: "LogEntry mpsc \<Rightarrow> LogEntry list" where
  "ready m = map (nth (claimed m))
     (takeWhile (\<lambda>q. \<forall>t x w. owned (prod m t) \<noteq> Some (q, x, w)) [0..<length (claimed m)])"

lemma takeWhile_upt_less: "q < length (takeWhile P [0..<n]) \<Longrightarrow> P q"
  using nth_mem [of q "takeWhile P [0..<n]"] set_takeWhileD [of q P "[0..<n]"] length_takeWhile_le [of P "[0..<n]"]
  by (simp add: takeWhile_nth)

lemma map_nth_take: "k \<le> length xs \<Longrightarrow> map (nth xs) [0..<k] = take k xs"
  by (simp add: list_eq_iff_nth_eq)

lemma ready_take: "ready m = take (length (ready m)) (claimed m)"
proof -
  let ?k = "length (ready m)"
  have k: "?k \<le> length (claimed m)" using length_takeWhile_le [of _ "[0..<length (claimed m)]"] by (simp add: ready_def)
  have "takeWhile P [0..<n] = [0..<length (takeWhile P [0..<n])]" for P and n :: nat
    using takeWhile_eq_take [of P "[0..<n]"] length_takeWhile_le [of P "[0..<n]"] by (simp add: take_upt)
  then show ?thesis using map_nth_take [OF k] by (metis (no_types, lifting) ready_def length_map)
qed

lemma ready_settled: "settled (length (ready m)) m"
proof -
  have "length (ready m) \<le> q" if "owned (prod m t) = Some (q, x, w)" for t q x w
    using that takeWhile_upt_less [of q "\<lambda>q. \<forall>t x w. owned (prod m t) \<noteq> Some (q, x, w)" "length (claimed m)"]
    by (fastforce simp: ready_def not_le [symmetric])
  then show ?thesis using length_takeWhile_le [of _ "[0..<length (claimed m)]"] by (auto simp: settled_def ready_def)
qed

lemma ready_all: "\<forall>t. owned (prod m t) = None \<Longrightarrow> ready m = claimed m"
  by (simp add: ready_def map_nth takeWhile_eq_all_conv [THEN iffD2])

text \<open>An empty \<open>TryPop\<close> has everything settled behind it.\<close>

lemma empty_settled:
  assumes "mpsc_inv m" and "TryPop_act (Some None) m m'" and "settled p m"
  shows "p \<le> length (popped m)"
proof -
  from assms(2) have "cons m = CIdle"
    "sequence (slot_at (Ring_Concurrent.ring m) (read_pos (Ring_Concurrent.ring m))) \<noteq> read_pos (Ring_Concurrent.ring m) + 1"
    by (auto elim: TryPop_emptyE)
  from pop_empty_pending [OF assms(1) this] assms(3) show ?thesis by (auto simp: settled_def)
qed

definition stop_inv :: "nat \<Rightarrow> LogEntry mpsc \<Rightarrow> 'w rear \<Rightarrow> bool" where
  "stop_inv p m b \<longleftrightarrow> settled p m \<and> (own b = ODrain (DRet 0) \<or> own b = OFlush \<longrightarrow> p \<le> length (popped m))"

lemma popped_mono: "worker_step env b m b' m' \<or> control_step cfg env b m b' m' \<Longrightarrow> length (popped m) \<le> length (popped m')"
  by (auto elim!: worker_step.cases control_step.cases drain_step.cases dest: TryPop_act_frame(3))

lemma drain_returns_zero:
  assumes "drain_step env d m out (DRet 0) m' out'" and "mpsc_inv m" and "settled p m"
  shows "p \<le> length (popped m')"
  using assms(1)
proof cases
  case (pop_empty k)
  then show ?thesis using empty_settled [OF assms(2) _ assms(3)] TryPop_act_frame(3) [of "Some None" m m'] by simp
qed (simp add: drain_enter_def split: if_splits)

lemma stop_inv_control:
  assumes step: "control_step cfg env b m b' m'" and inv: "mpsc_inv m" and p: "stop_inv p m b"
  shows "stop_inv p m' b'"
proof -
  have s: "settled p m'" using p rear_step_frame(1,2) [of env b m b' m' cfg] step by (simp add: stop_inv_def settled_def)
  have le: "length (popped m) \<le> length (popped m')" using popped_mono step by blast
  from step show ?thesis
  proof cases
    case (stop_drain d d' out')
    then show ?thesis using s p drain_returns_zero [OF _ inv, of env d "rear_out b" m' out' p] by (auto simp: stop_inv_def)
  next
    case (stop_again n)
    then show ?thesis using s by (simp add: stop_inv_def drain_enter_def)
  qed (use s p le in \<open>auto simp: stop_inv_def drain_enter_def\<close>)
qed

lemma stop_inv_step:
  assumes step: "conc_step cfg env active (f, m, b) (f', m', b')" and inv: "mpsc_inv m"
    and bound: "length (claimed m) < 2 ^ 32" and p: "stop_inv p m b"
  shows "stop_inv p m' b'"
  using step
proof cases
  case (by_caller t)
  then show ?thesis using p settled_front [OF inv bound, of cfg active t f f' m' p] front_step_frame(2) [of cfg active t f m f' m']
    by (simp add: stop_inv_def)
next
  case by_worker
  have "own b' = own b" using by_worker(2) by cases simp_all
  moreover have "settled p m'" using p rear_step_frame(1,2) [of env b m b' m' cfg] by_worker by (simp add: stop_inv_def settled_def)
  moreover have "length (popped m) \<le> length (popped m')" using popped_mono by_worker(2) by blast
  ultimately show ?thesis using p by (auto simp: stop_inv_def)
next
  case by_owner
  then show ?thesis using stop_inv_control [OF _ inv p] by blast
qed

lemma stop_inv_steps:
  assumes "(conc_step cfg env active)\<^sup>*\<^sup>* (f, m, b) (f', m', b')" and "conc_inv cfg env ss w (f, m, b)" and "env_ok cfg env"
    and "bounded (f', m', b')" and "stop_inv p m b"
  shows "stop_inv p m' b'" and "prefix (claimed m) (claimed m')"
proof -
  let ?P = "\<lambda>(f', m', b'). bounded (f', m', b') \<longrightarrow> stop_inv p m' b' \<and> prefix (claimed m) (claimed m')"
  have "?P y" if "(conc_step cfg env active)\<^sup>*\<^sup>* (f, m, b) y" for y
    using that
  proof (induction rule: rtranclp_induct)
    case base
    show ?case using assms(5) by simp
  next
    case (step y z)
    obtain fy my by' fz mz bz where yz: "y = (fy, my, by')" "z = (fz, mz, bz)" by (cases y; cases z)
    show ?case unfolding yz
    proof (clarify)
      assume bz: "bounded (fz, mz, bz)"
      have b: "bounded (fy, my, by')" using conc_step_bounded [OF step.hyps(2)] bz yz by simp
      then have "conc_inv cfg env ss w (fy, my, by')" using conc_steps_inv [OF step.hyps(1) assms(2,3)] yz by simp
      from popped_good(1) [OF this _ b] have inv: "mpsc_inv my" using assms(3) by (simp add: env_ok_def)
      have "length (claimed my) < 2 ^ 32" using b by (simp add: bounded_def)
      with step.IH b stop_inv_step [OF step.hyps(2) [unfolded yz] inv] conc_step_mono(2) [OF step.hyps(2) [unfolded yz]] yz
      show "stop_inv p mz bz \<and> prefix (claimed m) (claimed mz)" using prefix_order.trans by auto
    qed
  qed
  from this [OF assms(1)] assms(4) show "stop_inv p m' b'" and "prefix (claimed m) (claimed m')" by simp_all
qed

subsection \<open>Stopping always can complete\<close>

text \<open>A call of \<open>TryPop\<close> returns by its own accesses.\<close>

definition pop_returns :: "LogEntry mpsc \<Rightarrow> bool" where
  "pop_returns m \<longleftrightarrow> (\<exists>m1 r m'. (TryPop_act None)\<^sup>*\<^sup>* m m1 \<and> TryPop_act (Some r) m1 m')"

lemma pop_returns_later: "TryPop_act None m m1 \<Longrightarrow> pop_returns m1 \<Longrightarrow> pop_returns m"
  unfolding pop_returns_def by (meson converse_rtranclp_into_rtranclp)

lemma pop_returns: "pop_returns m"
proof -
  have fin: "pop_returns m" if "TryPop_act (Some r) m m'" for r m m' using that by (auto simp: pop_returns_def)
  have rel: "pop_returns m" if "cons m = CReleased x" for m x using fin [OF act_advance [OF that]] .
  have cop: "pop_returns m" if "cons m = CCopied x" for m x
    by (rule pop_returns_later [OF act_release [OF that] rel [of _ x]]) simp
  have mat: "pop_returns m" if "cons m = CMatched" for m
    by (rule pop_returns_later [OF act_copy [OF that] cop]) simp
  show ?thesis
  proof (cases "cons m")
    case CIdle
    show ?thesis
    proof (cases "sequence (slot_at (Ring_Concurrent.ring m) (read_pos (Ring_Concurrent.ring m))) = read_pos (Ring_Concurrent.ring m) + 1")
      case True
      show ?thesis by (rule pop_returns_later [OF act_match [OF CIdle True] mat]) simp
    qed (use fin act_empty [OF CIdle] in blast)
  qed (use mat cop rel in blast)+
qed

text \<open>
  One thread in its draining loop, all others resting: the state of the loop, the ring and the outputs. The loop
  is \<open>while (Drain(64) > 0) {}\<close> when it may begin again.
\<close>

inductive loop_step :: "'w env \<Rightarrow> drain_pc \<times> LogEntry mpsc \<times> 'w outputs \<Rightarrow> drain_pc \<times> LogEntry mpsc \<times> 'w outputs \<Rightarrow> bool"
  for env where
  inner: "drain_step env d m out d' m' out' \<Longrightarrow> loop_step env (d, m, out) (d', m', out')"
| again: "0 < n \<Longrightarrow> loop_step env (DRet n, m, out) (drain_enter 64 0, m, out)"

definition rest_ok ::
  "config \<Rightarrow> 'w env \<Rightarrow> 'w sink list \<Rightarrow> stdio \<times> 'w \<Rightarrow> drain_pc \<times> LogEntry mpsc \<times> 'w outputs \<Rightarrow> bool" where
  "rest_ok cfg env ss w s \<longleftrightarrow> (case s of (d, m, out) \<Rightarrow> mpsc_reachable (ring_junk cfg) m \<and> length (claimed m) < 2 ^ 32 \<and>
     list_all (good_entry cfg env) (claimed m) \<and> drain_inv env ss w d m out)"

abbreviation drain_run :: "'w env \<Rightarrow> drain_pc \<times> LogEntry mpsc \<times> 'w outputs \<Rightarrow> drain_pc \<times> LogEntry mpsc \<times> 'w outputs \<Rightarrow> bool" where
  "drain_run env \<equiv> (\<lambda>(d, m, out) (d', m', out'). drain_step env d m out d' m' out')\<^sup>*\<^sup>*"

fun drained :: "drain_pc \<Rightarrow> nat" where
  "drained (DPop k n) = n"
| "drained (DGot k n e) = Suc n"
| "drained (DRet n) = n"

abbreviation pending :: "LogEntry mpsc \<Rightarrow> nat" where
  "pending m \<equiv> length (claimed m) - length (popped m)"

lemma rest_okD:
  assumes "rest_ok cfg env ss w (d, m, out)" and "valid_config cfg"
  shows "mpsc_inv m" and "list_all (good_entry cfg env) (popped m)" and "length (popped m) \<le> length (claimed m)"
    and "list_all sink_inv (out_sinks out)" and "drain_inv env ss w d m out"
proof -
  show inv: "mpsc_inv m" using assms
    by (intro mpsc_reachable_inv [OF _ capacity_ring_junk]) (auto simp: rest_ok_def)
  then have p: "popped m = take (length (popped m)) (claimed m)" by (simp add: mpsc_inv_def inv_pos_def)
  then show "length (popped m) \<le> length (claimed m)" by (metis length_take min.cobounded1)
  show "list_all (good_entry cfg env) (popped m)"
    using assms(1) by (subst p) (auto simp: rest_ok_def list_all_iff dest: in_set_takeD)
  show "list_all sink_inv (out_sinks out)" "drain_inv env ss w d m out" using assms(1) by (simp_all add: rest_ok_def drain_inv_def)
qed

lemma rest_ok_step:
  assumes "drain_step env d m out d' m' out'" and "rest_ok cfg env ss w (d, m, out)" and "valid_config cfg"
  shows "rest_ok cfg env ss w (d', m', out')" and "length (popped m') + drained d = length (popped m) + drained d'"
proof -
  note frame = drain_step_frame [OF assms(1)] and inv = drain_step_inv [OF assms(1) rest_okD(5,2) [OF assms(2,3)]]
  then show "rest_ok cfg env ss w (d', m', out')" using assms(2) by (simp add: rest_ok_def)
  show "length (popped m') + drained d = length (popped m) + drained d'"
    using assms(1) by cases (auto simp: drain_enter_def dest: TryPop_act_frame(3))
qed

lemma drain_run_rest:
  assumes "drain_run env (d, m, out) (d', m', out')" and "rest_ok cfg env ss w (d, m, out)" and "valid_config cfg"
  shows "rest_ok cfg env ss w (d', m', out') \<and> length (popped m') + drained d = length (popped m) + drained d' \<and> claimed m' = claimed m"
  using assms(1)
proof (induction "(d', m', out')" arbitrary: d' m' out' rule: rtranclp_induct)
  case base
  show ?case using assms(2) by simp
next
  case (step y)
  obtain d1 m1 out1 where y: "y = (d1, m1, out1)" by (cases y)
  with step rest_ok_step [of env d1 m1 out1 d' m' out' cfg ss w] drain_step_frame(2) [of env d1 m1 out1 d' m' out'] assms(3)
  show ?case by auto
qed

lemma drain_run_pop: "(TryPop_act None)\<^sup>*\<^sup>* m m1 \<Longrightarrow> drain_run env (DPop k n, m, out) (DPop k n, m1, out)"
  by (induction rule: rtranclp_induct) (auto intro: drain_step.pop_run rtranclp.rtrancl_into_rtrancl)

text \<open>The turns of the loop in \<open>Drain\<close>: the dispatch of an entry, and the call of \<open>TryPop\<close> with it.\<close>

lemma dispatch_turn:
  assumes ok: "rest_ok cfg env ss w (DGot k n e, m, out)" and cfg: "valid_config cfg"
  shows "\<exists>out'. drain_run env (DGot k n e, m, out) (drain_enter k (Suc n), m, out')"
proof -
  have "popped m = written (out_events out) @ [e]" using ok by (simp add: rest_ok_def drain_inv_def)
  then have "good_entry cfg env e" using rest_okD(2) [OF ok cfg] by simp
  then obtain ss1 w1 where "Dispatch (log_sinks env) e (out_sinks out) (out_world out) = Some (ss1, w1)"
    using all_sinks.Dispatch_total [OF rest_okD(4) [OF ok cfg]] by blast
  from drain_step.dispatch [OF this, of k n m] show ?thesis by (blast intro: r_into_rtranclp)
qed

lemma drain_turn:
  assumes ok: "rest_ok cfg env ss w (DPop k n, m, out)" and cfg: "valid_config cfg"
  shows "\<exists>d m' out'. drain_run env (DPop k n, m, out) (d, m', out') \<and>
    (d = DRet n \<or> d = drain_enter k (Suc n) \<and> pending m' < pending m)"
proof -
  obtain m1 r m' where run: "drain_run env (DPop k n, m, out) (DPop k n, m1, out)" and pop: "TryPop_act (Some r) m1 m'"
    using pop_returns [of m] drain_run_pop [of m _ env k n out] unfolding pop_returns_def by blast
  show ?thesis
  proof (cases r)
    case None
    then have "drain_step env (DPop k n) m1 out (DRet n) m' out" using pop by (intro drain_step.pop_empty) simp
    with run show ?thesis by (metis (mono_tags, lifting) case_prod_conv rtranclp.rtrancl_into_rtrancl)
  next
    case (Some e)
    then have "drain_step env (DPop k n) m1 out (DGot k n e) m' out" using pop by (intro drain_step.pop_entry) simp
    with run have run2: "drain_run env (DPop k n, m, out) (DGot k n e, m', out)"
      by (metis (mono_tags, lifting) case_prod_conv rtranclp.rtrancl_into_rtrancl)
    note ok2 = drain_run_rest [OF run2 ok cfg]
    then obtain out' where "drain_run env (DGot k n e, m', out) (drain_enter k (Suc n), m', out')"
      using dispatch_turn cfg by blast
    with run2 have "drain_run env (DPop k n, m, out) (drain_enter k (Suc n), m', out')" by (rule rtranclp_trans)
    moreover have "pending m' < pending m" using ok2 rest_okD(3) [OF conjunct1 [OF ok2] cfg] by auto
    ultimately show ?thesis by blast
  qed
qed

lemma drain_returns_pop:
  "rest_ok cfg env ss w (drain_enter k n, m, out) \<Longrightarrow> valid_config cfg \<Longrightarrow>
   \<exists>j m' out'. drain_run env (drain_enter k n, m, out) (DRet j, m', out')"
proof (induction "pending m" arbitrary: n m out rule: less_induct)
  case less
  show ?case
  proof (cases "n < k")
    case True
    then have d: "drain_enter k n = DPop k n" by (simp add: drain_enter_def)
    obtain d1 m1 out1 where 1: "drain_run env (DPop k n, m, out) (d1, m1, out1)"
      "d1 = DRet n \<or> d1 = drain_enter k (Suc n) \<and> pending m1 < pending m"
      using drain_turn [OF less.prems(1) [unfolded d] less.prems(2)] by blast
    have ok1: "rest_ok cfg env ss w (d1, m1, out1)" using drain_run_rest [OF 1(1) less.prems(1) [unfolded d] less.prems(2)] by blast
    from 1(2) show ?thesis unfolding d
    proof
      assume "d1 = DRet n"
      with 1(1) show "\<exists>j m' out'. drain_run env (DPop k n, m, out) (DRet j, m', out')" by blast
    next
      assume n: "d1 = drain_enter k (Suc n) \<and> pending m1 < pending m"
      then obtain j m' out' where "drain_run env (d1, m1, out1) (DRet j, m', out')"
        using less.hyps [of m1 "Suc n" out1] ok1 less.prems(2) by blast
      with 1(1) show "\<exists>j m' out'. drain_run env (DPop k n, m, out) (DRet j, m', out')" by (meson rtranclp_trans)
    qed
  qed (auto simp: drain_enter_def)
qed

lemma drain_returns:
  assumes ok: "rest_ok cfg env ss w (d, m, out)" and cfg: "valid_config cfg"
  shows "\<exists>j m' out'. drain_run env (d, m, out) (DRet j, m', out')"
proof (cases d)
  case (DPop k n)
  show ?thesis
  proof (cases "n < k")
    case True
    with drain_returns_pop [of cfg env ss w k n m out] ok cfg DPop show ?thesis by (simp add: drain_enter_def)
  next
    case False
    obtain d1 m1 out1 where "drain_run env (d, m, out) (d1, m1, out1)" "d1 = DRet n \<or> d1 = drain_enter k (Suc n)"
      using drain_turn [OF ok [unfolded DPop] cfg] DPop by blast
    with False show ?thesis by (auto simp: drain_enter_def)
  qed
next
  case (DGot k n e)
  obtain out1 where 1: "drain_run env (d, m, out) (drain_enter k (Suc n), m, out1)"
    using dispatch_turn [OF ok [unfolded DGot] cfg] DGot by blast
  then have "rest_ok cfg env ss w (drain_enter k (Suc n), m, out1)" using drain_run_rest [OF 1 ok cfg] by blast
  from drain_returns_pop [OF this cfg] 1 show ?thesis by (meson rtranclp_trans)
qed blast

text \<open>The loop \<open>while (Drain(64) > 0) {}\<close> ends.\<close>

abbreviation loop_run :: "'w env \<Rightarrow> drain_pc \<times> LogEntry mpsc \<times> 'w outputs \<Rightarrow> drain_pc \<times> LogEntry mpsc \<times> 'w outputs \<Rightarrow> bool" where
  "loop_run env \<equiv> (loop_step env)\<^sup>*\<^sup>*"

lemma drain_run_loop: "drain_run env s s' \<Longrightarrow> loop_run env s s'"
  by (erule rtranclp_mono [THEN predicate2D, rotated]) (auto intro: loop_step.inner)

lemma loop_ends:
  "rest_ok cfg env ss w (DRet n, m, out) \<Longrightarrow> valid_config cfg \<Longrightarrow>
   \<exists>m' out'. loop_run env (DRet n, m, out) (DRet 0, m', out')"
proof (induction "pending m" arbitrary: n m out rule: less_induct)
  case less
  show ?case
  proof (cases "n = 0")
    case False
    have ok0: "rest_ok cfg env ss w (drain_enter 64 0, m, out)"
      using less.prems(1) drain_inv_idle [of env ss w "DRet n" m out "drain_enter 64 0"] by (simp add: rest_ok_def)
    obtain j m1 out1 where 1: "drain_run env (drain_enter 64 0, m, out) (DRet j, m1, out1)"
      using drain_returns [OF ok0 less.prems(2)] by blast
    note ok1 = drain_run_rest [OF 1 ok0 less.prems(2)]
    have start: "loop_run env (DRet n, m, out) (DRet j, m1, out1)"
      using loop_step.again [of n env m out] drain_run_loop [OF 1] False by (simp add: converse_rtranclp_into_rtranclp)
    show ?thesis
    proof (cases "j = 0")
      case False
      then have "pending m1 < pending m"
        using ok1 rest_okD(3) [OF conjunct1 [OF ok1] less.prems(2)] by (auto simp: drain_enter_def)
      with less.hyps [OF this conjunct1 [OF ok1] less.prems(2)] start show ?thesis by (meson rtranclp_trans)
    qed (use start in blast)
  qed blast
qed

lemma loop_finishes:
  assumes "rest_ok cfg env ss w (d, m, out)" and "valid_config cfg"
  shows "\<exists>m' out'. loop_run env (d, m, out) (DRet 0, m', out')"
proof -
  obtain j m1 out1 where 1: "drain_run env (d, m, out) (DRet j, m1, out1)" using drain_returns [OF assms] by blast
  with loop_ends [OF conjunct1 [OF drain_run_rest [OF 1 assms]] assms(2)] drain_run_loop [OF 1]
  show ?thesis by (meson rtranclp_trans)
qed

text \<open>Runs of the worker and the owner while the logging threads rest.\<close>

abbreviation rear_run ::
  "config \<Rightarrow> 'w env \<Rightarrow> 'w rear \<times> LogEntry mpsc \<Rightarrow> 'w rear \<times> LogEntry mpsc \<Rightarrow> bool" where
  "rear_run cfg env \<equiv> (\<lambda>(b, m) (b', m'). worker_step env b m b' m' \<or> control_step cfg env b m b' m')\<^sup>*\<^sup>*"

lemma rear_run_step:
  "worker_step env b m b' m' \<or> control_step cfg env b m b' m' \<Longrightarrow> rear_run cfg env (b', m') s \<Longrightarrow> rear_run cfg env (b, m) s"
  by (rule converse_rtranclp_into_rtranclp) auto

lemma rear_run_conc:
  assumes "rear_run cfg env (b, m) (b', m')"
  shows "(conc_step cfg env active)\<^sup>*\<^sup>* (f, m, b) (f, m', b')" and "claimed m' = claimed m"
proof -
  have "(conc_step cfg env active)\<^sup>*\<^sup>* (f, m, b) (f, m', b') \<and> claimed m' = claimed m"
    using assms
  proof (induction "(b', m')" arbitrary: b' m' rule: rtranclp_induct)
    case (step y)
    obtain b1 m1 where y: "y = (b1, m1)" by (cases y)
    then have s: "worker_step env b1 m1 b' m' \<or> control_step cfg env b1 m1 b' m'" using step(2) by simp
    then have "conc_step cfg env active (f, m1, b1) (f, m', b')" by (auto intro: conc_step.intros)
    with step(3) [OF y] rear_step_frame(2) [OF s] show ?case by (auto intro: rtranclp.rtrancl_into_rtrancl)
  qed simp
  then show "(conc_step cfg env active)\<^sup>*\<^sup>* (f, m, b) (f, m', b')" and "claimed m' = claimed m" by simp_all
qed

lemma rear_run_inv:
  assumes "rear_run cfg env (b, m) (b', m')" and "conc_inv cfg env ss w (f, m, b)" and "env_ok cfg env" and "bounded (f, m, b)"
  shows "conc_inv cfg env ss w (f, m', b')" and "bounded (f, m', b')"
proof -
  show "bounded (f, m', b')" using assms(4) rear_run_conc(2) [OF assms(1)] by (simp add: bounded_def)
  with conc_steps_inv [OF rear_run_conc(1) [OF assms(1)] assms(2,3)] show "conc_inv cfg env ss w (f, m', b')" .
qed

lemma pc_same: "wk b = x \<Longrightarrow> b\<lparr>wk := x\<rparr> = b" "own b = y \<Longrightarrow> b\<lparr>own := y\<rparr> = b"
  by (cases b; simp)+

lemma pc_swap: "b\<lparr>rear_out := out, wk := x\<rparr> = b\<lparr>wk := x, rear_out := out\<rparr>"
  "b\<lparr>rear_out := out, own := y\<rparr> = b\<lparr>own := y, rear_out := out\<rparr>"
  by (cases b; simp)+

lemma round_run:
  assumes "drain_run env (d, m, rear_out b) (d', m', out')" and "wk b = WDrain i d"
  shows "rear_run cfg env (b, m) (b\<lparr>wk := WDrain i d', rear_out := out'\<rparr>, m')"
  using assms(1)
proof (induction "(d', m', out')" arbitrary: d' m' out' rule: rtranclp_induct)
  case base
  then show ?case by (simp add: pc_same(1) [OF assms(2)])
next
  case (step y)
  obtain d1 m1 out1 where y: "y = (d1, m1, out1)" by (cases y)
  then have "worker_step env (b\<lparr>wk := WDrain i d1, rear_out := out1\<rparr>) m1 (b\<lparr>wk := WDrain i d', rear_out := out'\<rparr>) m'"
    using step(2) worker_step.round_step [of "b\<lparr>wk := WDrain i d1, rear_out := out1\<rparr>" i d1 env m1 d' m' out'] by simp
  with step(3) [OF y] show ?case by (auto intro: rtranclp.rtrancl_into_rtrancl)
qed

lemma final_run:
  assumes "loop_run env (d, m, rear_out b) (d', m', out')" and "wk b = WFinal d"
  shows "rear_run cfg env (b, m) (b\<lparr>wk := WFinal d', rear_out := out'\<rparr>, m')"
  using assms(1)
proof (induction "(d', m', out')" arbitrary: d' m' out' rule: rtranclp_induct)
  case base
  then show ?case by (simp add: pc_same(1) [OF assms(2)])
next
  case (step y)
  obtain d1 m1 out1 where y: "y = (d1, m1, out1)" by (cases y)
  let ?b = "b\<lparr>wk := WFinal d1, rear_out := out1\<rparr>"
  from step(2) have "worker_step env ?b m1 (b\<lparr>wk := WFinal d', rear_out := out'\<rparr>) m'" unfolding y
    using worker_step.final_step [of ?b d1 env m1 d' m' out'] worker_step.final_again [of ?b _ env m1] by cases (auto simp: pc_swap)
  with step(3) [OF y] show ?case by (auto intro: rtranclp.rtrancl_into_rtrancl)
qed

lemma stop_run:
  assumes "loop_run env (d, m, rear_out b) (d', m', out')" and "own b = ODrain d"
  shows "rear_run cfg env (b, m) (b\<lparr>own := ODrain d', rear_out := out'\<rparr>, m')"
  using assms(1)
proof (induction "(d', m', out')" arbitrary: d' m' out' rule: rtranclp_induct)
  case base
  then show ?case by (simp add: pc_same(2) [OF assms(2)])
next
  case (step y)
  obtain d1 m1 out1 where y: "y = (d1, m1, out1)" by (cases y)
  let ?b = "b\<lparr>own := ODrain d1, rear_out := out1\<rparr>"
  from step(2) have "control_step cfg env ?b m1 (b\<lparr>own := ODrain d', rear_out := out'\<rparr>) m'" unfolding y
    using control_step.stop_drain [of ?b d1 env m1 d' m' out' cfg] control_step.stop_again [of ?b _ cfg env m1] by cases (auto simp: pc_swap)
  with step(3) [OF y] show ?case by (auto intro: rtranclp.rtrancl_into_rtrancl)
qed

lemma conc_rest_ok:
  assumes "conc_inv cfg env ss w (f, m, b)" and "bounded (f, m, b)" and "drain_of b = d"
  shows "rest_ok cfg env ss w (d, m, rear_out b)"
  using assms by (auto simp: conc_inv_def bounded_def rest_ok_def rear_inv_def front_wf_def list_all_iff entry_made_def)

text \<open>The worker ends once the flag is false, and the owner gets to the flushing of the sinks.\<close>

lemma stop_from_drain:
  assumes "conc_inv cfg env ss w (f, m, b)" and "env_ok cfg env" and "bounded (f, m, b)" and own: "own b = ODrain d"
  shows "\<exists>m' b'. rear_run cfg env (b, m) (b', m') \<and> own b' = OFlush"
proof -
  have "wk b = WNone" using assms(1) own by (simp add: conc_inv_def rear_inv_def lifecycle_def)
  then have "rest_ok cfg env ss w (d, m, rear_out b)" using conc_rest_ok [OF assms(1,3)] own by simp
  then obtain m' out' where run: "loop_run env (d, m, rear_out b) (DRet 0, m', out')"
    using loop_finishes assms(2) unfolding env_ok_def by blast
  let ?b = "b\<lparr>own := ODrain (DRet 0), rear_out := out'\<rparr>"
  have "control_step cfg env ?b m' (?b\<lparr>own := OFlush\<rparr>) m'" by (rule control_step.stop_drained) simp
  with stop_run [OF run own] have "rear_run cfg env (b, m) (?b\<lparr>own := OFlush\<rparr>, m')"
    by (auto intro: rtranclp.rtrancl_into_rtrancl)
  then show ?thesis by (intro exI [of _ m'] exI [of _ "?b\<lparr>own := OFlush\<rparr>"]) simp
qed

lemma final_exit:
  assumes "conc_inv cfg env ss w (f, m, b)" and "env_ok cfg env" and "bounded (f, m, b)" and wk: "wk b = WFinal d"
  shows "\<exists>m' b'. rear_run cfg env (b, m) (b', m') \<and> wk b' = WExit \<and> own b' = own b"
proof -
  obtain m' out' where run: "loop_run env (d, m, rear_out b) (DRet 0, m', out')"
    using loop_finishes [OF conc_rest_ok [OF assms(1,3)], of d] wk assms(2) unfolding env_ok_def by auto
  let ?b = "b\<lparr>wk := WFinal (DRet 0), rear_out := out'\<rparr>"
  have "worker_step env ?b m' (?b\<lparr>wk := WExit\<rparr>) m'" by (rule worker_step.final_end) simp
  with final_run [OF run wk] have "rear_run cfg env (b, m) (?b\<lparr>wk := WExit\<rparr>, m')"
    by (auto intro: rtranclp.rtrancl_into_rtrancl)
  then show ?thesis by (intro exI [of _ m'] exI [of _ "?b\<lparr>wk := WExit\<rparr>"]) simp
qed

lemma test_exit:
  assumes inv: "conc_inv cfg env ss w (f, m, b)" and env: "env_ok cfg env" and bd: "bounded (f, m, b)"
    and wk: "wk b = WTest i" and "\<not> b_running b"
  shows "\<exists>m' b'. rear_run cfg env (b, m) (b', m') \<and> wk b' = WExit \<and> own b' = own b"
proof -
  let ?b = "b\<lparr>wk := WFinal (drain_enter 64 0)\<rparr>"
  have run: "rear_run cfg env (b, m) (?b, m)"
    using worker_step.see_stopped [OF wk assms(5), of env m] by (auto intro: r_into_rtranclp)
  note inv' = rear_run_inv [OF run inv env bd]
  obtain m' b' where "rear_run cfg env (?b, m) (b', m')" "wk b' = WExit" "own b' = own b"
    using final_exit [OF inv'(1) env inv'(2), of "drain_enter 64 0"] by auto
  with run show ?thesis by (meson rtranclp_trans)
qed

lemma worker_exit:
  assumes inv: "conc_inv cfg env ss w (f, m, b)" and env: "env_ok cfg env" and bd: "bounded (f, m, b)"
    and "wk b \<noteq> WNone" and nr: "\<not> b_running b"
  shows "\<exists>m' b'. rear_run cfg env (b, m) (b', m') \<and> wk b' = WExit \<and> own b' = own b"
proof (cases "wk b")
  case (WDrain i d)
  obtain n m' out' where run: "drain_run env (d, m, rear_out b) (DRet n, m', out')"
    using drain_returns [OF conc_rest_ok [OF inv bd], of d] WDrain env unfolding env_ok_def by auto
  let ?b = "b\<lparr>wk := WDrain i (DRet n), rear_out := out'\<rparr>"
  let ?b1 = "?b\<lparr>wk := WTest (fst (idle_policy n i))\<rparr>"
  have "worker_step env ?b m' ?b1 m'" by (rule worker_step.round_end) simp
  with round_run [OF run WDrain] have run1: "rear_run cfg env (b, m) (?b1, m')"
    by (auto intro: rtranclp.rtrancl_into_rtrancl)
  note inv' = rear_run_inv [OF run1 inv env bd]
  obtain m2 b2 where "rear_run cfg env (?b1, m') (b2, m2)" "wk b2 = WExit" "own b2 = own b"
    using test_exit [OF inv'(1) env inv'(2), of "fst (idle_policy n i)"] nr by auto
  with run1 show ?thesis by (meson rtranclp_trans)
next
  case WExit
  then show ?thesis by blast
qed (use assms test_exit [OF inv env bd] final_exit [OF inv env bd] in auto)

lemma stop_completes:
  assumes inv: "conc_inv cfg env ss w (f, m, b)" and env: "env_ok cfg env" and bd: "bounded (f, m, b)"
    and own: "own b = OJoin"
  shows "\<exists>m' b'. rear_run cfg env (b, m) (b', m') \<and> own b' = OFlush"
proof -
  have nr: "\<not> b_running b" using inv own by (simp add: conc_inv_def rear_inv_def lifecycle_def)
  obtain m1 b1 where 1: "rear_run cfg env (b, m) (b1, m1)" "wk b1 \<in> {WNone, WExit}" "own b1 = OJoin"
  proof (cases "wk b = WNone")
    case True
    with own show ?thesis by (intro that [of b m]) simp_all
  next
    case False
    from worker_exit [OF inv env bd False nr] own show ?thesis by (auto intro: that)
  qed
  then obtain b2 where "control_step cfg env b1 m1 b2 m1" and own2: "own b2 = ODrain (drain_enter 64 0)"
    using control_step.join_worker [of b1 cfg env m1] control_step.join_none [of b1 cfg env m1] by fastforce
  with 1(1) have run: "rear_run cfg env (b, m) (b2, m1)" by (auto intro: rtranclp.rtrancl_into_rtrancl)
  note inv' = rear_run_inv [OF run inv env bd]
  from stop_from_drain [OF inv'(1) env inv'(2) own2] run show ?thesis by (meson rtranclp_trans)
qed

subsection \<open>No thread gets stuck\<close>

lemma caller_enabled:
  assumes wf: "front_wf cfg env f m" and cfg: "valid_config cfg" and "callers f t \<noteq> LOut"
  shows "\<exists>f' m'. front_step cfg active t f m f' m'"
proof (cases "callers f t")
  case (LNumbered c n)
  then show ?thesis using build_enabled [OF wf cfg] by (blast intro: front_step.fill)
next
  case (LPushing n)
  then have "prod m t \<noteq> PIdle" using front_wfD(3) [OF wf, of t] by auto
  then obtain r m' where act: "TryPush_act t r m m'" using TryPush_act_enabled by blast
  consider "r = None" | "r = Some True" | "r = Some False" by (cases r) auto
  then show ?thesis using act LPushing by cases (blast intro: front_step.intros)+
qed (use assms in \<open>blast intro: front_step.intros\<close>)+

lemma drain_enabled:
  assumes "rest_ok cfg env ss w (d, m, out)" and "valid_config cfg" and "\<And>n. d \<noteq> DRet n"
  shows "\<exists>d' m' out'. drain_step env d m out d' m' out'"
proof (cases d)
  case (DPop k n)
  obtain r m' where act: "TryPop_act r m m'" using TryPop_act_enabled by blast
  consider "r = None" | "r = Some None" | e where "r = Some (Some e)" by (cases r) auto
  then show ?thesis unfolding DPop using act by cases (blast intro: drain_step.intros)+
next
  case (DGot k n e)
  from dispatch_turn [OF assms(1) [unfolded DGot] assms(2)] obtain out' where
    "drain_run env (DGot k n e, m, out) (drain_enter k (Suc n), m, out')" by blast
  then show ?thesis unfolding DGot by (cases rule: converse_rtranclpE) (auto simp: drain_enter_def split: if_splits)
qed (use assms(3) in blast)

lemma worker_enabled:
  assumes inv: "conc_inv cfg env ss w (f, m, b)" and cfg: "valid_config cfg" and bd: "bounded (f, m, b)"
    and "wk b \<notin> {WNone, WExit}"
  shows "\<exists>b' m'. worker_step env b m b' m'"
proof (cases "wk b")
  case (WTest i)
  then show ?thesis by (cases "b_running b") (blast intro: worker_step.intros)+
next
  case (WDrain i d)
  then have ok: "rest_ok cfg env ss w (d, m, rear_out b)" using conc_rest_ok [OF inv bd] by simp
  show ?thesis
  proof (cases "\<exists>n. d = DRet n")
    case False
    then show ?thesis using drain_enabled [OF ok cfg] WDrain by (blast intro: worker_step.round_step)
  qed (use WDrain in \<open>blast intro: worker_step.round_end\<close>)
next
  case (WFinal d)
  then have ok: "rest_ok cfg env ss w (d, m, rear_out b)" using conc_rest_ok [OF inv bd] by simp
  consider n where "d = DRet n" "0 < n" | "d = DRet 0" | "\<And>n. d \<noteq> DRet n" by (metis gr0I)
  then show ?thesis using WFinal drain_enabled [OF ok cfg] by cases (blast intro: worker_step.intros)+
qed (use assms(4) in auto)

lemma control_enabled:
  assumes inv: "conc_inv cfg env ss w (f, m, b)" and cfg: "valid_config cfg" and bd: "bounded (f, m, b)" and "own b \<noteq> OOut"
  shows "(\<exists>b' m'. control_step cfg env b m b' m') \<or> own b = OJoin \<and> wk b \<notin> {WNone, WExit}"
proof -
  have wk: "own b \<noteq> OJoin \<Longrightarrow> wk b = WNone" using inv assms(4) by (auto simp: conc_inv_def rear_inv_def lifecycle_def)
  show ?thesis
  proof (cases "own b")
    case OJoin
    then show ?thesis by (cases "wk b") (auto intro: control_step.intros)
  next
    case (ODrain d)
    then have ok: "rest_ok cfg env ss w (d, m, rear_out b)" using conc_rest_ok [OF inv bd] wk by simp
    consider n where "d = DRet n" "0 < n" | "d = DRet 0" | "\<And>n. d \<noteq> DRet n" by (metis gr0I)
    then show ?thesis using ODrain drain_enabled [OF ok cfg] by cases (blast intro: control_step.intros)+
  next
    case OFlush
    then show ?thesis using control_step.stop_flush [OF OFlush surjective_pairing] by blast
  next
    case (OManual d)
    then have ok: "rest_ok cfg env ss w (d, m, rear_out b)" using conc_rest_ok [OF inv bd] wk by simp
    consider n where "d = DRet n" | "\<And>n. d \<noteq> DRet n" by metis
    then show ?thesis using OManual drain_enabled [OF ok cfg] by cases (blast intro: control_step.intros)+
  qed (use assms(4) in blast)
qed

subsection \<open>A concrete run\<close>

text \<open>A thread that runs alone completes its logging call when the next slot of the ring is free.\<close>

lemma solo_log:
  assumes wf: "front_wf cfg env f m" and cfg: "valid_config cfg" and env: "localtime_ok (fst (env_tz env))" "length (env_junk env) = 128"
    and bound: "length (made f) < 2 ^ 64" and out: "callers f t = LOut" and c: "wf_call c" "message_fits cfg (call_msg c)"
    and pass: "active \<le> level_value (call_level c)" "f_level f \<le> call_level c"
    and free: "sequence (slot_at (Ring_Concurrent.ring m) (write_pos (Ring_Concurrent.ring m))) = write_pos (Ring_Concurrent.ring m)"
  shows "\<exists>f' m' e. (conc_step cfg env active)\<^sup>*\<^sup>* (f, m, b) (f', m', b) \<and> callers f' = callers f \<and> prod m' = prod m \<and>
    claimed m' = claimed m @ [e] \<and> made f' = made f @ [(t, c)] \<and> dropped f' = dropped f"
proof -
  let ?w = "write_pos (Ring_Concurrent.ring m)" and ?run = "(conc_step cfg env active)\<^sup>*\<^sup>*"
  let ?f1 = "caller_goto f t (LEntered c)"
  let ?f2 = "?f1\<lparr>callers := (callers ?f1)(t := LNumbered c (f_sequence ?f1)), f_sequence := f_sequence ?f1 + 1, made := made ?f1 @ [(t, c)]\<rparr>"
  have 1: "front_step cfg active t f m ?f1 m" by (rule front_step.level_test [OF out c pass])
  have 2: "front_step cfg active t ?f1 m ?f2 m" by (rule front_step.fetch_number) simp
  have wf2: "front_wf cfg env ?f2 m" using front_wf_step [OF 2 front_wf_step [OF 1 wf]] cfg env bound by simp
  obtain e tls' where b: "build_entry cfg (f_ctx ?f2) c (f_sequence ?f1) (f_tls ?f2 t) = Some (e, tls')"
    using build_enabled [OF wf2 cfg, of t c "f_sequence ?f1"] by auto
  let ?f3 = "?f2\<lparr>callers := (callers ?f2)(t := LFilled e), f_tls := (f_tls ?f2)(t := tls')\<rparr>"
  have 3: "front_step cfg active t ?f2 m ?f3 m" by (rule front_step.fill [OF _ b]) simp
  let ?f4 = "caller_goto ?f3 t (LPushing (sequence_id e))"
  define m1 where "m1 = TryPush_call t e m"
  define m2 where "m2 = goto m1 t (PSeq e ?w ?w)"
  define m3 where "m3 = claim_pos m2 t e ?w"
  define m4 where "m4 = write_slot m3 t e ?w"
  define m5 where "m5 = publish_slot m4 t ?w"
  note ms = m1_def m2_def m3_def m4_def m5_def TryPush_call_def
  have 4: "front_step cfg active t ?f3 m ?f4 m1" unfolding m1_def by (rule front_step.push_call) simp
  have "TryPush_act t None m1 m2" using act_load [of m1 t e ?w] free by (simp add: ms)
  moreover have "TryPush_act t None m2 m3" unfolding m3_def by (rule act_claim) (simp_all add: ms)
  moreover have "TryPush_act t None m3 m4" unfolding m4_def by (rule act_write) (simp add: ms)
  ultimately have 5: "front_step cfg active t ?f4 m1 ?f4 m2" "front_step cfg active t ?f4 m2 ?f4 m3" "front_step cfg active t ?f4 m3 ?f4 m4"
    by (auto intro!: front_step.push_run)
  have 6: "front_step cfg active t ?f4 m4 (caller_goto ?f4 t LOut) m5"
    by (rule front_step.push_true) (simp, simp add: ms act_publish)
  note lift = conc_step.by_caller [where env = env and b = b]
  have "?run (f, m, b) (caller_goto ?f4 t LOut, m5, b)"
    using lift [OF 1] lift [OF 2] lift [OF 3] lift [OF 4] lift [OF 5(1)] lift [OF 5(2)] lift [OF 5(3)] lift [OF 6]
    by (meson converse_rtranclp_into_rtranclp rtranclp.rtrancl_refl)
  moreover have "prod m t = PIdle" using front_wfD(3) [OF wf, of t] out by simp
  ultimately show ?thesis using out
    by (intro exI [of _ "caller_goto ?f4 t LOut"] exI [of _ m5] exI [of _ e]) (simp add: ms fun_eq_iff)
qed

text \<open>A fresh logger, one call by thread 1, and the owner about to join the worker.\<close>

lemma demo_conc_run_any:
  assumes inv: "list_all sink_inv ss"
  shows "\<exists>f m b e. conc_reach (platform_config False) demo_env 0 ss w (f, m, b) \<and> own b = OJoin \<and>
     claimed m = [e] \<and> made f = [(1, demo_call)] \<and> dropped f = [] \<and> (\<forall>t. callers f t = LOut) \<and> (\<forall>t. prod m t = PIdle)"
proof -
  let ?cfg = "platform_config False" and ?i = "conc_init (platform_config False) ss w"
  let ?run = "(conc_step (platform_config False) demo_env 0)\<^sup>*\<^sup>*"
  let ?f = "front_init ?cfg" and ?m = "mpsc_init (ring_junk ?cfg)" and ?b = "rear_init ss w"
  have wf: "front_wf ?cfg demo_env ?f ?m"
    using conc_init_inv [OF valid_platform_config inv, of False demo_env] by (simp add: conc_inv_def conc_init_def)
  have "0 < length (ring_junk ?cfg)" using capacity_okD(1) [OF capacity_ring_junk [OF valid_platform_config [of False]]] by linarith
  then have free: "sequence (slot_at (Ring_Concurrent.ring ?m) (write_pos (Ring_Concurrent.ring ?m))) = write_pos (Ring_Concurrent.ring ?m)"
    using slot_at_init [OF capacity_ring_junk [OF valid_platform_config [of False]], of 0] by (simp add: mpsc_init_def) (simp add: MPSCRingBuffer_init_def)
  have call: "wf_call demo_call" "message_fits ?cfg (call_msg demo_call)" using demo_call_good by (simp_all add: good_call_def)
  obtain f m e where 1: "?run (?f, ?m, ?b) (f, m, ?b)" "callers f = callers ?f" "prod m = prod ?m" "claimed m = claimed ?m @ [e]"
    "made f = made ?f @ [(1, demo_call)]" "dropped f = dropped ?f"
    using solo_log [OF wf valid_platform_config demo_env_ok _ _ call _ _ free, of 1 0 ?b]
    by (auto simp: front_init_def demo_call_def)
  obtain b1 where b1: "control_step ?cfg demo_env ?b m b1 m" "own b1 = OOut" "b_started b1"
    using control_step.start_worker [of ?b ?cfg demo_env m] by (auto simp: rear_init_def)
  have 2: "control_step ?cfg demo_env b1 m (b1\<lparr>b_running := False, own := OJoin\<rparr>) m" by (rule control_step.stop_flag [OF b1(2,3)])
  have "?run (f, m, ?b) (f, m, b1\<lparr>b_running := False, own := OJoin\<rparr>)"
    using conc_step.by_owner [OF b1(1)] conc_step.by_owner [OF 2] by (meson converse_rtranclp_into_rtranclp rtranclp.rtrancl_refl)
  with 1(1) have "conc_reach ?cfg demo_env 0 ss w (f, m, b1\<lparr>b_running := False, own := OJoin\<rparr>)"
    unfolding conc_reach_def conc_init_def by (rule rtranclp_trans)
  with 1 show ?thesis
    by (intro exI [of _ f] exI [of _ m] exI [of _ "b1\<lparr>b_running := False, own := OJoin\<rparr>"] exI [of _ e])
      (simp add: front_init_def mpsc_init_def)
qed

lemmas demo_conc_run = demo_conc_run_any [OF demo_memory_inv, of demo_world]

lemma demo_conc_env: "env_ok (platform_config False) demo_env"
  using valid_platform_config demo_env_ok by (simp add: env_ok_def)

subsection \<open>Properties\<close>

text \<open>
  C2: delivery under concurrency. In every reachable state of any number of logging threads, the worker and the
  owner, the entries claimed in the ring are, in this order, those the sinks were given, the one in the hands of the
  thread that drains, and those still pending; the sinks and the world are exactly what these writes and the flushes
  between them make of them. Each entry is the one its call asked for, and the entries of one thread stand in the
  order in which the thread logged them.
\<close>

theorem concurrent_delivery:
  assumes "conc_reach cfg env active ss w (f, m, b)" and "env_ok cfg env" and "list_all sink_inv ss"
    and "length (claimed m) < 2 ^ 32" and "length (made f) < 2 ^ 64"
  shows "(\<exists>rest. claimed m = written (out_events (rear_out b)) @ in_hand (drain_of b) @ rest) \<and>
    replay (log_sinks env) (out_events (rear_out b)) ss w = Some (out_sinks (rear_out b), out_world (rear_out b)) \<and>
    (\<forall>e\<in>set (claimed m). \<exists>ctx tls. unat (sequence_id e) < length (made f) \<and>
       entry_of_call cfg ctx tls (snd (made f ! unat (sequence_id e))) (sequence_id e) e) \<and>
    (\<forall>t. sorted_wrt (<) (filter (\<lambda>n. fst (made f ! n) = t) (map (unat \<circ> sequence_id) (claimed m))))"
proof -
  have bd: "bounded (f, m, b)" using assms(4,5) by (simp add: bounded_def)
  note inv = conc_reach_inv [OF assms(1-3) bd]
  have d: "written (out_events (rear_out b)) @ in_hand (drain_of b) = popped m"
    "replay (log_sinks env) (out_events (rear_out b)) ss w = Some (out_sinks (rear_out b), out_world (rear_out b))"
    using inv by (simp_all add: conc_inv_def rear_inv_def drain_inv_def)
  have "claimed m = popped m @ drop (length (popped m)) (claimed m)"
    using popped_good(2) [OF inv _ bd] assms(2) by (metis append_take_drop_id env_ok_def)
  then have "\<exists>rest. claimed m = written (out_events (rear_out b)) @ in_hand (drain_of b) @ rest"
    unfolding d(1) [symmetric] append_assoc by blast
  moreover have "\<forall>t. sorted_wrt (<) (filter (\<lambda>n. fst (made f ! n) = t) (map (unat \<circ> sequence_id) (claimed m)))"
    using inv by (simp add: conc_inv_def front_numbers_def order_ok_def)
  moreover have "\<forall>e\<in>set (claimed m). entry_made cfg env (made f) e" using inv by (simp add: conc_inv_def front_wf_def)
  ultimately show ?thesis using d(2) by (auto simp: entry_made_def)
qed

theorem concurrent_delivery_witness:
  "\<exists>f m b e. conc_reach (platform_config False) demo_env 0 [demo_memory] demo_world (f, m, b) \<and> claimed m = [e] \<and>
     made f = [(1, demo_call)] \<and> (\<exists>ctx tls. entry_of_call (platform_config False) ctx tls demo_call (sequence_id e) e)"
proof -
  obtain f m b e where r: "conc_reach (platform_config False) demo_env 0 [demo_memory] demo_world (f, m, b)"
    "claimed m = [e]" "made f = [(1, demo_call)]" using demo_conc_run by blast
  from concurrent_delivery [OF r(1) demo_conc_env demo_memory_inv] r(2,3) obtain ctx tls where
    "unat (sequence_id e) < 1" "entry_of_call (platform_config False) ctx tls (snd ([(1, demo_call)] ! unat (sequence_id e))) (sequence_id e) e"
    by auto
  then have "entry_of_call (platform_config False) ctx tls demo_call (sequence_id e) e" by simp
  with r show ?thesis by blast
qed

text \<open>
  C3: nothing is lost silently. Under every interleaving each number taken from the sequence counter belongs to exactly
  one entry in the ring's history, or to exactly one drop that was counted, or is held by exactly one thread that is
  still inside \<open>LogImpl\<close>; the drop counter shows the drops since it was last reset, and when no thread is inside
  \<open>LogImpl\<close> the calls made are the entries accepted plus the entries dropped.
\<close>

theorem concurrent_accounting:
  assumes "conc_reach cfg env active ss w (f, m, b)" and "env_ok cfg env" and "list_all sink_inv ss"
    and "length (claimed m) < 2 ^ 32" and "length (made f) < 2 ^ 64"
  shows "distinct (map sequence_id (claimed m) @ dropped f) \<and>
    (\<forall>k<length (made f). (of_nat k \<in> set (map sequence_id (claimed m) @ dropped f)) \<noteq>
       (\<exists>!t. held_number (callers f t) (prod m t) = Some (of_nat k))) \<and>
    f_drop_count f = of_nat (length (dropped f) - reset_at f) \<and>
    ((\<forall>t. callers f t = LOut) \<longrightarrow> length (made f) = length (claimed m) + length (dropped f))"
proof -
  note inv = conc_reach_inv [OF assms(1-3)] 
  have wf: "front_wf cfg env f m" and num: "numbers_ok (claimed_numbers m @ dropped f) (held_at f m) (length (made f))"
    using inv assms(4,5) by (auto simp: conc_inv_def front_numbers_def bounded_def)
  have "(of_nat k \<in> set (claimed_numbers m @ dropped f)) \<noteq> (\<exists>!t. held_at f m t = Some (of_nat k))" if "k < length (made f)" for k
  proof -
    have "of_nat k \<in> set (claimed_numbers m @ dropped f) \<union> {n. \<exists>t. held_at f m t = Some n}"
      using num that unfolding numbers_ok_def by blast
    then show ?thesis using num unfolding numbers_ok_def by blast
  qed
  moreover have "length (made f) = length (claimed m) + length (dropped f)" if "\<forall>t. callers f t = LOut"
    using numbers_count(1) [OF num _ assms(5)] that by simp
  ultimately show ?thesis using num wf by (simp add: numbers_ok_def front_wf_def)
qed

theorem concurrent_accounting_witness:
  "\<exists>f m b. conc_reach (platform_config False) demo_env 0 [demo_memory] demo_world (f, m, b) \<and> (\<forall>t. callers f t = LOut) \<and>
     length (made f) = 1 \<and> length (made f) = length (claimed m) + length (dropped f)"
proof -
  obtain f m b e where r: "conc_reach (platform_config False) demo_env 0 [demo_memory] demo_world (f, m, b)"
    "claimed m = [e]" "made f = [(1, demo_call)]" "\<forall>t. callers f t = LOut" using demo_conc_run by blast
  from concurrent_accounting [OF r(1) demo_conc_env demo_memory_inv] r(2-4)
  have "length (made f) = length (claimed m) + length (dropped f)" by simp
  moreover have "length (made f) = 1" using r(3) by simp
  ultimately show ?thesis using r by blast
qed

text \<open>
  C4: stopping under concurrency. Take any state in which \<open>Stop\<close> has cleared the flag. The worker and the owner can
  bring \<open>Stop\<close> to the flushing of the sinks by their own steps; and on every run, whatever the logging threads do
  meanwhile, when \<open>Stop\<close> gets there every entry that was ready, that is published with all those claimed before it,
  has been written to the sinks, in claim order. An entry behind a position that a producer had claimed and not yet
  published is not ready: nothing makes \<open>Stop\<close> wait for it.
\<close>

theorem concurrent_stop:
  assumes "conc_reach cfg env active ss w (f0, m0, b0)" and "env_ok cfg env" and "list_all sink_inv ss"
    and "own b0 = OJoin"
    and "length (claimed m0) < 2 ^ 32" and "length (made f0) < 2 ^ 64"
  shows "(\<exists>m b. (conc_step cfg env active)\<^sup>*\<^sup>* (f0, m0, b0) (f0, m, b) \<and> own b = OFlush \<and> claimed m = claimed m0) \<and>
    (\<forall>f m b. (conc_step cfg env active)\<^sup>*\<^sup>* (f0, m0, b0) (f, m, b) \<longrightarrow> own b = OFlush \<longrightarrow>
       length (claimed m) < 2 ^ 32 \<longrightarrow> length (made f) < 2 ^ 64 \<longrightarrow>
       prefix (ready m0) (written (out_events (rear_out b))))"
proof (intro conjI allI impI)
  have bd: "bounded (f0, m0, b0)" using assms(5,6) by (simp add: bounded_def)
  note inv = conc_reach_inv [OF assms(1-3) bd]
  obtain m b where "rear_run cfg env (b0, m0) (b, m)" "own b = OFlush" using stop_completes [OF inv assms(2) bd assms(4)] by blast
  then show "\<exists>m b. (conc_step cfg env active)\<^sup>*\<^sup>* (f0, m0, b0) (f0, m, b) \<and> own b = OFlush \<and> claimed m = claimed m0"
    using rear_run_conc by blast
  fix f m b
  assume run: "(conc_step cfg env active)\<^sup>*\<^sup>* (f0, m0, b0) (f, m, b)" and fl: "own b = OFlush"
    and "length (claimed m) < 2 ^ 32" and "length (made f) < 2 ^ 64"
  then have bd': "bounded (f, m, b)" by (simp add: bounded_def)
  have "stop_inv (length (ready m0)) m0 b0" using assms(4) ready_settled by (simp add: stop_inv_def)
  note s = stop_inv_steps [OF run inv assms(2) bd' this]
  note inv' = conc_steps_inv [OF run inv assms(2) bd']
  have "wk b = WNone" using inv' fl by (simp add: conc_inv_def rear_inv_def lifecycle_def)
  then have w: "written (out_events (rear_out b)) = popped m"
    using inv' fl by (simp add: conc_inv_def rear_inv_def drain_inv_def)
  have "length (ready m0) \<le> length (popped m)" using s(1) fl by (simp add: stop_inv_def)
  moreover have "prefix (popped m) (claimed m)"
    using popped_good(2) [OF inv' _ bd'] assms(2) by (metis env_ok_def take_is_prefix)
  moreover have "prefix (ready m0) (claimed m)" using s(2) ready_take by (metis prefix_order.trans take_is_prefix)
  ultimately show "prefix (ready m0) (written (out_events (rear_out b)))" unfolding w using prefix_length_prefix by blast
qed

theorem concurrent_stop_witness:
  "\<exists>f m b e. conc_reach (platform_config False) demo_env 0 [demo_memory] demo_world (f, m, b) \<and> own b = OFlush \<and>
     claimed m = [e] \<and> written (out_events (rear_out b)) \<noteq> []"
proof -
  obtain f0 m0 b0 e where r: "conc_reach (platform_config False) demo_env 0 [demo_memory] demo_world (f0, m0, b0)"
    "own b0 = OJoin" "claimed m0 = [e]" "made f0 = [(1, demo_call)]" "\<forall>t. prod m0 t = PIdle" using demo_conc_run by blast
  note stop = concurrent_stop [OF r(1) demo_conc_env demo_memory_inv r(2)]
  obtain m b where 1: "(conc_step (platform_config False) demo_env 0)\<^sup>*\<^sup>* (f0, m0, b0) (f0, m, b)" "own b = OFlush" "claimed m = [e]"
    using stop r by auto
  moreover have "ready m0 = [e]" using r(3,5) by (simp add: ready_all)
  ultimately have "prefix [e] (written (out_events (rear_out b)))" using stop r by auto
  moreover have "conc_reach (platform_config False) demo_env 0 [demo_memory] demo_world (f0, m, b)"
    using r(1) 1(1) unfolding conc_reach_def by (rule rtranclp_trans)
  ultimately show ?thesis using 1 r(3) by (metis prefix_Nil list.distinct(1))
qed

text \<open>
  C16: no thread gets stuck and there is one consumer. In every reachable state a thread inside \<open>LogImpl\<close> can take its
  next step, so does the worker until it has ended and the owner unless it waits in \<open>join\<close> for a worker that can
  move: no undefined behaviour in making an entry or in a sink stops them. The owner touches the ring and the sinks
  only when there is no worker.
\<close>

theorem concurrent_progress:
  assumes "conc_reach cfg env active ss w (f, m, b)" and "env_ok cfg env" and "list_all sink_inv ss"
    and "length (claimed m) < 2 ^ 32" and "length (made f) < 2 ^ 64"
  shows "(callers f t \<noteq> LOut \<longrightarrow> (\<exists>f' m'. front_step cfg active t f m f' m')) \<and>
    (wk b \<notin> {WNone, WExit} \<longrightarrow> (\<exists>b' m'. worker_step env b m b' m')) \<and>
    (own b \<noteq> OOut \<longrightarrow> (\<exists>b' m'. control_step cfg env b m b' m') \<or> own b = OJoin \<and> wk b \<notin> {WNone, WExit}) \<and>
    (own b \<notin> {OOut, OJoin} \<longrightarrow> wk b = WNone)"
proof -
  have bd: "bounded (f, m, b)" using assms(4,5) by (simp add: bounded_def)
  have cfg: "valid_config cfg" using assms(2) by (simp add: env_ok_def)
  note inv = conc_reach_inv [OF assms(1-3) bd]
  then have "front_wf cfg env f m" "own b \<notin> {OOut, OJoin} \<longrightarrow> wk b = WNone"
    by (simp_all add: conc_inv_def rear_inv_def lifecycle_def)
  then show ?thesis using caller_enabled [of cfg env f m t active] worker_enabled [OF inv cfg bd] control_enabled [OF inv cfg bd] cfg
    by blast
qed

theorem concurrent_progress_witness:
  "\<exists>f m b. conc_reach (platform_config False) demo_env 0 [demo_memory] demo_world (f, m, b) \<and> own b = OJoin \<and>
     ((\<exists>b' m'. control_step (platform_config False) demo_env b m b' m') \<or> wk b \<notin> {WNone, WExit})"
proof -
  obtain f m b e where r: "conc_reach (platform_config False) demo_env 0 [demo_memory] demo_world (f, m, b)"
    "own b = OJoin" "claimed m = [e]" "made f = [(1, demo_call)]" using demo_conc_run by blast
  from concurrent_progress [OF r(1) demo_conc_env demo_memory_inv, of 1] r
  have "(\<exists>b' m'. control_step (platform_config False) demo_env b m b' m') \<or> wk b \<notin> {WNone, WExit}" by simp
  with r show ?thesis by blast
qed

end
