(* ===== verification/Delivery.thy ===== *)
theory Delivery
  imports Ros2_Bridge
begin

text \<open>
  What individual sinks make of the entries the backend hands to all of them: a sink sees every entry in order,
  whatever other sinks there are. \<open>Dispatch\<close> and the flush loop are followed at the position of one sink.
\<close>

subsection \<open>Dispatching over parts of the list of sinks\<close>

lemma Dispatch_append:
  "Dispatch so e (xs @ ys) w = do { (xs', w1) \<leftarrow> Dispatch so e xs w; (ys', w2) \<leftarrow> Dispatch so e ys w1; Some (xs' @ ys', w2) }"
proof (induction xs arbitrary: w)
  case Nil
  then show ?case by (cases "Dispatch so e ys w") auto
next
  case (Cons x xs)
  then show ?case by (cases "sink_Write so e x w") (auto simp: split_def Option.bind_assoc)
qed

lemma flush_all_append:
  "flush_all so (xs @ ys) w =
     (fst (flush_all so xs w) @ fst (flush_all so ys (snd (flush_all so xs w))), snd (flush_all so ys (snd (flush_all so xs w))))"
  by (induction xs arbitrary: w) (simp_all add: split_def Let_def)

lemma log_sinks_simps [simp]: "sink_Write (log_sinks env) = ILogSink_Write env" "sink_Flush (log_sinks env) = ILogSink_Flush env"
  by (simp_all add: log_sinks_def)

subsection \<open>A memory sink among others\<close>

lemma Dispatch_memory:
  "Dispatch (log_sinks env) e ss w = Some (ss', w') \<Longrightarrow> i < length ss \<Longrightarrow> ss ! i = RingMemory m \<Longrightarrow>
   \<exists>m'. RingMemorySink_Write e m = Some m' \<and> ss' ! i = RingMemory m' \<and> length ss' = length ss"
proof (induction ss arbitrary: i w ss')
  case Nil
  then show ?case by simp
next
  case (Cons s ss)
  obtain io v where w: "w = (io, v)" by (cases w)
  obtain s1 w1 ss1 where d: "ILogSink_Write env e s w = Some (s1, w1)" "Dispatch (log_sinks env) e ss w1 = Some (ss1, w')" "ss' = s1 # ss1"
    using Cons.prems(1) by (auto split: Option.bind_splits)
  have len: "length ss1 = length ss" using d(2)
  proof (induction ss arbitrary: w1 ss1)
    case (Cons x xs)
    then show ?case by (force split: Option.bind_splits)
  qed simp
  show ?case
  proof (cases i)
    case 0
    with Cons.prems(3) d(1,3) len w show ?thesis by (auto split: Option.bind_splits)
  next
    case (Suc j)
    with Cons.IH [OF d(2), of j] Cons.prems(2,3) d(3) show ?thesis by auto
  qed
qed

lemma dispatch_list_memory:
  "dispatch_list (log_sinks env) es ss w = Some (ss', w') \<Longrightarrow> i < length ss \<Longrightarrow> ss ! i = RingMemory m \<Longrightarrow>
   \<exists>m'. mem_writes es m = Some m' \<and> ss' ! i = RingMemory m' \<and> length ss' = length ss"
proof (induction es arbitrary: ss w m)
  case Nil
  then show ?case by simp
next
  case (Cons e es)
  obtain ss1 w1 where d: "Dispatch (log_sinks env) e ss w = Some (ss1, w1)" "dispatch_list (log_sinks env) es ss1 w1 = Some (ss', w')"
    using Cons.prems(1) by (auto split: Option.bind_splits)
  obtain m1 where "RingMemorySink_Write e m = Some m1" "ss1 ! i = RingMemory m1" "length ss1 = length ss"
    using Dispatch_memory [OF d(1) Cons.prems(2,3)] by blast
  with Cons.IH [OF d(2)] Cons.prems(2) show ?case by auto
qed

lemma flush_all_memory:
  "i < length ss \<Longrightarrow> ss ! i = RingMemory m \<Longrightarrow> fst (flush_all (log_sinks env) ss w) ! i = RingMemory m"
proof (induction ss arbitrary: i w)
  case Nil
  then show ?case by simp
next
  case (Cons s ss)
  obtain io v where w: "w = (io, v)" by (cases w)
  show ?case
  proof (cases i)
    case 0
    with Cons.prems w show ?thesis by (simp add: split_def Let_def RingMemorySink_Flush_def)
  next
    case (Suc j)
    with Cons show ?thesis by (simp add: split_def Let_def)
  qed
qed

subsection \<open>A console sink among sinks of other kinds\<close>

definition is_console :: "'w sink \<Rightarrow> bool" where
  "is_console s = (case s of Console _ \<Rightarrow> True | _ \<Rightarrow> False)"

lemma Write_no_console:
  "ILogSink_Write env e s w = Some (s', w') \<Longrightarrow> \<not> is_console s \<Longrightarrow> fst w' = fst w \<and> \<not> is_console s'"
  by (cases w; cases s) (auto simp: is_console_def split: Option.bind_splits prod.splits)

lemma Flush_no_console:
  "\<not> is_console s \<Longrightarrow> fst (snd (ILogSink_Flush env s w)) = fst w"
  by (cases w; cases s) (auto simp: is_console_def)

lemma Dispatch_no_console:
  "Dispatch (log_sinks env) e ss w = Some (ss', w') \<Longrightarrow> list_all (\<lambda>s. \<not> is_console s) ss \<Longrightarrow>
   fst w' = fst w \<and> list_all (\<lambda>s. \<not> is_console s) ss'"
proof (induction ss arbitrary: w ss')
  case Nil
  then show ?case by simp
next
  case (Cons s ss)
  obtain s1 w1 ss1 where d: "ILogSink_Write env e s w = Some (s1, w1)" "Dispatch (log_sinks env) e ss w1 = Some (ss1, w')" "ss' = s1 # ss1"
    using Cons.prems(1) by (auto split: Option.bind_splits)
  from Write_no_console [OF d(1)] Cons.IH [OF d(2)] Cons.prems(2) d(3) show ?case by simp
qed

lemma flush_no_console:
  "list_all (\<lambda>s. \<not> is_console s) ss \<Longrightarrow> fst (snd (flush_all (log_sinks env) ss w)) = fst w"
  by (induction ss arbitrary: w) (simp_all add: split_def Let_def Flush_no_console)

lemma Dispatch_console:
  assumes "Dispatch (log_sinks env) e (pre @ Console c # post) w = Some (ss', w')"
    and "list_all (\<lambda>s. \<not> is_console s) pre" "list_all (\<lambda>s. \<not> is_console s) post"
  shows "\<exists>pre' c' post'. ss' = pre' @ Console c' # post' \<and> list_all (\<lambda>s. \<not> is_console s) pre' \<and> list_all (\<lambda>s. \<not> is_console s) post' \<and>
    ConsoleSink_Write (fst (env_tz env)) (env_junk env) e c (fst w) = Some (c', fst w')"
proof -
  obtain pre' w1 s1 w2 post' where d: "Dispatch (log_sinks env) e pre w = Some (pre', w1)" "ILogSink_Write env e (Console c) w1 = Some (s1, w2)"
    "Dispatch (log_sinks env) e post w2 = Some (post', w')" "ss' = pre' @ s1 # post'"
    using assms(1) by (auto simp: Dispatch_append split: Option.bind_splits)
  obtain c' where "s1 = Console c'" "ConsoleSink_Write (fst (env_tz env)) (env_junk env) e c (fst w1) = Some (c', fst w2)"
    using d(2) by (cases w1) (auto split: Option.bind_splits)
  with Dispatch_no_console [OF d(1) assms(2)] Dispatch_no_console [OF d(3) assms(3)] d(4) show ?thesis by auto
qed

lemma dispatch_list_console:
  "dispatch_list (log_sinks env) es (pre @ Console c # post) w = Some (ss', w') \<Longrightarrow>
   list_all (\<lambda>s. \<not> is_console s) pre \<Longrightarrow> list_all (\<lambda>s. \<not> is_console s) post \<Longrightarrow>
   \<exists>pre' c' post'. ss' = pre' @ Console c' # post' \<and> list_all (\<lambda>s. \<not> is_console s) pre' \<and> list_all (\<lambda>s. \<not> is_console s) post' \<and>
     console_writes (fst (env_tz env)) (env_junk env) es c (fst w) = Some (c', fst w')"
proof (induction es arbitrary: pre c post w)
  case Nil
  then show ?case by auto
next
  case (Cons e es)
  obtain ss1 w1 where d: "Dispatch (log_sinks env) e (pre @ Console c # post) w = Some (ss1, w1)"
    "dispatch_list (log_sinks env) es ss1 w1 = Some (ss', w')"
    using Cons.prems(1) by (auto split: Option.bind_splits)
  obtain pre1 c1 post1 where 1: "ss1 = pre1 @ Console c1 # post1" "list_all (\<lambda>s. \<not> is_console s) pre1" "list_all (\<lambda>s. \<not> is_console s) post1"
    "ConsoleSink_Write (fst (env_tz env)) (env_junk env) e c (fst w) = Some (c1, fst w1)"
    using Dispatch_console [OF d(1) Cons.prems(2,3)] by blast
  with Cons.IH [of pre1 c1 post1 w1] d(2) show ?case by auto
qed

lemma flush_console:
  assumes "list_all (\<lambda>s. \<not> is_console s) pre" "list_all (\<lambda>s. \<not> is_console s) post"
  shows "fst (snd (flush_all (log_sinks env) (pre @ Console c # post) w)) = ConsoleSink_Flush c (fst w)"
proof -
  let ?w1 = "snd (flush_all (log_sinks env) pre w)"
  have "fst ?w1 = fst w" by (rule flush_no_console [OF assms(1)])
  then have "fst (snd (ILogSink_Flush env (Console c) ?w1)) = ConsoleSink_Flush c (fst w)" by (cases ?w1) simp
  then show ?thesis using flush_no_console [OF assms(2)] by (simp add: flush_all_append split_def Let_def)
qed

subsection \<open>A single rotating sink\<close>

lemma dispatch_list_rotating:
  "rot_writes (fst (env_tz env)) (env_junk env) (env_px env) es s w = Some (s', w') \<Longrightarrow>
   dispatch_list (log_sinks env) es [Rotating s] (io, w) = Some ([Rotating s'], io, w')"
  by (induction es arbitrary: s w) (auto split: Option.bind_splits)

end
