(* ===== verification/Delivery_Concurrent.thy ===== *)
theory Delivery_Concurrent
  imports Delivery Logger_Progress
begin

text \<open>
  What single sinks contain when the events of \<open>Logger_Concurrent\<close> are replayed: the writes and the flushes
  between them, in the order in which the thread that drains gave them to the sinks.
\<close>

subsection \<open>Replaying the events of a sink\<close>

lemma flush_all_length: "length (fst (flush_all so ss w)) = length ss"
  by (induction ss arbitrary: w) (simp_all add: split_def Let_def)

lemma replay_memory:
  "replay (log_sinks env) evs ss w = Some (ss', w') \<Longrightarrow> i < length ss \<Longrightarrow> ss ! i = RingMemory q \<Longrightarrow>
   \<exists>q'. mem_writes (written evs) q = Some q' \<and> ss' ! i = RingMemory q' \<and> length ss' = length ss"
proof (induction evs arbitrary: ss w q rule: written.induct)
  case 1
  then show ?case by simp
next
  case (2 e evs)
  obtain ss1 w1 where d: "Dispatch (log_sinks env) e ss w = Some (ss1, w1)" "replay (log_sinks env) evs ss1 w1 = Some (ss', w')"
    using "2.prems"(1) by (auto split: Option.bind_splits)
  obtain q1 where "RingMemorySink_Write e q = Some q1" "ss1 ! i = RingMemory q1" "length ss1 = length ss"
    using Dispatch_memory [OF d(1) "2.prems"(2,3)] by blast
  with "2.IH" [OF d(2)] "2.prems"(2) show ?case by auto
next
  case (3 evs)
  let ?fl = "flush_all (log_sinks env) ss w"
  have "replay (log_sinks env) evs (fst ?fl) (snd ?fl) = Some (ss', w')" using "3.prems"(1) by (simp add: split_def Let_def)
  moreover have "fst ?fl ! i = RingMemory q" by (rule flush_all_memory [OF "3.prems"(2,3)])
  moreover have "length (fst ?fl) = length ss" by (rule flush_all_length)
  ultimately show ?case using "3.IH" [of "fst ?fl" "snd ?fl" q] "3.prems"(2) by simp
qed

lemma flush_sinks_console:
  assumes "list_all (\<lambda>s. \<not> is_console s) pre" "list_all (\<lambda>s. \<not> is_console s) post"
  shows "\<exists>pre' post'. fst (flush_all (log_sinks env) (pre @ Console c # post) w) = pre' @ Console c # post' \<and>
    list_all (\<lambda>s. \<not> is_console s) pre' \<and> list_all (\<lambda>s. \<not> is_console s) post'"
proof -
  have none: "\<And>w. list_all (\<lambda>s. \<not> is_console s) ss \<Longrightarrow> list_all (\<lambda>s. \<not> is_console s) (fst (flush_all (log_sinks env) ss w))" for ss
  proof (induction ss)
    case (Cons s ss)
    have "\<not> is_console (fst (ILogSink_Flush env s w))" using Cons.prems
      by (cases w; cases s) (auto simp: is_console_def)
    with Cons show ?case by (simp add: split_def Let_def)
  qed simp
  have "fst (ILogSink_Flush env (Console c) u) = Console c" for u by (cases u) simp
  then have "fst (flush_all (log_sinks env) (pre @ Console c # post) w) = fst (flush_all (log_sinks env) pre w) @ Console c #
      fst (flush_all (log_sinks env) post (snd (ILogSink_Flush env (Console c) (snd (flush_all (log_sinks env) pre w)))))"
    by (simp add: flush_all_append split_def Let_def)
  with assms none show ?thesis by blast
qed

lemma replay_console:
  "replay (log_sinks env) evs (pre @ Console c # post) w = Some (ss', w') \<Longrightarrow>
   list_all (\<lambda>s. \<not> is_console s) pre \<Longrightarrow> list_all (\<lambda>s. \<not> is_console s) post \<Longrightarrow>
   list_all (entry_ok cfg (fst (env_tz env)) (env_junk env)) (written evs) \<Longrightarrow> sink_wf c \<Longrightarrow>
   (\<exists>pre' c' post'. ss' = pre' @ Console c' # post' \<and> list_all (\<lambda>s. \<not> is_console s) pre' \<and>
      list_all (\<lambda>s. \<not> is_console s) post') \<and>
   stream_text (std_out (fst w')) = stream_text (std_out (fst w)) @
     concat (map (console_text (fst (env_tz env)) c) (filter (\<lambda>e. level e < WARN) (written evs))) \<and>
   stream_text (std_err (fst w')) = stream_text (std_err (fst w)) @
     concat (map (console_text (fst (env_tz env)) c) (filter (\<lambda>e. \<not> level e < WARN) (written evs)))"
proof (induction evs arbitrary: pre c post w rule: written.induct)
  case 1
  then show ?case by auto
next
  case (2 e evs)
  let ?lt = "fst (env_tz env)"
  obtain ss1 w1 where d: "Dispatch (log_sinks env) e (pre @ Console c # post) w = Some (ss1, w1)"
    "replay (log_sinks env) evs ss1 w1 = Some (ss', w')"
    using "2.prems"(1) by (auto split: Option.bind_splits)
  obtain pre1 c1 post1 where 1: "ss1 = pre1 @ Console c1 # post1" "list_all (\<lambda>s. \<not> is_console s) pre1" "list_all (\<lambda>s. \<not> is_console s) post1"
    "ConsoleSink_Write ?lt (env_junk env) e c (fst w) = Some (c1, fst w1)"
    using Dispatch_console [OF d(1) "2.prems"(2,3)] by blast
  obtain c2 io2 where "ConsoleSink_Write ?lt (env_junk env) e c (fst w) = Some (c2, io2)" "sink_wf c2" "console_text ?lt c2 = console_text ?lt c"
    "stream_text (std_out io2) = stream_text (std_out (fst w)) @ (if level e < WARN then console_text ?lt c e else [])"
    "stream_text (std_err io2) = stream_text (std_err (fst w)) @ (if level e < WARN then [] else console_text ?lt c e)"
    using ConsoleSink_Write_ok [of cfg ?lt "env_junk env" e c "fst w"] "2.prems"(4,5) by auto
  with 1 "2.IH" [of pre1 c1 post1 w1] d(2) "2.prems"(4) show ?case by auto
next
  case (3 evs)
  let ?fl = "flush_all (log_sinks env) (pre @ Console c # post) w"
  obtain pre1 post1 where 1: "fst ?fl = pre1 @ Console c # post1" "list_all (\<lambda>s. \<not> is_console s) pre1" "list_all (\<lambda>s. \<not> is_console s) post1"
    using flush_sinks_console [OF "3.prems"(2,3)] by metis
  have "fst (snd ?fl) = ConsoleSink_Flush c (fst w)" by (rule flush_console [OF "3.prems"(2,3)])
  then have "stream_text (std_out (fst (snd ?fl))) = stream_text (std_out (fst w))"
    "stream_text (std_err (fst (snd ?fl))) = stream_text (std_err (fst w))" by (simp_all add: ConsoleSink_Flush_def fflush_def)
  moreover have "replay (log_sinks env) evs (pre1 @ Console c # post1) (snd ?fl) = Some (ss', w')"
    using "3.prems"(1) by (simp add: split_def Let_def 1(1))
  ultimately show ?case using "3.IH" [of pre1 c post1 "snd ?fl"] "3.prems"(4,5) 1(2,3) by simp
qed

lemma replay_rotating:
  assumes "fs_laws (env_px env) (files, fds)"
  shows "replay (log_sinks env) evs [Rotating s] w = Some (ss', w') \<Longrightarrow> rot_ok (files, fds) s (snd w) \<Longrightarrow>
   list_all (entry_ok cfg (fst (env_tz env)) (env_junk env)) (written evs) \<Longrightarrow>
   files_after (base_path s) (max_files s) (max_file_size s)
     (sink_lines (fst (env_tz env)) rotating_pattern False s (written evs)) (files (snd w)) (files (snd w'))"
proof (induction evs arbitrary: s w rule: written.induct)
  case 1
  then show ?case by (simp add: sink_lines_def)
next
  case (2 e evs)
  let ?lt = "fst (env_tz env)"
  have e: "entry_ok cfg ?lt (env_junk env) e" using "2.prems"(3) by simp
  from rot_write_one [OF assms "2.prems"(2) e]
  obtain s1 v1 where 1: "RotatingFileSink_Write ?lt (env_junk env) (env_px env) e s (snd w) = Some (s1, v1)"
    "rot_ok (files, fds) s1 v1" "same_rot ?lt s s1"
    "files_after (base_path s) (max_files s) (max_file_size s) (sink_lines ?lt rotating_pattern False s [e]) (files (snd w)) (files v1)"
    by (elim exE conjE)
  have "Dispatch (log_sinks env) e [Rotating s] w = Some ([Rotating s1], fst w, v1)"
    using 1(1) by (cases w) simp
  then have "replay (log_sinks env) evs [Rotating s1] (fst w, v1) = Some (ss', w')" using "2.prems"(1) by simp
  from "2.IH" [OF this] 1(2,3) "2.prems"(3) have "files_after (base_path s) (max_files s) (max_file_size s)
      (sink_lines ?lt rotating_pattern False s (written evs)) (files v1) (files (snd w'))"
    by (simp add: same_rot_def)
  from files_after_append [OF 1(4) this] show ?case by (simp only: written.simps sink_lines_Cons [of ?lt _ _ s e "written evs"])
next
  case (3 evs)
  let ?v = "RotatingFileSink_Flush (env_px env) s (snd w)"
  have f: "files ?v = files (snd w)" "fds ?v = fds (snd w)" using fs_close(5,6) [OF assms] by (simp_all add: RotatingFileSink_Flush_def)
  have "replay (log_sinks env) evs [Rotating s] (fst w, ?v) = Some (ss', w')" using "3.prems"(1) by (cases w) simp
  moreover have "rot_ok (files, fds) s ?v" using "3.prems"(2) f by (simp add: rot_ok_def)
  ultimately show ?case using "3.IH" [of s "(fst w, ?v)"] "3.prems"(3) f by simp
qed

subsection \<open>A stop in the middle of concurrent logging\<close>

text \<open>
  \<open>stop_run cfg env active ss w m0 m b\<close>: the library was set up with the sinks \<open>ss\<close> in the world \<open>w\<close>, ran in any
  interleaving until the owner was inside \<open>Stop\<close> with the flag cleared (the ring was \<open>m0\<close>), and ran on, logging
  threads included, until \<open>Stop\<close> had flushed the sinks and returned (the ring is \<open>m\<close>, the backend \<open>b\<close>).
\<close>

definition stop_run ::
  "config \<Rightarrow> 'w env \<Rightarrow> nat \<Rightarrow> 'w sink list \<Rightarrow> stdio \<times> 'w \<Rightarrow> LogEntry mpsc \<Rightarrow> LogEntry mpsc \<Rightarrow> 'w rear \<Rightarrow> bool" where
  "stop_run cfg env active ss w m0 m b' \<longleftrightarrow>
     (\<exists>f0 b0 f b. conc_reach cfg env active ss w (f0, m0, b0) \<and> own b0 = OJoin \<and>
        (conc_step cfg env active)\<^sup>*\<^sup>* (f0, m0, b0) (f, m, b) \<and> own b = OFlush \<and> control_step cfg env b m b' m \<and>
        length (claimed m) < 2 ^ 32 \<and> length (made f) < 2 ^ 64)"

inductive_cases control_stepE: "control_step cfg env b m b' m'"

lemma stop_flush_step:
  assumes "control_step cfg env b m b' m'" and "own b = OFlush"
  obtains ss w where "flush_all (log_sinks env) (out_sinks (rear_out b)) (out_world (rear_out b)) = (ss, w)" "m' = m"
    "b' = b\<lparr>own := OOut, b_started := False,
       rear_out := (rear_out b)\<lparr>out_sinks := ss, out_world := w, out_events := out_events (rear_out b) @ [Flushed]\<rparr>\<rparr>"
  using assms by (auto elim!: control_stepE)

lemma conc_steps_bounded:
  "(conc_step cfg env active)\<^sup>*\<^sup>* s s' \<Longrightarrow> bounded s' \<Longrightarrow> bounded s"
  by (induction rule: converse_rtranclp_induct) (auto dest: conc_step_bounded)

text \<open>
  After such a run the sinks are what the writes of a prefix of the claimed entries that contains all that were
  ready, and the last flush, make of them.
\<close>

lemma stop_run_replay:
  assumes run: "stop_run cfg env active ss w m0 m b" and env: "env_ok cfg env" and inv: "list_all sink_inv ss"
  obtains evs ss1 w1 where "prefix (ready m0) (written evs)" "prefix (written evs) (claimed m)"
    "list_all (good_entry cfg env) (written evs)" "replay (log_sinks env) evs ss w = Some (ss1, w1)"
    "flush_all (log_sinks env) ss1 w1 = (out_sinks (rear_out b), out_world (rear_out b))"
proof -
  obtain f0 b0 f b1 where r: "conc_reach cfg env active ss w (f0, m0, b0)" "own b0 = OJoin"
    "(conc_step cfg env active)\<^sup>*\<^sup>* (f0, m0, b0) (f, m, b1)" "own b1 = OFlush" "control_step cfg env b1 m b m"
    "length (claimed m) < 2 ^ 32" "length (made f) < 2 ^ 64"
    using run unfolding stop_run_def by blast
  let ?evs = "out_events (rear_out b1)"
  have bd: "bounded (f, m, b1)" using r(6,7) by (simp add: bounded_def)
  have cfg: "valid_config cfg" using env by (simp add: env_ok_def)
  have reach: "conc_reach cfg env active ss w (f, m, b1)" using r(1,3) unfolding conc_reach_def by (rule rtranclp_trans)
  note ci = conc_reach_inv [OF reach env inv bd]
  have "wk b1 = WNone" using ci r(4) by (simp add: conc_inv_def rear_inv_def lifecycle_def)
  then have w: "written ?evs = popped m"
    "replay (log_sinks env) ?evs ss w = Some (out_sinks (rear_out b1), out_world (rear_out b1))"
    using ci r(4) by (simp_all add: conc_inv_def rear_inv_def drain_inv_def)
  have bd0: "bounded (f0, m0, b0)" using conc_steps_bounded [OF r(3) bd] .
  have "stop_inv (length (ready m0)) m0 b0" using r(2) ready_settled by (simp add: stop_inv_def)
  note s = stop_inv_steps [OF r(3) conc_reach_inv [OF r(1) env inv bd0] env bd this]
  have p: "prefix (popped m) (claimed m)" using popped_good(2) [OF ci cfg bd] by (metis take_is_prefix)
  moreover have "length (ready m0) \<le> length (popped m)" using s(1) r(4) by (simp add: stop_inv_def)
  moreover have "prefix (ready m0) (claimed m)" using s(2) ready_take by (metis prefix_order.trans take_is_prefix)
  ultimately have p0: "prefix (ready m0) (popped m)" using prefix_length_prefix by blast
  have fl: "flush_all (log_sinks env) (out_sinks (rear_out b1)) (out_world (rear_out b1)) =
      (out_sinks (rear_out b), out_world (rear_out b))"
    by (rule stop_flush_step [OF r(5,4)]) simp
  show thesis using that [OF _ _ _ w(2) fl] p0 p popped_good(3) [OF ci cfg bd] unfolding w(1) by blast
qed

text \<open>There is such a run from every point at which \<open>Stop\<close> has cleared the flag.\<close>

lemma stop_run_exists:
  assumes r: "conc_reach cfg env active ss w (f0, m0, b0)" and env: "env_ok cfg env" and inv: "list_all sink_inv ss"
    and own: "own b0 = OJoin"
    and bound: "length (claimed m0) < 2 ^ 32" "length (made f0) < 2 ^ 64"
  shows "\<exists>m b. stop_run cfg env active ss w m0 m b \<and> claimed m = claimed m0"
proof -
  have bd: "bounded (f0, m0, b0)" using bound by (simp add: bounded_def)
  obtain m b where 1: "rear_run cfg env (b0, m0) (b, m)" "own b = OFlush"
    using stop_completes [OF conc_reach_inv [OF r env inv bd] env bd own] by blast
  from control_step.stop_flush [OF 1(2) prod.collapse [symmetric]] obtain b' where "control_step cfg env b m b' m" by blast
  then show ?thesis unfolding stop_run_def using r own 1(2) bound rear_run_conc [OF 1(1)] by metis
qed

subsection \<open>Properties\<close>

text \<open>
  C6: a memory sink after a stop under concurrency. Whatever the threads log and however they, the worker and the
  owner interleave, when \<open>Stop\<close> has returned a memory sink among any other sinks holds the last
  \<open>capacity\<close> of its earlier entries followed by the entries that pass its level among the first claimed ones, in
  claim order: at least all that were ready (published with all those claimed before them) when \<open>Stop\<close> had cleared the
  flag, and possibly more.
\<close>

theorem concurrent_memory_session:
  assumes "stop_run cfg env active ss w m0 m b" and "env_ok cfg env" and "list_all sink_inv ss"
    and "i < length ss" and "ss ! i = RingMemory q"
  shows "\<exists>acc q'. prefix (ready m0) acc \<and> prefix acc (claimed m) \<and> out_sinks (rear_out b) ! i = RingMemory q' \<and>
    mem_list q' = last_n (mem_capacity q) (mem_list q @ filter (\<lambda>e. ShouldLog q (level e)) acc)"
proof -
  obtain evs ss1 w1 where r: "prefix (ready m0) (written evs)" "prefix (written evs) (claimed m)"
    "replay (log_sinks env) evs ss w = Some (ss1, w1)"
    "flush_all (log_sinks env) ss1 w1 = (out_sinks (rear_out b), out_world (rear_out b))"
    using stop_run_replay [OF assms(1-3)] by metis
  obtain q' where q': "mem_writes (written evs) q = Some q'" "ss1 ! i = RingMemory q'" "length ss1 = length ss"
    using replay_memory [OF r(3) assms(4,5)] by blast
  have "out_sinks (rear_out b) ! i = RingMemory q'"
    using flush_all_memory [of i ss1 q' env w1] q'(2,3) assms(4) r(4) by simp
  moreover have "mem_wf q" using assms(3-5) by (metis list_all_length sink_inv.simps(3))
  from mem_writes_list [OF this, of "written evs"] q'(1)
  have "mem_list q' = last_n (mem_capacity q) (mem_list q @ filter (\<lambda>e. ShouldLog q (level e)) (written evs))" by auto
  ultimately show ?thesis using r(1,2) by blast
qed

lemma demo_stop_run:
  assumes "list_all sink_inv ss"
  shows "\<exists>m0 m b e. stop_run (platform_config False) demo_env 0 ss w m0 m b \<and> ready m0 = [e] \<and> claimed m = [e]"
proof -
  obtain f0 m0 b0 e where r: "conc_reach (platform_config False) demo_env 0 ss w (f0, m0, b0)"
    "own b0 = OJoin" "claimed m0 = [e]" "made f0 = [(1, demo_call)]" "\<forall>t. prod m0 t = PIdle"
    using demo_conc_run_any [OF assms] by blast
  moreover have "ready m0 = [e]" using r(3,5) by (simp add: ready_all)
  ultimately show ?thesis using stop_run_exists [OF r(1) demo_conc_env assms r(2)] by fastforce
qed

theorem concurrent_memory_session_witness:
  "\<exists>m0 m b e q'. stop_run (platform_config False) demo_env 0 [demo_memory] demo_world m0 m b \<and> ready m0 = [e] \<and>
     out_sinks (rear_out b) ! 0 = RingMemory q' \<and> mem_list q' = [e]"
proof -
  obtain m0 m b e where r: "stop_run (platform_config False) demo_env 0 [demo_memory] demo_world m0 m b"
    "ready m0 = [e]" "claimed m = [e]" using demo_stop_run [OF demo_memory_inv] by blast
  let ?q = "RingMemorySink_init (platform_config False) (replicate 2048 NUL) 4"
  obtain acc q' where a: "prefix (ready m0) acc" "prefix acc (claimed m)" "out_sinks (rear_out b) ! 0 = RingMemory q'"
    "mem_list q' = last_n (mem_capacity ?q) (mem_list ?q @ filter (\<lambda>e. ShouldLog ?q (level e)) acc)"
    using concurrent_memory_session [OF r(1) demo_conc_env demo_memory_inv, of 0 ?q] by (auto simp: demo_memory_def)
  have "acc = [e]" using a(1,2) r(2,3) by (metis prefix_order.antisym)
  moreover have "TRACE \<le> level e" by (cases "level e") (simp_all add: less_eq_LogLevel_def)
  ultimately have "mem_list q' = [e]"
    using a(4) by (simp add: RingMemorySink_init_def mem_list_def last_n_def ShouldLog_def)
  with r a(3) show ?thesis by blast
qed

text \<open>
  C5: the console after a stop under concurrency. With one console sink among sinks of other kinds, when \<open>Stop\<close> has
  returned the standard output has received exactly the lines of the claimed entries below \<open>WARN\<close> and the standard
  error those from \<open>WARN\<close> on, each in claim order and nothing twice: of a prefix of all claimed entries that contains at
  least those that were ready (published with all those claimed before them) when \<open>Stop\<close> had cleared the flag. Both
  streams are flushed to the end.
\<close>

theorem concurrent_console_session:
  assumes "stop_run cfg env active (pre @ Console c # post) w m0 m b" and "env_ok cfg env"
    and "list_all sink_inv (pre @ Console c # post)"
    and "list_all (\<lambda>s. \<not> is_console s) pre" and "list_all (\<lambda>s. \<not> is_console s) post"
  shows "\<exists>acc. prefix (ready m0) acc \<and> prefix acc (claimed m) \<and> (let io = fst (out_world (rear_out b)) in
    stream_text (std_out io) = stream_text (std_out (fst w)) @
      concat (map (console_text (fst (env_tz env)) c) (filter (\<lambda>e. level e < WARN) acc)) \<and>
    stream_text (std_err io) = stream_text (std_err (fst w)) @
      concat (map (console_text (fst (env_tz env)) c) (filter (\<lambda>e. \<not> level e < WARN) acc)) \<and>
    stream_flushed (std_out io) = length (stream_text (std_out io)) \<and>
    stream_flushed (std_err io) = length (stream_text (std_err io)))"
proof -
  obtain evs ss1 w1 where r: "prefix (ready m0) (written evs)" "prefix (written evs) (claimed m)"
    "list_all (good_entry cfg env) (written evs)" "replay (log_sinks env) evs (pre @ Console c # post) w = Some (ss1, w1)"
    "flush_all (log_sinks env) ss1 w1 = (out_sinks (rear_out b), out_world (rear_out b))"
    using stop_run_replay [OF assms(1-3)] by metis
  have "list_all (entry_ok cfg (fst (env_tz env)) (env_junk env)) (written evs)"
    using r(3) by (auto simp: list_all_iff good_entry_def)
  moreover have "sink_wf c" using assms(3) by simp
  ultimately obtain pre' c' post' where c': "ss1 = pre' @ Console c' # post'" "list_all (\<lambda>s. \<not> is_console s) pre'"
    "list_all (\<lambda>s. \<not> is_console s) post'"
    and t: "stream_text (std_out (fst w1)) = stream_text (std_out (fst w)) @
       concat (map (console_text (fst (env_tz env)) c) (filter (\<lambda>e. level e < WARN) (written evs)))"
     "stream_text (std_err (fst w1)) = stream_text (std_err (fst w)) @
       concat (map (console_text (fst (env_tz env)) c) (filter (\<lambda>e. \<not> level e < WARN) (written evs)))"
    using replay_console [OF r(4) assms(4,5)] by blast
  have "fst (out_world (rear_out b)) = ConsoleSink_Flush c' (fst w1)"
    using flush_console [OF c'(2,3), of env c' w1] r(5) c'(1) by simp
  then show ?thesis using t r(1,2) by (auto simp: ConsoleSink_Flush_def fflush_def Let_def)
qed

definition plain_console :: "mem_os sink" where
  "plain_console = Console (ConsoleSink_init (replicate 2048 NUL) False False None)"

theorem concurrent_console_session_witness:
  "\<exists>m0 m b e. stop_run (platform_config False) demo_env 0 [plain_console] demo_world m0 m b \<and> ready m0 = [e] \<and>
     (let io = fst (out_world (rear_out b)) in stream_flushed (std_out io) = length (stream_text (std_out io)))"
proof -
  have inv: "list_all sink_inv ([] @ plain_console # [])"
    by (simp add: plain_console_def ConsoleSink_init_def sink_wf_def)
  obtain m0 m b e where r: "stop_run (platform_config False) demo_env 0 ([] @ plain_console # []) demo_world m0 m b" "ready m0 = [e]"
    using demo_stop_run [OF inv] by blast
  from concurrent_console_session [OF r(1) [unfolded plain_console_def] demo_conc_env inv [unfolded plain_console_def]] r
  show ?thesis by (auto simp: Let_def)
qed

text \<open>
  C7: the rotated files after a stop under concurrency. With a rotating sink as the only sink on a file system that obeys
  the documented laws, the files are when \<open>Stop\<close> has returned exactly those that the rotation scheme makes of the earlier ones and
  the lines, one after the other, of the first claimed entries in claim order: at least those that were ready when
  \<open>Stop\<close> had cleared the flag. No other file has changed.
\<close>

theorem concurrent_rotating_session:
  assumes "stop_run cfg env active [Rotating s] w m0 m b" and "env_ok cfg env" and "sink_wf s"
    and "fs_laws (env_px env) (files, fds)" and "rot_ok (files, fds) s (snd w)"
  shows "\<exists>acc. prefix (ready m0) acc \<and> prefix acc (claimed m) \<and> (let files' = files (snd (out_world (rear_out b))) in
    log_files files' (base_path s) (max_files s) =
      fold (rotated_write (max_file_size s)) (sink_lines (fst (env_tz env)) rotating_pattern False s acc)
        (log_files (files (snd w)) (base_path s) (max_files s)) \<and>
    (\<forall>p. p \<notin> rot_name (base_path s) ` {..max_files s} \<longrightarrow> files' p = files (snd w) p))"
proof -
  have inv: "list_all sink_inv [Rotating s]" using assms(3) by simp
  obtain evs ss1 w1 where r: "prefix (ready m0) (written evs)" "prefix (written evs) (claimed m)"
    "list_all (good_entry cfg env) (written evs)" "replay (log_sinks env) evs [Rotating s] w = Some (ss1, w1)"
    "flush_all (log_sinks env) ss1 w1 = (out_sinks (rear_out b), out_world (rear_out b))"
    using stop_run_replay [OF assms(1,2) inv] by metis
  have "list_all (entry_ok cfg (fst (env_tz env)) (env_junk env)) (written (evs @ [Flushed]))"
    using r(3) by (auto simp: list_all_iff good_entry_def)
  moreover have "replay (log_sinks env) (evs @ [Flushed]) [Rotating s] w = Some (out_sinks (rear_out b), out_world (rear_out b))"
    using r(4,5) by (simp add: replay_append)
  ultimately have "files_after (base_path s) (max_files s) (max_file_size s)
      (sink_lines (fst (env_tz env)) rotating_pattern False s (written (evs @ [Flushed]))) (files (snd w)) (files (snd (out_world (rear_out b))))"
    using replay_rotating [OF assms(4) _ assms(5)] by blast
  with r(1,2) show ?thesis by (auto simp: files_after_def Let_def)
qed

theorem concurrent_rotating_session_witness:
  "\<exists>s v m0 m b e. demo_sink 10 3 = (s, v) \<and>
     stop_run (platform_config False) demo_env 0 [Rotating s] (fst demo_world, v) m0 m b \<and> ready m0 = [e] \<and>
     log_files (mem_files (snd (out_world (rear_out b)))) (base_path s) 3 =
       fold (rotated_write 10) (sink_lines (fst (env_tz demo_env)) rotating_pattern False s [e]) (log_files (mem_files v) (base_path s) 3)"
proof -
  obtain s v where d: "demo_sink 10 3 = (s, v)" "rot_ok (mem_files, mem_fds) s v" "max_files s = 3" "max_file_size s = 10" by (rule demo_sink_ok)
  have wf: "sink_wf s" using d(2) by (simp add: rot_ok_def)
  obtain m0 m b e where r: "stop_run (platform_config False) demo_env 0 [Rotating s] (fst demo_world, v) m0 m b"
    "ready m0 = [e]" "claimed m = [e]"
    using demo_stop_run [of "[Rotating s]" "(fst demo_world, v)"] wf by auto
  have "fs_laws (env_px demo_env) (mem_files, mem_fds)" using mem_posix_laws by (simp add: demo_env_def)
  from concurrent_rotating_session [OF r(1) demo_conc_env wf this] d obtain acc where
    a: "prefix (ready m0) acc" "prefix acc (claimed m)"
      "log_files (mem_files (snd (out_world (rear_out b)))) (base_path s) 3 =
        fold (rotated_write 10) (sink_lines (fst (env_tz demo_env)) rotating_pattern False s acc) (log_files (mem_files v) (base_path s) 3)"
    by (auto simp: Let_def)
  have "acc = [e]" using a(1,2) r(2,3) by (metis prefix_order.antisym)
  with a(3) d(1) r(1,2) show ?thesis by blast
qed

end
