(* ===== verification/Application.thy ===== *)
theory Application
  imports Logger
begin

text \<open>
  Programs that use the logger. The state \<open>app\<close> of such a program is the logger, the context, the thread-local
  state of every thread and the world; a \<open>setting\<close> is what stays fixed around it: the build, the environment, what
  the compiler and the system supply at the \<open>n\<close>-th execution of a logging statement (location, clocks, ids) and how
  many entries the worker takes out of the ring before it. The statements of a program are the macros and methods of
  the library on this state, one statement at a time.

  \<open>view\<close> is the abstract specification: the lines logged so far (level, message, tags, thread name), the global tags,
  the name and tags of every thread, the level of the logger and whether it is started. \<open>refines\<close> relates a statement to its effect on the view; the lemmas
  below give the effect of every statement and of sequences and loops, so that the programs of \<open>examples/\<close> are
  verified by composing them.
\<close>

subsection \<open>State and statements\<close>

record 'w setting =
  set_cfg :: config
  set_active :: nat
  set_env :: "'w env"
  set_site :: "nat \<Rightarrow> log_call"
  set_turn :: "nat \<Rightarrow> nat"

record 'w app =
  app_logger :: "'w sink Logger"
  app_ctx :: LogContext
  app_tls :: "nat \<Rightarrow> Tls"
  app_world :: "stdio \<times> 'w"
  app_time :: nat

text \<open>
  What the worker, if there is one, does before the next statement: one round of its loop, with a batch of any size. The
  programs are followed at the granularity of whole statements; the worker and the threads inside a call are
  interleaved access by access in \<open>Logger_Concurrent\<close>.
\<close>

definition worker_turn :: "'w setting \<Rightarrow> 'w app \<Rightarrow> 'w app option" where
  "worker_turn st a =
     (if worker (backend (app_logger a))
      then do { (n, lg, w) \<leftarrow> Logger_Drain (log_sinks (set_env st)) (set_turn st (app_time a)) (app_logger a) (app_world a);
                Some (a\<lparr>app_logger := lg, app_world := w\<rparr>) }
      else Some a)"

text \<open>A logging statement of thread \<open>t\<close> with level \<open>l\<close> and message \<open>m\<close>; \<open>f\<close> is its macro.\<close>

definition log_stmt ::
  "'w setting \<Rightarrow> nat \<Rightarrow> LogLevel \<Rightarrow> message \<Rightarrow>
   (LogContext \<Rightarrow> log_call \<Rightarrow> 'w sink Logger \<Rightarrow> Tls \<Rightarrow> ('x \<times> 'w sink Logger \<times> Tls) option) \<Rightarrow> 'w app \<Rightarrow> ('x \<times> 'w app) option" where
  "log_stmt st t l m f a =
     do { a1 \<leftarrow> worker_turn st a;
          (x, lg, tls) \<leftarrow> f (app_ctx a1) ((set_site st (app_time a))\<lparr>call_level := l, call_msg := m\<rparr>) (app_logger a1) (app_tls a1 t);
          Some (x, a1\<lparr>app_logger := lg, app_tls := (app_tls a1)(t := tls), app_time := Suc (app_time a)\<rparr>) }"

text \<open>Statements on the logger itself, and the macros.\<close>

definition on_logger :: "('w sink Logger \<Rightarrow> 'w sink Logger) \<Rightarrow> 'w app \<Rightarrow> 'w app option" where
  "on_logger f a = Some (a\<lparr>app_logger := f (app_logger a)\<rparr>)"

definition LOG :: "'w setting \<Rightarrow> nat \<Rightarrow> LogLevel \<Rightarrow> message \<Rightarrow> 'w app \<Rightarrow> 'w app option" where
  "LOG st t l m a = map_option snd (log_stmt st t l m
     (\<lambda>ctx c lg tls. map_option (Pair ()) (BR_LOG_CALL (set_cfg st) (set_active st) ctx c lg tls)) a)"

definition app_LOG_IF :: "'w setting \<Rightarrow> nat \<Rightarrow> bool \<Rightarrow> LogLevel \<Rightarrow> message \<Rightarrow> 'w app \<Rightarrow> 'w app option" where
  "app_LOG_IF st t cond l m a = map_option snd (log_stmt st t l m
     (\<lambda>ctx c lg tls. map_option (Pair ()) (LOG_IF cond (set_cfg st) (set_active st) ctx c lg tls)) a)"

definition app_LOG_EVERY_N :: "'w setting \<Rightarrow> nat \<Rightarrow> u64 \<Rightarrow> LogLevel \<Rightarrow> message \<Rightarrow> u64 \<Rightarrow> 'w app \<Rightarrow> (u64 \<times> 'w app) option" where
  "app_LOG_EVERY_N st t n l m cnt =
     log_stmt st t l m (\<lambda>ctx c lg tls. LOG_EVERY_N n (set_cfg st) (set_active st) ctx c cnt lg tls)"

definition app_LOG_ONCE :: "'w setting \<Rightarrow> nat \<Rightarrow> LogLevel \<Rightarrow> message \<Rightarrow> bool \<Rightarrow> 'w app \<Rightarrow> (bool \<times> 'w app) option" where
  "app_LOG_ONCE st t l m logged =
     log_stmt st t l m (\<lambda>ctx c lg tls. LOG_ONCE (set_cfg st) (set_active st) ctx c logged lg tls)"

text \<open>Statements on the context: of the process and of a thread.\<close>

definition on_ctx :: "(LogContext \<Rightarrow> LogContext option) \<Rightarrow> 'w app \<Rightarrow> 'w app option" where
  "on_ctx f a = do { c \<leftarrow> f (app_ctx a); Some (a\<lparr>app_ctx := c\<rparr>) }"

definition on_tls :: "nat \<Rightarrow> (Tls \<Rightarrow> Tls option) \<Rightarrow> 'w app \<Rightarrow> 'w app option" where
  "on_tls t f a = do { s \<leftarrow> f (app_tls a t); Some (a\<lparr>app_tls := (app_tls a)(t := s)\<rparr>) }"

text \<open>A block under a \<open>ScopedTag\<close>.\<close>

definition with_tag ::
  "'w setting \<Rightarrow> nat \<Rightarrow> bytes \<Rightarrow> bytes \<Rightarrow> ('w app \<Rightarrow> 'w app option) \<Rightarrow> 'w app \<Rightarrow> 'w app option" where
  "with_tag st t k v body a =
     do { a1 \<leftarrow> on_tls t (PushScopedTag (set_cfg st) (Some k) (Some v)) a;
          a2 \<leftarrow> body a1;
          on_tls t (PopScopedTag (set_cfg st) (Some k)) a2 }"

text \<open>A message with arguments, with the text \<open>snprintf\<close> makes of it.\<close>

abbreviation printed :: "string \<Rightarrow> message" where
  "printed t \<equiv> Printed (Some t)"

subsection \<open>The abstract view\<close>

type_synonym log_line = "LogLevel \<times> string \<times> (string \<times> string) list \<times> string"

record view =
  lines :: "log_line list"
  globals :: "(string \<times> string) list"
  threads :: "nat \<Rightarrow> string \<times> (string \<times> string) list"
  threshold :: LogLevel
  live :: bool

definition call_line :: "config \<Rightarrow> LogContext \<times> Tls \<times> log_call \<Rightarrow> log_line" where
  "call_line cfg = (\<lambda>(ctx, tls, c). (call_level c, message_text cfg (call_msg c),
     take (BR_LOG_MAX_TAGS cfg) (ctx_tags ctx @ tls_texts tls), c_str (tls_thread_name tls)))"

definition entry_line :: "LogEntry \<Rightarrow> log_line" where
  "entry_line e = (level e, entry_msg e, map tag_text (entry_tags e), c_str (thread_name e))"

definition view_log :: "'w setting \<Rightarrow> nat \<Rightarrow> LogLevel \<Rightarrow> message \<Rightarrow> view \<Rightarrow> view" where
  "view_log st t l m v =
     (if set_active st \<le> level_value l \<and> threshold v \<le> l
      then v\<lparr>lines := lines v @ [(l, message_text (set_cfg st) m,
             take (BR_LOG_MAX_TAGS (set_cfg st)) (globals v @ snd (threads v t)), fst (threads v t))]\<rparr>
      else v)"

definition setting_ok :: "'w setting \<Rightarrow> bool" where
  "setting_ok st \<longleftrightarrow> valid_config (set_cfg st) \<and> localtime_ok (fst (env_tz (set_env st))) \<and>
     length (env_junk (set_env st)) = 128 \<and> (\<forall>n. wf_call (set_site st n))"

text \<open>
  The state \<open>a\<close> was reached from a fresh logger with the sinks \<open>ss\<close> in the world \<open>w\<close>, nothing was dropped, and \<open>v\<close>
  is its view.
\<close>

definition sim :: "'w setting \<Rightarrow> 'w sink list \<Rightarrow> stdio \<times> 'w \<Rightarrow> 'w app \<Rightarrow> view \<Rightarrow> bool" where
  "sim st ss w a v \<longleftrightarrow>
     (\<exists>cs. logger_reach (set_cfg st) (set_env st) (set_active st) ss w cs (app_logger a) (app_world a) \<and>
           lines v = map (call_line (set_cfg st)) cs) \<and>
     started (app_logger a) = live v \<and> Logger_Level (app_logger a) = threshold v \<and> DropCount (app_logger a) = 0 \<and>
     length (ring_list (ring (backend (app_logger a)))) \<le> length (lines v) \<and>
     Capacity (ring (backend (app_logger a))) = BR_LOG_RING_SIZE (set_cfg st) \<and>
     ctx_wf (set_cfg st) (app_ctx a) \<and> globals v = ctx_tags (app_ctx a) \<and>
     (\<forall>t. tls_wf (set_cfg st) (app_tls a t) \<and> threads v t = (c_str (tls_thread_name (app_tls a t)), tls_texts (app_tls a t)))"

text \<open>
  Executed where the view is \<open>v\<close>, the program part \<open>f\<close> returns and the view is then \<open>g v\<close>, as long as the lines
  fit the ring, so that none can be dropped whatever the worker does.
\<close>

definition refines :: "'w setting \<Rightarrow> 'w sink list \<Rightarrow> stdio \<times> 'w \<Rightarrow> ('w app \<Rightarrow> 'w app option) \<Rightarrow> (view \<Rightarrow> view) \<Rightarrow> bool" where
  "refines st ss w f g \<longleftrightarrow> (\<forall>v. length (lines v) \<le> length (lines (g v))) \<and>
     (\<forall>a v. sim st ss w a v \<longrightarrow> length (lines (g v)) \<le> BR_LOG_RING_SIZE (set_cfg st) \<longrightarrow>
        (\<exists>a'. f a = Some a' \<and> sim st ss w a' (g v)))"

subsection \<open>The worker\<close>

lemma sim_ring:
  assumes "setting_ok st" "list_all sink_inv ss" "sim st ss w a v"
  shows "ring_wf (ring (backend (app_logger a)))" "list_all sink_inv (sinks (backend (app_logger a)))"
    "list_all (good_entry (set_cfg st) (set_env st)) (ring_list (ring (backend (app_logger a))))"
proof -
  let ?lg = "app_logger a"
  have ok: "valid_config (set_cfg st)" "localtime_ok (fst (env_tz (set_env st)))" "length (env_junk (set_env st)) = 128"
    using assms(1) by (simp_all add: setting_ok_def)
  obtain cs where "logger_reach (set_cfg st) (set_env st) (set_active st) ss w cs ?lg (app_world a)"
    using assms(3) unfolding sim_def by blast
  then have "logger_inv (set_cfg st) (set_env st) ss w cs ?lg (app_world a)" by (rule logger_reach_inv [OF _ ok])
  then obtain acc where "backend_reach (set_cfg st) (set_env st) ss w acc (backend ?lg) (app_world a)"
    unfolding logger_inv_def by blast
  from backend_reach_inv [OF this ok(1) assms(2)]
  have "delivery_inv (set_cfg st) (set_env st) ss w acc (backend ?lg) (app_world a)" .
  then show "ring_wf (ring (backend ?lg))" "list_all sink_inv (sinks (backend ?lg))"
    "list_all (good_entry (set_cfg st) (set_env st)) (ring_list (ring (backend ?lg)))"
    by (auto simp: delivery_inv_def)
qed

lemma worker_turn_sim:
  assumes "setting_ok st" "list_all sink_inv ss" "sim st ss w a v"
  shows "\<exists>a1. worker_turn st a = Some a1 \<and> sim st ss w a1 v \<and> app_ctx a1 = app_ctx a \<and> app_tls a1 = app_tls a \<and> app_time a1 = app_time a"
proof (cases "worker (backend (app_logger a))")
  case False
  with assms(3) show ?thesis by (simp add: worker_turn_def)
next
  case True
  let ?lg = "app_logger a" and ?k = "set_turn st (app_time a)"
  obtain n b w2 where d: "Drain (log_sinks (set_env st)) ?k (backend ?lg) (app_world a) = Some (n, b, w2)"
    "length (ring_list (ring b)) \<le> length (ring_list (ring (backend ?lg)))" "Capacity (ring b) = Capacity (ring (backend ?lg))"
    using all_sinks.Drain_eq [OF sim_ring [OF assms] refl, of ?k "app_world a"] by (auto simp del: length_ring_list)
  then have l: "Logger_Drain (log_sinks (set_env st)) ?k ?lg (app_world a) = Some (n, ?lg\<lparr>backend := b\<rparr>, w2)"
    by (simp add: Logger_Drain_def)
  with True have "worker_turn st a = Some (a\<lparr>app_logger := ?lg\<lparr>backend := b\<rparr>, app_world := w2\<rparr>)" by (simp add: worker_turn_def)
  moreover obtain cs where "logger_reach (set_cfg st) (set_env st) (set_active st) ss w cs ?lg (app_world a)" "lines v = map (call_line (set_cfg st)) cs"
    using assms(3) unfolding sim_def by blast
  then have "\<exists>cs. logger_reach (set_cfg st) (set_env st) (set_active st) ss w cs (?lg\<lparr>backend := b\<rparr>) w2 \<and> lines v = map (call_line (set_cfg st)) cs"
    using logger_reach.drain [OF _ l] by blast
  then have "sim st ss w (a\<lparr>app_logger := ?lg\<lparr>backend := b\<rparr>, app_world := w2\<rparr>) v"
    using assms(3) d(2,3) by (simp add: sim_def Logger_Level_def DropCount_def del: length_ring_list)
  ultimately show ?thesis by simp
qed

subsection \<open>Logging statements\<close>

lemma LogImpl_tls: "LogImpl cfg ctx c lg tls = Some (lg', tls') \<Longrightarrow> tls' = snd (GetThreadId (call_tid c) tls)"
  by (auto simp: LogImpl_def build_entry_def FillThreadInfo_def Let_def split_def split: Option.bind_splits)

lemma GetThreadId_view:
  "tls_wf cfg s \<Longrightarrow> tls_wf cfg (snd (GetThreadId i s)) \<and> tls_thread_name (snd (GetThreadId i s)) = tls_thread_name s \<and>
    tls_texts (snd (GetThreadId i s)) = tls_texts s"
  using GetThreadId_wf [of cfg s i] by (simp add: GetThreadId_def Let_def tls_texts_def)

text \<open>The call of a passing statement, with room in the ring.\<close>

lemma LogImpl_sim:
  assumes "setting_ok st" "list_all sink_inv ss" "sim st ss w a v" "wf_call c" "message_fits (set_cfg st) (call_msg c)"
    and "length (lines v) < BR_LOG_RING_SIZE (set_cfg st)"
  shows "\<exists>r. LogImpl (set_cfg st) (app_ctx a) c (app_logger a) (app_tls a t) =
      Some ((app_logger a)\<lparr>backend := (backend (app_logger a))\<lparr>ring := r\<rparr>, logger_sequence := logger_sequence (app_logger a) + 1\<rparr>,
        snd (GetThreadId (call_tid c) (app_tls a t))) \<and>
    Capacity r = BR_LOG_RING_SIZE (set_cfg st) \<and> length (ring_list r) \<le> Suc (length (lines v))"
proof -
  let ?lg = "app_logger a" and ?cfg = "set_cfg st"
  have good: "good_call ?cfg (app_ctx a) (app_tls a t) c" using assms(3-5) by (simp add: sim_def good_call_def)
  obtain e tls' where e: "LogImpl ?cfg (app_ctx a) c ?lg (app_tls a t) =
      do { (ok, r) \<leftarrow> TryPush (ring (backend ?lg)) e;
           Some (?lg\<lparr>backend := (backend ?lg)\<lparr>ring := r\<rparr>, logger_sequence := logger_sequence ?lg + 1,
                    drop_count := (if ok then drop_count ?lg else drop_count ?lg + 1)\<rparr>, tls') }"
    using LogImpl_entry [OF _ good, of ?lg] assms(1) by (auto simp: setting_ok_def)
  have b: "length (ring_list (ring (backend ?lg))) \<le> length (lines v)" "Capacity (ring (backend ?lg)) = BR_LOG_RING_SIZE ?cfg"
    using assms(3) by (simp_all add: sim_def)
  then obtain r where r: "TryPush (ring (backend ?lg)) e = Some (True, r)" "Capacity r = BR_LOG_RING_SIZE ?cfg"
    "ring_list r = ring_list (ring (backend ?lg)) @ [e]"
    using rbq.push_room [OF sim_ring(1) [OF assms(1-3)], of e] assms(6) by auto
  with e have l: "LogImpl ?cfg (app_ctx a) c ?lg (app_tls a t) =
      Some (?lg\<lparr>backend := (backend ?lg)\<lparr>ring := r\<rparr>, logger_sequence := logger_sequence ?lg + 1\<rparr>, tls')" by simp
  with LogImpl_tls [OF l] r(2,3) b(1) show ?thesis by (intro exI [of _ r]) (simp del: length_ring_list)
qed

lemma BR_LOG_CALL_sim:
  fixes c :: log_call
  assumes "setting_ok st" "list_all sink_inv ss" "sim st ss w a v" "wf_call c"
    and "message_fits (set_cfg st) (call_msg c)"
    and "length (lines (view_log st t (call_level c) (call_msg c) v)) \<le> BR_LOG_RING_SIZE (set_cfg st)"
  shows "\<exists>lg tls. BR_LOG_CALL (set_cfg st) (set_active st) (app_ctx a) c (app_logger a) (app_tls a t) = Some (lg, tls) \<and>
    sim st ss w (a\<lparr>app_logger := lg, app_tls := (app_tls a)(t := tls), app_time := n\<rparr>) (view_log st t (call_level c) (call_msg c) v)"
proof (cases "set_active st \<le> level_value (call_level c) \<and> threshold v \<le> call_level c")
  case False
  then have "BR_LOG_CALL (set_cfg st) (set_active st) (app_ctx a) c (app_logger a) (app_tls a t) = Some (app_logger a, app_tls a t)"
    using assms(3) by (auto simp: BR_LOG_CALL_def sim_def)
  moreover have "view_log st t (call_level c) (call_msg c) v = v" using False by (simp add: view_log_def)
  ultimately show ?thesis using assms(3) by (simp add: sim_def)
next
  case True
  let ?lg = "app_logger a" and ?cfg = "set_cfg st" and ?tls = "snd (GetThreadId (call_tid c) (app_tls a t))"
  obtain r where r: "LogImpl ?cfg (app_ctx a) c ?lg (app_tls a t) =
      Some (?lg\<lparr>backend := (backend ?lg)\<lparr>ring := r\<rparr>, logger_sequence := logger_sequence ?lg + 1\<rparr>, ?tls)" (is "_ = Some (?lg', _)")
    "Capacity r = BR_LOG_RING_SIZE ?cfg" "length (ring_list r) \<le> Suc (length (lines v))"
    using LogImpl_sim [OF assms(1-5)] assms(6) True by (fastforce simp: view_log_def)
  have p: "passes (set_active st) ?lg c" using True assms(3) by (simp add: passes_def sim_def)
  then have c: "BR_LOG_CALL ?cfg (set_active st) (app_ctx a) c ?lg (app_tls a t) = Some (?lg', ?tls)" using r(1) by (simp add: BR_LOG_CALL_eq)
  have good: "good_call ?cfg (app_ctx a) (app_tls a t) c" using assms(3-5) by (simp add: sim_def good_call_def)
  obtain cs where cs: "logger_reach ?cfg (set_env st) (set_active st) ss w cs ?lg (app_world a)" "lines v = map (call_line ?cfg) cs"
    using assms(3) by (auto simp: sim_def)
  have "lines (view_log st t (call_level c) (call_msg c) v) = map (call_line ?cfg) (cs @ [(app_ctx a, app_tls a t, c)])"
    using True cs(2) assms(3) by (simp add: view_log_def call_line_def sim_def)
  moreover have "logger_reach ?cfg (set_env st) (set_active st) ss w (cs @ [(app_ctx a, app_tls a t, c)]) ?lg' (app_world a)"
    using logger_reach.log_call [OF cs(1) good c] p by simp
  moreover have "tls_wf ?cfg ?tls" "tls_thread_name ?tls = tls_thread_name (app_tls a t)" "tls_texts ?tls = tls_texts (app_tls a t)"
    using GetThreadId_view [of ?cfg "app_tls a t"] assms(3) by (auto simp: sim_def)
  moreover have "globals (view_log st t (call_level c) (call_msg c) v) = globals v" "threads (view_log st t (call_level c) (call_msg c) v) = threads v"
    "threshold (view_log st t (call_level c) (call_msg c) v) = threshold v" "live (view_log st t (call_level c) (call_msg c) v) = live v"
    by (simp_all add: view_log_def)
  ultimately have "sim st ss w (a\<lparr>app_logger := ?lg', app_tls := (app_tls a)(t := ?tls), app_time := n\<rparr>) (view_log st t (call_level c) (call_msg c) v)"
    using assms(3) r(2,3) cs(2) unfolding sim_def by (auto simp: Logger_Level_def DropCount_def)
  with c show ?thesis by blast
qed

text \<open>The worker's turn and the macro.\<close>

lemma log_stmt_sim:
  assumes "setting_ok st" "list_all sink_inv ss" "sim st ss w a v"
    and step: "\<And>a1 c. sim st ss w a1 v \<Longrightarrow> wf_call c \<Longrightarrow> call_level c = l \<Longrightarrow> call_msg c = m \<Longrightarrow>
      \<exists>lg tls. f (app_ctx a1) c (app_logger a1) (app_tls a1 t) = Some (x, lg, tls) \<and>
        sim st ss w (a1\<lparr>app_logger := lg, app_tls := (app_tls a1)(t := tls), app_time := Suc (app_time a)\<rparr>) v'"
  shows "\<exists>a'. log_stmt st t l m f a = Some (x, a') \<and> sim st ss w a' v'"
proof -
  obtain a1 where a1: "worker_turn st a = Some a1" "sim st ss w a1 v" using worker_turn_sim [OF assms(1-3)] by blast
  let ?c = "(set_site st (app_time a))\<lparr>call_level := l, call_msg := m\<rparr>"
  have "wf_call ?c" using assms(1) by (simp add: setting_ok_def wf_call_def)
  with step [OF a1(2), of ?c] a1(1) show ?thesis by (auto simp: log_stmt_def)
qed

lemma view_log_length: "length (lines v) \<le> length (lines (view_log st t l m v))"
  by (simp add: view_log_def)

lemma sim_time: "sim st ss w a v \<Longrightarrow> sim st ss w (a\<lparr>app_logger := app_logger a, app_tls := (app_tls a)(t := app_tls a t), app_time := n\<rparr>) v"
  by (simp add: sim_def)

lemma LOG_IF_refines:
  assumes "setting_ok st" "list_all sink_inv ss" "message_fits (set_cfg st) m"
  shows "refines st ss w (app_LOG_IF st t cond l m) (if cond then view_log st t l m else id)"
proof -
  let ?f = "\<lambda>ctx c lg tls. map_option (Pair ()) (LOG_IF cond (set_cfg st) (set_active st) ctx c lg tls)"
  let ?g = "if cond then view_log st t l m else id"
  have "\<exists>a'. log_stmt st t l m ?f a = Some ((), a') \<and> sim st ss w a' (?g v)"
    if "sim st ss w a v" "length (lines (?g v)) \<le> BR_LOG_RING_SIZE (set_cfg st)" for a v
  proof (rule log_stmt_sim [OF assms(1,2) that(1)])
    fix a1 c assume 1: "sim st ss w a1 v" "wf_call c" "call_level c = l" "call_msg c = m"
    show "\<exists>lg tls. ?f (app_ctx a1) c (app_logger a1) (app_tls a1 t) = Some ((), lg, tls) \<and>
        sim st ss w (a1\<lparr>app_logger := lg, app_tls := (app_tls a1)(t := tls), app_time := Suc (app_time a)\<rparr>) (?g v)"
      using BR_LOG_CALL_sim [OF assms(1,2) 1(1,2), of t "Suc (app_time a)"] 1 assms(3) that(2) sim_time [OF 1(1)]
      by (cases cond) (auto simp: LOG_IF_def)
  qed
  then show ?thesis by (fastforce simp: refines_def app_LOG_IF_def view_log_length)
qed

lemma LOG_eq: "LOG st t l m = app_LOG_IF st t True l m"
  by (simp add: LOG_def app_LOG_IF_def LOG_IF_def fun_eq_iff)

lemma LOG_refines:
  assumes "setting_ok st" "list_all sink_inv ss" "message_fits (set_cfg st) m"
  shows "refines st ss w (LOG st t l m) (view_log st t l m)"
  using LOG_IF_refines [OF assms, of w t True l] by (simp add: LOG_eq)

text \<open>The rate-limited statements: what they do depends on their static variable.\<close>

lemma LOG_EVERY_N_sim:
  assumes "setting_ok st" "list_all sink_inv ss" "message_fits (set_cfg st) m" "sim st ss w a v" "n \<noteq> 0"
    and "length (lines ((if cnt mod n = 0 then view_log st t l m else id) v)) \<le> BR_LOG_RING_SIZE (set_cfg st)"
  shows "\<exists>a'. app_LOG_EVERY_N st t n l m cnt a = Some (cnt + 1, a') \<and> sim st ss w a' ((if cnt mod n = 0 then view_log st t l m else id) v)"
  unfolding app_LOG_EVERY_N_def
proof (rule log_stmt_sim [OF assms(1,2,4)])
  fix a1 c assume 1: "sim st ss w a1 v" "wf_call c" "call_level c = l" "call_msg c = m"
  let ?f = "\<lambda>ctx c lg tls. LOG_EVERY_N n (set_cfg st) (set_active st) ctx c cnt lg tls"
  show "\<exists>lg tls. ?f (app_ctx a1) c (app_logger a1) (app_tls a1 t) = Some (cnt + 1, lg, tls) \<and>
        sim st ss w (a1\<lparr>app_logger := lg, app_tls := (app_tls a1)(t := tls), app_time := Suc (app_time a)\<rparr>)
          ((if cnt mod n = 0 then view_log st t l m else id) v)"
    using BR_LOG_CALL_sim [OF assms(1,2) 1(1,2), of t "Suc (app_time a)"] 1 assms(3,5,6) sim_time [OF 1(1)]
    by (cases "cnt mod n = 0") (auto simp: LOG_EVERY_N_def)
qed

lemma LOG_ONCE_sim:
  assumes "setting_ok st" "list_all sink_inv ss" "message_fits (set_cfg st) m" "sim st ss w a v"
    and "length (lines ((if logged then id else view_log st t l m) v)) \<le> BR_LOG_RING_SIZE (set_cfg st)"
  shows "\<exists>a'. app_LOG_ONCE st t l m logged a = Some (True, a') \<and> sim st ss w a' ((if logged then id else view_log st t l m) v)"
  unfolding app_LOG_ONCE_def
proof (rule log_stmt_sim [OF assms(1,2,4)])
  fix a1 c assume 1: "sim st ss w a1 v" "wf_call c" "call_level c = l" "call_msg c = m"
  let ?f = "\<lambda>ctx c lg tls. LOG_ONCE (set_cfg st) (set_active st) ctx c logged lg tls"
  show "\<exists>lg tls. ?f (app_ctx a1) c (app_logger a1) (app_tls a1 t) = Some (True, lg, tls) \<and>
        sim st ss w (a1\<lparr>app_logger := lg, app_tls := (app_tls a1)(t := tls), app_time := Suc (app_time a)\<rparr>)
          ((if logged then id else view_log st t l m) v)"
    using BR_LOG_CALL_sim [OF assms(1,2) 1(1,2), of t "Suc (app_time a)"] 1 assms(3,5) sim_time [OF 1(1)]
    by (cases logged) (auto simp: LOG_ONCE_def)
qed

subsection \<open>Composition\<close>

lemma refinesI:
  "(\<And>v. length (lines v) \<le> length (lines (g v))) \<Longrightarrow>
   (\<And>a v. sim st ss w a v \<Longrightarrow> length (lines (g v)) \<le> BR_LOG_RING_SIZE (set_cfg st) \<Longrightarrow> \<exists>a'. f a = Some a' \<and> sim st ss w a' (g v)) \<Longrightarrow>
   refines st ss w f g"
  by (simp add: refines_def)

lemma refinesD:
  assumes "refines st ss w f g"
  shows "length (lines v) \<le> length (lines (g v))"
    and "sim st ss w a v \<Longrightarrow> length (lines (g v)) \<le> BR_LOG_RING_SIZE (set_cfg st) \<Longrightarrow> \<exists>a'. f a = Some a' \<and> sim st ss w a' (g v)"
  using assms by (simp_all add: refines_def)

lemma LOG_EVERY_N_refines:
  assumes "setting_ok st" "list_all sink_inv ss" "message_fits (set_cfg st) m" "n \<noteq> 0"
  shows "refines st ss w (\<lambda>a. map_option snd (app_LOG_EVERY_N st t n l m cnt a)) (if cnt mod n = 0 then view_log st t l m else id)"
proof (rule refinesI)
  let ?g = "if cnt mod n = 0 then view_log st t l m else id"
  show "length (lines v) \<le> length (lines (?g v))" for v by (simp add: view_log_length)
  fix a v assume "sim st ss w a v" "length (lines (?g v)) \<le> BR_LOG_RING_SIZE (set_cfg st)"
  then obtain a' where "app_LOG_EVERY_N st t n l m cnt a = Some (cnt + 1, a')" "sim st ss w a' (?g v)"
    using LOG_EVERY_N_sim [OF assms(1-3) _ assms(4)] by blast
  then show "\<exists>a'. map_option snd (app_LOG_EVERY_N st t n l m cnt a) = Some a' \<and> sim st ss w a' (?g v)" by simp
qed

lemma refines_skip: "refines st ss w Some (\<lambda>v. v)"
  by (simp add: refines_def)

lemma refines_seq:
  assumes "refines st ss w f g" "refines st ss w f' g'"
  shows "refines st ss w (\<lambda>a. do { a1 \<leftarrow> f a; f' a1 }) (g' \<circ> g)"
proof (rule refinesI)
  show "length (lines v) \<le> length (lines ((g' \<circ> g) v))" for v
    using refinesD(1) [OF assms(1), of v] refinesD(1) [OF assms(2), of "g v"] by simp
  fix a v assume s: "sim st ss w a v" "length (lines ((g' \<circ> g) v)) \<le> BR_LOG_RING_SIZE (set_cfg st)"
  then have "length (lines (g v)) \<le> BR_LOG_RING_SIZE (set_cfg st)" using refinesD(1) [OF assms(2), of "g v"] by simp
  then obtain a1 where "f a = Some a1" "sim st ss w a1 (g v)" using refinesD(2) [OF assms(1) s(1)] by blast
  with refinesD(2) [OF assms(2)] s(2) show "\<exists>a'. do { a1 \<leftarrow> f a; f' a1 } = Some a' \<and> sim st ss w a' ((g' \<circ> g) v)" by simp
qed

text \<open>A sequence of statements, and its effect.\<close>

fun run_all :: "('w app \<Rightarrow> 'w app option) list \<Rightarrow> 'w app \<Rightarrow> 'w app option" where
  "run_all [] a = Some a"
| "run_all (f # fs) a = do { a1 \<leftarrow> f a; run_all fs a1 }"

lemma run_all_refines: "list_all2 (refines st ss w) fs gs \<Longrightarrow> refines st ss w (run_all fs) (fold id gs)"
proof (induction rule: list_all2_induct)
  case Nil
  have "run_all [] = (Some :: 'a app \<Rightarrow> 'a app option)" by (simp add: fun_eq_iff)
  then show ?case using refines_skip [of st ss w] by (simp add: id_def)
next
  case (Cons f fs g gs)
  have "run_all (f # fs) = (\<lambda>a. do { a1 \<leftarrow> f a; run_all fs a1 })" by (simp add: fun_eq_iff)
  with refines_seq [OF Cons.hyps(1) Cons.IH] show ?case by (simp add: comp_def)
qed

text \<open>Loops over a rate-limited statement with the messages \<open>ms\<close>, from a given value of its static variable.\<close>

fun every_n_loop :: "'w setting \<Rightarrow> nat \<Rightarrow> u64 \<Rightarrow> LogLevel \<Rightarrow> message list \<Rightarrow> u64 \<Rightarrow> 'w app \<Rightarrow> 'w app option" where
  "every_n_loop st t n l [] cnt a = Some a"
| "every_n_loop st t n l (m # ms) cnt a = do { (cnt', a1) \<leftarrow> app_LOG_EVERY_N st t n l m cnt a; every_n_loop st t n l ms cnt' a1 }"

fun once_loop :: "'w setting \<Rightarrow> nat \<Rightarrow> LogLevel \<Rightarrow> message list \<Rightarrow> bool \<Rightarrow> 'w app \<Rightarrow> 'w app option" where
  "once_loop st t l [] logged a = Some a"
| "once_loop st t l (m # ms) logged a = do { (logged', a1) \<leftarrow> app_LOG_ONCE st t l m logged a; once_loop st t l ms logged' a1 }"

lemma every_n_loop_refines:
  assumes "setting_ok st" "list_all sink_inv ss" "0 < n" "n < 2 ^ 64"
  shows "list_all (message_fits (set_cfg st)) ms \<Longrightarrow> i + length ms < 2 ^ 64 \<Longrightarrow>
    refines st ss w (every_n_loop st t (of_nat n) l ms (of_nat i))
      (fold (view_log st t l) (nths ms {j. (i + j) mod n = 0}))"
proof (induction ms arbitrary: i)
  case Nil
  have "every_n_loop st t (of_nat n) l [] (of_nat i) = Some" by (simp add: fun_eq_iff)
  then show ?case using refines_skip by simp
next
  case (Cons m ms)
  have "unat (of_nat i :: u64) = i" "unat (of_nat n :: u64) = n" using Cons.prems(2) assms(4) by (simp_all add: unat_of_nat_small)
  then have z: "(of_nat i :: u64) mod of_nat n = 0 \<longleftrightarrow> i mod n = 0" "(of_nat n :: u64) \<noteq> 0"
    using assms(3) by (simp_all add: word_unat_eq_iff unat_mod)
  let ?f = "\<lambda>a. map_option snd (app_LOG_EVERY_N st t (of_nat n) l m (of_nat i) a)" and ?g = "if i mod n = 0 then view_log st t l m else id"
  note step = LOG_EVERY_N_sim [OF assms(1,2) _ _ z(2), of m w _ _ "of_nat i" t l, unfolded z(1)]
  have f: "refines st ss w ?f ?g"
    using LOG_EVERY_N_refines [OF assms(1,2) _ z(2), of m w t l "of_nat i", unfolded z(1)] Cons.prems(1) by simp
  have IH: "refines st ss w (every_n_loop st t (of_nat n) l ms (of_nat i + 1)) (fold (view_log st t l) (nths ms {j. (i + Suc j) mod n = 0}))"
    using Cons.IH [of "Suc i"] Cons.prems by (simp add: add.commute)
  have e: "fold (view_log st t l) (nths (m # ms) {j. (i + j) mod n = 0}) =
      fold (view_log st t l) (nths ms {j. (i + Suc j) mod n = 0}) \<circ> ?g" by (simp add: nths_Cons)
  show ?case
  proof (rule refinesI)
    fix a v assume s: "sim st ss w a v" "length (lines (fold (view_log st t l) (nths (m # ms) {j. (i + j) mod n = 0}) v)) \<le> BR_LOG_RING_SIZE (set_cfg st)"
    then have "length (lines (?g v)) \<le> BR_LOG_RING_SIZE (set_cfg st)" using refinesD(1) [OF IH, of "?g v"] unfolding e by simp
    then obtain a1 where "app_LOG_EVERY_N st t (of_nat n) l m (of_nat i) a = Some (of_nat i + 1, a1)" "sim st ss w a1 (?g v)"
      using step [OF _ s(1)] Cons.prems(1) by auto
    with refinesD(2) [OF IH] s(2) show "\<exists>a'. every_n_loop st t (of_nat n) l (m # ms) (of_nat i) a = Some a' \<and>
        sim st ss w a' (fold (view_log st t l) (nths (m # ms) {j. (i + j) mod n = 0}) v)" unfolding e by simp
  qed (use refinesD(1) [OF refines_seq [OF f IH]] in \<open>simp only: e\<close>)
qed

lemma once_loop_refines:
  assumes "setting_ok st" "list_all sink_inv ss"
  shows "list_all (message_fits (set_cfg st)) ms \<Longrightarrow>
    refines st ss w (once_loop st t l ms logged) (fold (view_log st t l) (if logged then [] else take 1 ms))"
proof (induction ms arbitrary: logged)
  case Nil
  have "once_loop st t l [] logged = Some" by (simp add: fun_eq_iff)
  then show ?case using refines_skip by simp
next
  case (Cons m ms)
  have IH: "refines st ss w (once_loop st t l ms True) id" using Cons.IH [of True] Cons.prems by (simp add: id_def)
  let ?g = "if logged then id else view_log st t l m"
  have e: "fold (view_log st t l) (if logged then [] else take 1 (m # ms)) = ?g" by simp
  show ?case unfolding e
  proof (rule refinesI)
    fix a v assume s: "sim st ss w a v" "length (lines (?g v)) \<le> BR_LOG_RING_SIZE (set_cfg st)"
    then obtain a1 where "app_LOG_ONCE st t l m logged a = Some (True, a1)" "sim st ss w a1 (?g v)"
      using LOG_ONCE_sim [OF assms(1,2) _ s(1), of m logged t l] Cons.prems by (auto simp del: fun_upd_apply)
    with refinesD(2) [OF IH] s(2) show "\<exists>a'. once_loop st t l (m # ms) logged a = Some a' \<and> sim st ss w a' (?g v)" by simp
  qed (simp add: view_log_length)
qed

subsection \<open>Context statements\<close>

definition view_thread :: "nat \<Rightarrow> (string \<Rightarrow> string) \<Rightarrow> ((string \<times> string) list \<Rightarrow> (string \<times> string) list) \<Rightarrow> view \<Rightarrow> view" where
  "view_thread t f g v = v\<lparr>threads := (threads v)(t := map_prod f g (threads v t))\<rparr>"

lemma on_tls_refines:
  assumes "\<And>s. tls_wf (set_cfg st) s \<Longrightarrow> \<exists>s'. f s = Some s' \<and> tls_wf (set_cfg st) s' \<and>
    c_str (tls_thread_name s') = nm (c_str (tls_thread_name s)) \<and> tls_texts s' = tg (tls_texts s)"
  shows "refines st ss w (on_tls t f) (view_thread t nm tg)"
proof (rule refinesI)
  fix a v assume s: "sim st ss w a v"
  then have "tls_wf (set_cfg st) (app_tls a t)" by (simp add: sim_def)
  then obtain s' where "f (app_tls a t) = Some s'" "tls_wf (set_cfg st) s'"
    "c_str (tls_thread_name s') = nm (c_str (tls_thread_name (app_tls a t)))" "tls_texts s' = tg (tls_texts (app_tls a t))"
    using assms by blast
  with s show "\<exists>a'. on_tls t f a = Some a' \<and> sim st ss w a' (view_thread t nm tg v)"
    by (simp add: on_tls_def sim_def view_thread_def)
qed (simp add: view_thread_def)

lemma on_ctx_refines:
  assumes "\<And>c. ctx_wf (set_cfg st) c \<Longrightarrow> \<exists>c'. f c = Some c' \<and> ctx_wf (set_cfg st) c' \<and> ctx_tags c' = tg (ctx_tags c)"
  shows "refines st ss w (on_ctx f) (\<lambda>v. v\<lparr>globals := tg (globals v)\<rparr>)"
proof (rule refinesI)
  fix a v assume s: "sim st ss w a v"
  then have "ctx_wf (set_cfg st) (app_ctx a)" by (simp add: sim_def)
  then obtain c' where "f (app_ctx a) = Some c'" "ctx_wf (set_cfg st) c'" "ctx_tags c' = tg (ctx_tags (app_ctx a))"
    using assms by blast
  with s show "\<exists>a'. on_ctx f a = Some a' \<and> sim st ss w a' (v\<lparr>globals := tg (globals v)\<rparr>)"
    by (simp add: on_ctx_def sim_def)
qed simp

lemma SetThreadName_refines:
  assumes "terminated n"
  shows "refines st ss w (on_tls t (SetThreadName (Some n))) (view_thread t (\<lambda>_. take 31 (c_str n)) id)"
proof (rule on_tls_refines)
  fix s assume wf: "tls_wf (set_cfg st) s"
  then obtain b where "copy_str (tls_thread_name s) n 32 = Some b" "length b = 32" "terminated b" "c_str b = take 31 (c_str n)"
    using copy_str_ok [of 32 "tls_thread_name s" n] assms by (auto simp: tls_wf_def)
  with wf show "\<exists>s'. SetThreadName (Some n) s = Some s' \<and> tls_wf (set_cfg st) s' \<and>
      c_str (tls_thread_name s') = take 31 (c_str n) \<and> tls_texts s' = id (tls_texts s)"
    by (simp add: SetThreadName_def tls_wf_def tls_texts_def)
qed

definition push_text :: "config \<Rightarrow> bytes \<Rightarrow> bytes \<Rightarrow> (string \<times> string) list \<Rightarrow> (string \<times> string) list" where
  "push_text cfg k v ts = (if length ts < BR_LOG_MAX_TAGS cfg then ts @ [(stored_key cfg k, stored_value cfg v)] else ts)"

definition pop_text :: "bytes \<Rightarrow> (string \<times> string) list \<Rightarrow> (string \<times> string) list" where
  "pop_text k ts = (case find (\<lambda>i. fst (ts ! i) = c_str k) (rev [0..<length ts]) of None \<Rightarrow> ts | Some i \<Rightarrow> swap_remove_list ts i)"

lemma pop_text_last: "pop_text k (ts @ [(c_str k, x)]) = ts"
  using find_rev_last [of "ts @ [(c_str k, x)]" "\<lambda>i. fst ((ts @ [(c_str k, x)]) ! i) = c_str k"]
  by (simp add: pop_text_def swap_remove_list_def)

lemma PushScopedTag_refines:
  assumes "setting_ok st" "terminated k" "terminated v"
  shows "refines st ss w (on_tls t (PushScopedTag (set_cfg st) (Some k) (Some v))) (view_thread t id (push_text (set_cfg st) k v))"
proof (rule on_tls_refines)
  fix s assume "tls_wf (set_cfg st) s"
  with PushScopedTag_ok [of "set_cfg st" s k v] assms obtain s' where "PushScopedTag (set_cfg st) (Some k) (Some v) s = Some s'" "tls_wf (set_cfg st) s'"
    "tls_texts s' = push_text (set_cfg st) k v (tls_texts s)" by (auto simp: setting_ok_def push_text_def)
  moreover from this(1) have "tls_thread_name s' = tls_thread_name s" by (auto simp: PushScopedTag_def split: Option.bind_splits)
  ultimately show "\<exists>s'. PushScopedTag (set_cfg st) (Some k) (Some v) s = Some s' \<and> tls_wf (set_cfg st) s' \<and>
      c_str (tls_thread_name s') = id (c_str (tls_thread_name s)) \<and> tls_texts s' = push_text (set_cfg st) k v (tls_texts s)" by simp
qed

lemma PopScopedTag_refines:
  assumes "terminated k"
  shows "refines st ss w (on_tls t (PopScopedTag (set_cfg st) (Some k))) (view_thread t id (pop_text k))"
proof (rule on_tls_refines)
  fix s assume "tls_wf (set_cfg st) s"
  with PopScopedTag_ok [of "set_cfg st" s k] assms obtain s' where "PopScopedTag (set_cfg st) (Some k) s = Some s'" "tls_wf (set_cfg st) s'"
    "tls_texts s' = pop_text k (tls_texts s)" by (auto simp: pop_text_def)
  moreover from this(1) have "tls_thread_name s' = tls_thread_name s"
    by (auto simp: PopScopedTag_def split: Option.bind_splits if_splits option.splits)
  ultimately show "\<exists>s'. PopScopedTag (set_cfg st) (Some k) s = Some s' \<and> tls_wf (set_cfg st) s' \<and>
      c_str (tls_thread_name s') = id (c_str (tls_thread_name s)) \<and> tls_texts s' = pop_text k (tls_texts s)" by simp
qed

lemma with_tag_refines:
  assumes "setting_ok st" "terminated k" "terminated v" "refines st ss w body g"
  shows "refines st ss w (with_tag st t k v body) (view_thread t id (pop_text k) \<circ> (g \<circ> view_thread t id (push_text (set_cfg st) k v)))"
  using refines_seq [OF refines_seq [OF PushScopedTag_refines [OF assms(1-3)] assms(4)] PopScopedTag_refines [OF assms(2)], of t t]
  by (simp add: with_tag_def [abs_def] Option.bind_assoc)

lemma SetGlobalTag_refines:
  assumes "setting_ok st" "terminated k" "terminated v"
  shows "refines st ss w (on_ctx (SetGlobalTag (set_cfg st) (Some k) (Some v)))
    (\<lambda>vw. vw\<lparr>globals := set_tag_text 16 (c_str k) (stored_key (set_cfg st) k) (stored_value (set_cfg st) v) (globals vw)\<rparr>)"
  using SetGlobalTag_ok [of "set_cfg st" _ k v] assms by (intro on_ctx_refines) (fastforce simp: setting_ok_def)

lemma names_refine:
  assumes "terminated n"
  shows "refines st ss w (on_ctx (SetProcessName (Some n))) id" "refines st ss w (on_ctx (SetAppVersion (Some n))) id"
proof -
  have "\<exists>c'. SetProcessName (Some n) c = Some c' \<and> ctx_wf (set_cfg st) c' \<and> ctx_tags c' = id (ctx_tags c)" if "ctx_wf (set_cfg st) c" for c
    using that copy_str_ok [of 64 "process_name c" n] assms by (auto simp: SetProcessName_def ctx_wf_def ctx_tags_def)
  from on_ctx_refines [of st _ id, OF this] show "refines st ss w (on_ctx (SetProcessName (Some n))) id" by (simp add: id_def)
  have "\<exists>c'. SetAppVersion (Some n) c = Some c' \<and> ctx_wf (set_cfg st) c' \<and> ctx_tags c' = id (ctx_tags c)" if "ctx_wf (set_cfg st) c" for c
    using that copy_str_ok [of 32 "app_version c" n] assms by (auto simp: SetAppVersion_def ctx_wf_def ctx_tags_def)
  from on_ctx_refines [of st _ id, OF this] show "refines st ss w (on_ctx (SetAppVersion (Some n))) id" by (simp add: id_def)
qed

subsection \<open>The beginning and the end\<close>

definition app_init :: "config \<Rightarrow> stdio \<times> 'w \<Rightarrow> 'w app" where
  "app_init cfg w = \<lparr>app_logger = Logger_init cfg, app_ctx = LogContext_init cfg, app_tls = (\<lambda>_. Tls_init cfg), app_world = w, app_time = 0\<rparr>"

definition view_init :: "LogContext \<Rightarrow> view" where
  "view_init ctx = \<lparr>lines = [], globals = ctx_tags ctx, threads = (\<lambda>_. ([], [])), threshold = INFO, live = False\<rparr>"

lemma init_view: "ctx_tags (LogContext_init cfg) = []" "tls_texts (Tls_init cfg) = []" "c_str (tls_thread_name (Tls_init cfg)) = []"
  by (simp_all add: ctx_tags_def LogContext_init_def tls_texts_def Tls_init_def tag_texts_def c_str_def numeral_eq_Suc)

text \<open>A fresh logger with the sinks of the program.\<close>

lemma sim_init:
  assumes "setting_ok st" and "app_logger a = fold Logger_AddSink ss (Logger_init (set_cfg st))" and "ctx_wf (set_cfg st) (app_ctx a)"
    and "app_tls a = (\<lambda>_. Tls_init (set_cfg st))" and "app_world a = w"
  shows "sim st ss w a (view_init (app_ctx a))"
proof -
  have "logger_reach (set_cfg st) (set_env st) (set_active st) ss w [] (app_logger a) (app_world a)"
    using logger_reach.fresh [OF assms(2)] assms(5) by simp
  moreover have "ring_size (ring (LoggerBackend_init (set_cfg st))) = 0" "Capacity (ring (LoggerBackend_init (set_cfg st))) = BR_LOG_RING_SIZE (set_cfg st)"
    using assms(1) by (simp_all add: LoggerBackend_init_def flip: length_ring_list)
  moreover have "tls_wf (set_cfg st) (Tls_init (set_cfg st))" using ctx_init_wf(2) assms(1) by (simp add: setting_ok_def)
  ultimately show ?thesis using assms(2-4)
    by (simp add: sim_def view_init_def init_view Logger_init_def fold_Logger_AddSink fold_AddSink Logger_Level_def DropCount_def)
qed

lemma SetLevel_refines: "refines st ss w (on_logger (Logger_SetLevel l)) (\<lambda>v. v\<lparr>threshold := l\<rparr>)"
proof (rule refinesI)
  fix a v assume s: "sim st ss w a v"
  then have "sim st ss w (a\<lparr>app_logger := Logger_SetLevel l (app_logger a)\<rparr>) (v\<lparr>threshold := l\<rparr>)"
    using logger_reach.set_level [of "set_cfg st" "set_env st" "set_active st" ss w _ "app_logger a" "app_world a" l]
    by (auto simp: sim_def Logger_SetLevel_def Logger_Level_def DropCount_def)
  then show "\<exists>a'. on_logger (Logger_SetLevel l) a = Some a' \<and> sim st ss w a' (v\<lparr>threshold := l\<rparr>)" by (simp add: on_logger_def)
qed simp

lemma Start_refines: "refines st ss w (on_logger (Logger_Start (set_cfg st))) (\<lambda>v. v\<lparr>live := True\<rparr>)"
proof (rule refinesI)
  fix a v assume s: "sim st ss w a v"
  let ?a = "a\<lparr>app_logger := Logger_Start (set_cfg st) (app_logger a)\<rparr>"
  have "\<exists>cs. logger_reach (set_cfg st) (set_env st) (set_active st) ss w cs (app_logger ?a) (app_world ?a) \<and> lines v = map (call_line (set_cfg st)) cs"
    using s logger_reach.start [of "set_cfg st" "set_env st" "set_active st" ss w _ "app_logger a" "app_world a"]
    unfolding sim_def by auto
  then have "sim st ss w ?a (v\<lparr>live := True\<rparr>)"
    using s by (auto simp: sim_def Logger_Start_def backend_Start_def Logger_Level_def DropCount_def)
  then show "\<exists>a'. on_logger (Logger_Start (set_cfg st)) a = Some a' \<and> sim st ss w a' (v\<lparr>live := True\<rparr>)" by (simp add: on_logger_def)
qed simp

lemma entries_lines: "entries_of_calls cfg n cs es \<Longrightarrow> map entry_line es = map (call_line cfg) cs"
  by (induction cfg n cs es rule: entries_of_calls.induct) (auto simp: entry_line_def call_line_def entry_of_call_def)

text \<open>Stopping the logger: the entries of all lines, in order, have been given to every sink, and the sinks are flushed.\<close>

lemma sim_stop:
  assumes "setting_ok st" "list_all sink_inv ss" "sim st ss w a v" "length (lines v) < 2 ^ 64" "live v"
  shows "\<exists>es ss1 w1 lg'. map entry_line es = lines v \<and> dispatch_list (log_sinks (set_env st)) es ss w = Some (ss1, w1) \<and>
    Logger_Stop (log_sinks (set_env st)) k idle (app_logger a) (app_world a) = Some (lg', snd (flush_all (log_sinks (set_env st)) ss1 w1)) \<and>
    sinks (backend lg') = fst (flush_all (log_sinks (set_env st)) ss1 w1) \<and> ring_list (ring (backend lg')) = []"
proof -
  have ok: "valid_config (set_cfg st)" "localtime_ok (fst (env_tz (set_env st)))" "length (env_junk (set_env st)) = 128"
    using assms(1) by (simp_all add: setting_ok_def)
  obtain cs where cs: "logger_reach (set_cfg st) (set_env st) (set_active st) ss w cs (app_logger a) (app_world a)"
    "lines v = map (call_line (set_cfg st)) cs" "started (app_logger a)" "DropCount (app_logger a) = 0"
    using assms(3,5) unfolding sim_def by blast
  obtain es acc ss1 w1 lg' where d: "entries_of_calls (set_cfg st) 0 cs es" "subseq acc es"
    "DropCount (app_logger a) = of_nat (length cs - length acc)" "dispatch_list (log_sinks (set_env st)) acc ss w = Some (ss1, w1)"
    "Logger_Stop (log_sinks (set_env st)) k idle (app_logger a) (app_world a) = Some (lg', snd (flush_all (log_sinks (set_env st)) ss1 w1))"
    "sinks (backend lg') = fst (flush_all (log_sinks (set_env st)) ss1 w1)" "ring_list (ring (backend lg')) = []"
    using logger_stop_delivers [OF cs(1) ok(1) assms(2) ok(2,3) cs(3), of k idle] by blast
  have len: "length es = length cs" using arg_cong [OF entries_lines [OF d(1)], of length] by simp
  have "(of_nat (length cs - length acc) :: u64) = 0" using d(3) cs(4) by simp
  moreover have "length cs - length acc < 2 ^ 64" using assms(4) cs(2) by simp
  ultimately have "length cs - length acc = 0" using unat_of_nat_small [of "length cs - length acc", where 'w = 64] by simp
  moreover have "length acc \<le> length es" using d(2) by (rule list_emb_length)
  ultimately have "acc = es" using subseq_same_length [OF d(2)] len by simp
  with d entries_lines [OF d(1)] cs(2) show ?thesis by metis
qed

subsection \<open>Several statements, and the build for a host\<close>

text \<open>The lines whose level the build keeps.\<close>

abbreviation shown :: "'w setting \<Rightarrow> log_line list \<Rightarrow> log_line list" where
  "shown st \<equiv> filter (\<lambda>x. set_active st \<le> level_value (fst x))"

lemma shown_length: "length (shown st ls) \<le> length ls"
  by (rule length_filter_le)

text \<open>Statements of one thread in a row.\<close>

lemma view_logs:
  assumes "threshold v = TRACE"
  shows "fold (\<lambda>(l, m). view_log st t l m) items v = v\<lparr>lines := lines v @ shown st (map (\<lambda>(l, m). (l, message_text (set_cfg st) m,
    take (BR_LOG_MAX_TAGS (set_cfg st)) (globals v @ snd (threads v t)), fst (threads v t))) items)\<rparr>"
  using assms
proof (induction items arbitrary: v)
  case (Cons x items)
  obtain l m where x: "x = (l, m)" by force
  let ?v = "view_log st t l m v"
  have "TRACE \<le> l" by (cases l) (simp_all add: less_eq_LogLevel_def)
  then have "?v = v\<lparr>lines := lines v @ shown st [(l, message_text (set_cfg st) m,
      take (BR_LOG_MAX_TAGS (set_cfg st)) (globals v @ snd (threads v t)), fst (threads v t))]\<rparr>"
    using Cons.prems by (simp add: view_log_def)
  with Cons.IH [of ?v] Cons.prems show ?case unfolding x by (simp del: filter.simps add: filter_append [symmetric])
qed simp

lemma host_config [simp]:
  "BR_LOG_MAX_MSG_LEN (platform_config False) = 384" "BR_LOG_MAX_TAGS (platform_config False) = 8"
  "BR_LOG_MAX_TAG_KEY_LEN (platform_config False) = 32" "BR_LOG_MAX_TAG_VAL_LEN (platform_config False) = 64"
  "BR_LOG_RING_SIZE (platform_config False) = 8192"
  by (simp_all add: platform_config_def)

definition demo_setting :: "mem_os setting" where
  "demo_setting = \<lparr>set_cfg = platform_config False, set_active = 0, set_env = demo_env, set_site = (\<lambda>_. demo_call), set_turn = (\<lambda>_. 64)\<rparr>"

lemma demo_setting_ok: "setting_ok demo_setting" "set_cfg demo_setting = platform_config False"
  using demo_env_ok demo_call_good valid_platform_config by (simp_all add: setting_ok_def demo_setting_def good_call_def)

end
