(* ===== verification/Example_Basic.thy ===== *)
theory Example_Basic
  imports Application
begin

text \<open>
  The example program \<open>examples/basic_cpp/main.cpp\<close>: three sinks, tags, all kinds of logging statements and two
  threads. The theorem says what a run of it logs, whatever the worker does meanwhile and however the two threads
  are interleaved. Thread 0 is the main thread, threads 1 and 2 are \<open>t1\<close> and \<open>t2\<close>. The stream \<open>stderr\<close> of the
  callback's \<open>fprintf\<close> is part of the world \<open>'w\<close> (\<open>print_err\<close>), as for every callback.
\<close>

subsection \<open>Interleaving two threads\<close>

text \<open>
  The statements of two threads, each taken as a whole, in the order a scheduler chooses: true stands for the first.
  When the schedule or one thread has ended the rest follows.
\<close>

fun weave :: "bool list \<Rightarrow> 'a list \<Rightarrow> 'a list \<Rightarrow> 'a list" where
  "weave (True # s) (x # xs) ys = x # weave s xs ys"
| "weave (False # s) xs (y # ys) = y # weave s xs ys"
| "weave s xs ys = xs @ ys"

lemma append_in_shuffles: "xs @ ys \<in> shuffles xs ys"
  by (induction xs) (simp_all add: Cons_in_shuffles_leftI)

lemma weave_in_shuffles: "weave s xs ys \<in> shuffles xs ys"
  by (induction s xs ys rule: weave.induct)
     (auto simp: append_in_shuffles intro: Cons_in_shuffles_leftI Cons_in_shuffles_rightI
        append_in_shuffles [of _ "[]", simplified] append_in_shuffles [of "[]", simplified])

text \<open>Every interleaving is the choice of some schedule.\<close>

lemma shuffles_weave: "zs \<in> shuffles xs ys \<Longrightarrow> \<exists>s. weave s xs ys = zs"
proof (induction xs ys arbitrary: zs rule: shuffles.induct)
  case (1 ys)
  then show ?case by (intro exI [of _ "[]"]) simp
next
  case (2 xs)
  then show ?case by (intro exI [of _ "[]"]) simp
next
  case (3 x xs y ys)
  then consider (left) zs' where "zs = x # zs'" "zs' \<in> shuffles xs (y # ys)" | (right) zs' where "zs = y # zs'" "zs' \<in> shuffles (x # xs) ys"
    by auto
  then show ?case
  proof cases
    case left
    then show ?thesis using "3.IH"(1) [of zs'] by (metis weave.simps(1))
  next
    case right
    then show ?thesis using "3.IH"(2) [of zs'] by (metis weave.simps(2))
  qed
qed

lemma weave_map: "weave s (map f xs) (map f ys) = map f (weave s xs ys)"
  by (induction s xs ys rule: weave.induct) simp_all

lemma weave_list_all2: "list_all2 P xs xs' \<Longrightarrow> list_all2 P ys ys' \<Longrightarrow> list_all2 P (weave s xs ys) (weave s xs' ys')"
proof (induction s xs ys arbitrary: xs' ys' rule: weave.induct)
  case (1 s x xs ys)
  then show ?case by (auto simp: list_all2_Cons1)
next
  case (2 s xs y ys)
  then show ?case by (auto simp: list_all2_Cons1)
qed (auto intro: list_all2_appendI simp: list_all2_Cons1)

subsection \<open>What one thread does to the view\<close>

datatype thread_op = Rename string | Retag "(string \<times> string) list \<Rightarrow> (string \<times> string) list" | Line LogLevel message

fun op_view :: "'w setting \<Rightarrow> nat \<Rightarrow> thread_op \<Rightarrow> view \<Rightarrow> view" where
  "op_view st t (Rename n) v = view_thread t (\<lambda>_. n) id v"
| "op_view st t (Retag g) v = view_thread t id g v"
| "op_view st t (Line l m) v = view_log st t l m v"

text \<open>The lines a thread logs, and its name and tags afterwards, with the global tags and the level of \<open>v\<close>.\<close>

fun thread_lines :: "'w setting \<Rightarrow> view \<Rightarrow> thread_op list \<Rightarrow> string \<times> (string \<times> string) list \<Rightarrow> log_line list \<times> string \<times> (string \<times> string) list" where
  "thread_lines st v [] x = ([], x)"
| "thread_lines st v (Rename n # os) x = thread_lines st v os (n, snd x)"
| "thread_lines st v (Retag g # os) x = thread_lines st v os (fst x, g (snd x))"
| "thread_lines st v (Line l m # os) x =
     (let (ls, y) = thread_lines st v os x
      in (if set_active st \<le> level_value l \<and> threshold v \<le> l
          then (l, message_text (set_cfg st) m, take (BR_LOG_MAX_TAGS (set_cfg st)) (globals v @ snd x), fst x) # ls else ls, y))"

lemma thread_lines_view: "globals v' = globals v \<Longrightarrow> threshold v' = threshold v \<Longrightarrow> thread_lines st v' os x = thread_lines st v os x"
  by (induction st v os x rule: thread_lines.induct) (simp_all add: Let_def split_def)

lemma op_view_frame [simp]: "globals (op_view st t x v) = globals v" "threshold (op_view st t x v) = threshold v" "live (op_view st t x v) = live v"
  by (cases x; simp add: view_thread_def view_log_def)+

lemma op_view_thread: "t \<noteq> u \<Longrightarrow> threads (op_view st t x v) u = threads v u"
  by (cases x) (simp_all add: view_thread_def view_log_def)

text \<open>One operation of a thread: at most one line, then the rest.\<close>

lemma op_view_lines:
  "\<exists>pre. lines (op_view st t x v) = lines v @ pre \<and>
     thread_lines st v (x # os) (threads v t) =
       (pre @ fst (thread_lines st v os (threads (op_view st t x v) t)), snd (thread_lines st v os (threads (op_view st t x v) t)))"
  by (cases x) (auto simp: view_thread_def view_log_def split_def Let_def map_prod_def)

lemma op_view_upd:
  "(op_view st t x v)\<lparr>lines := L, threads := T\<rparr> = v\<lparr>lines := L, threads := T\<rparr>"
  by (rule view.equality) simp_all

lemma op_view_threads: "(threads (op_view st t x v))(t := y) = (threads v)(t := y)"
  by (auto simp: op_view_thread)

lemma ops_alone:
  "fold (op_view st t) os v = v\<lparr>lines := lines v @ fst (thread_lines st v os (threads v t)),
     threads := (threads v)(t := snd (thread_lines st v os (threads v t)))\<rparr>"
proof (induction os arbitrary: v)
  case (Cons x os)
  let ?v = "op_view st t x v"
  obtain pre where h: "lines ?v = lines v @ pre" "thread_lines st v (x # os) (threads v t) =
      (pre @ fst (thread_lines st v os (threads ?v t)), snd (thread_lines st v os (threads ?v t)))"
    using op_view_lines by blast
  have e: "thread_lines st ?v os y = thread_lines st v os y" for y by (rule thread_lines_view) simp_all
  have "fold (op_view st t) (x # os) v = ?v\<lparr>lines := lines ?v @ fst (thread_lines st v os (threads ?v t)),
      threads := (threads ?v)(t := snd (thread_lines st v os (threads ?v t)))\<rparr>"
    using Cons.IH [of ?v] by (simp only: fold.simps comp_apply e)
  then show ?case by (simp only: op_view_upd op_view_threads h append_assoc fst_conv snd_conv)
qed simp

text \<open>Two threads interleaved: an interleaving of their lines.\<close>

lemma shuffles_prepend: "zs \<in> shuffles xs ys \<Longrightarrow> pre @ zs \<in> shuffles (pre @ xs) ys" "zs \<in> shuffles xs ys \<Longrightarrow> pre @ zs \<in> shuffles xs (pre @ ys)"
  by (induction pre) (simp_all add: Cons_in_shuffles_leftI Cons_in_shuffles_rightI)

lemma ops_sequence:
  assumes "t \<noteq> u" and "weave s (map (op_view st t) os) (map (op_view st u) ps) = map (op_view st t) os @ map (op_view st u) ps"
  shows "\<exists>ls \<in> shuffles (fst (thread_lines st v os (threads v t))) (fst (thread_lines st v ps (threads v u))).
    fold id (weave s (map (op_view st t) os) (map (op_view st u) ps)) v =
      v\<lparr>lines := lines v @ ls, threads := (threads v)(t := snd (thread_lines st v os (threads v t)), u := snd (thread_lines st v ps (threads v u)))\<rparr>"
proof (rule bexI [OF _ append_in_shuffles])
  let ?os = "thread_lines st v os (threads v t)"
  let ?v = "v\<lparr>lines := lines v @ fst ?os, threads := (threads v)(t := snd ?os)\<rparr>"
  have f: "fold id (map (op_view st t) os) v = fold (op_view st t) os v" for t os v by (simp add: fold_map comp_def)
  have e: "thread_lines st ?v ps y = thread_lines st v ps y" for y by (rule thread_lines_view) simp_all
  have "threads ?v u = threads v u" using assms(1) by simp
  then show "fold id (weave s (map (op_view st t) os) (map (op_view st u) ps)) v =
      v\<lparr>lines := lines v @ fst ?os @ fst (thread_lines st v ps (threads v u)),
        threads := (threads v)(t := snd ?os, u := snd (thread_lines st v ps (threads v u)))\<rparr>"
    unfolding assms(2) fold_append comp_apply f ops_alone e by simp
qed

lemma ops_interleaved:
  assumes "t \<noteq> u"
  shows "\<exists>ls \<in> shuffles (fst (thread_lines st v os (threads v t))) (fst (thread_lines st v ps (threads v u))).
    fold id (weave s (map (op_view st t) os) (map (op_view st u) ps)) v =
      v\<lparr>lines := lines v @ ls, threads := (threads v)(t := snd (thread_lines st v os (threads v t)), u := snd (thread_lines st v ps (threads v u)))\<rparr>"
proof (induction s os ps arbitrary: v rule: weave.induct)
  case (1 s x os ps)
  let ?v = "op_view st t x v"
  obtain pre where h: "lines ?v = lines v @ pre" "thread_lines st v (x # os) (threads v t) =
      (pre @ fst (thread_lines st v os (threads ?v t)), snd (thread_lines st v os (threads ?v t)))"
    using op_view_lines by blast
  have e: "thread_lines st ?v os y = thread_lines st v os y" for y os by (rule thread_lines_view) simp_all
  have u: "threads ?v u = threads v u" using assms by (simp add: op_view_thread)
  obtain ls where ls: "ls \<in> shuffles (fst (thread_lines st v os (threads ?v t))) (fst (thread_lines st v ps (threads v u)))"
    "fold id (weave s (map (op_view st t) os) (map (op_view st u) ps)) ?v =
      ?v\<lparr>lines := lines ?v @ ls, threads := (threads ?v)(t := snd (thread_lines st v os (threads ?v t)), u := snd (thread_lines st v ps (threads v u)))\<rparr>"
    using "1.IH" [of ?v] unfolding e u by blast
  show ?case
    using shuffles_prepend(1) [OF ls(1), of pre] ls(2)
    by (intro bexI [of _ "pre @ ls"]) (simp_all only: weave.simps list.map fold.simps comp_apply id_def op_view_upd op_view_threads h append_assoc fst_conv snd_conv)
next
  case (2 s os p ps)
  let ?v = "op_view st u p v"
  obtain pre where h: "lines ?v = lines v @ pre" "thread_lines st v (p # ps) (threads v u) =
      (pre @ fst (thread_lines st v ps (threads ?v u)), snd (thread_lines st v ps (threads ?v u)))"
    using op_view_lines by blast
  have e: "thread_lines st ?v os y = thread_lines st v os y" for y os by (rule thread_lines_view) simp_all
  have u: "threads ?v t = threads v t" using assms by (simp add: op_view_thread)
  have tw: "f(t := y, u := z) = f(u := z, t := y)" for f :: "nat \<Rightarrow> string \<times> (string \<times> string) list" and y z
    using assms by (rule fun_upd_twist)
  obtain ls where ls: "ls \<in> shuffles (fst (thread_lines st v os (threads v t))) (fst (thread_lines st v ps (threads ?v u)))"
    "fold id (weave s (map (op_view st t) os) (map (op_view st u) ps)) ?v =
      ?v\<lparr>lines := lines ?v @ ls, threads := (threads ?v)(u := snd (thread_lines st v ps (threads ?v u)), t := snd (thread_lines st v os (threads v t)))\<rparr>"
    using "2.IH" [of ?v] unfolding e u tw by blast
  show ?case
    using shuffles_prepend(2) [OF ls(1), of pre] ls(2)
    by (intro bexI [of _ "pre @ ls"]) (simp_all only: weave.simps list.map fold.simps comp_apply id_def op_view_upd op_view_threads h append_assoc fst_conv snd_conv tw)
qed (rule ops_sequence [OF assms], simp)+

subsection \<open>The program\<close>

text \<open>The callback of the third sink.\<close>

definition alert_callback :: "(string \<Rightarrow> 'w \<Rightarrow> 'w) \<Rightarrow> LogEntry \<Rightarrow> 'w \<Rightarrow> 'w" where
  "alert_callback print_err e w = (if ERROR \<le> level e then print_err (''[ALERT] '' @ c_str (msg e) @ [CHR 0x0A]) w else w)"

text \<open>
  The sinks. \<open>fbuf\<close> is what the line buffers of new sinks contain, \<open>out_tty\<close> and \<open>err_tty\<close> what \<open>isatty\<close> reports.
\<close>

definition basic_sinks ::
  "'w setting \<Rightarrow> bytes \<Rightarrow> bool \<Rightarrow> bool \<Rightarrow> (string \<Rightarrow> 'w \<Rightarrow> 'w) \<Rightarrow> 'w \<Rightarrow> 'w sink list \<times> 'w" where
  "basic_sinks st fbuf out_tty err_tty print_err w =
     (let console = SetFormatter (Pattern (PatternFormatter_init ''[%D %T.%e] [%L] [tid:%t] [%f:%#] %g %m'' True))
                      (ConsoleSink_init fbuf out_tty err_tty None);
          (file_sink, w1) = RotatingFileSink_init (env_px (set_env st)) fbuf ''/tmp/br_logger_example.log'' (1024 * 1024) 3 w;
          cb_sink = CallbackSink_init fbuf (Some (alert_callback print_err))
      in ([Console console, Rotating (SetFormatter (Json False) file_sink), Callback cb_sink], w1))"

definition basic_configuration :: "'w setting \<Rightarrow> ('w app \<Rightarrow> 'w app option) list" where
  "basic_configuration st =
     [on_logger (Logger_SetLevel TRACE),
      on_ctx (SetProcessName (Some (c_lit ''basic_example''))),
      on_ctx (SetAppVersion (Some (c_lit ''1.0.0''))),
      on_tls 0 (SetThreadName (Some (c_lit ''main''))),
      on_ctx (SetGlobalTag (set_cfg st) (Some (c_lit ''env'')) (Some (c_lit ''dev''))),
      on_logger (Logger_Start (set_cfg st))]"

definition basic_logging :: "'w setting \<Rightarrow> ('w app \<Rightarrow> 'w app option) list" where
  "basic_logging st =
     [LOG st 0 TRACE (PlainFmt (c_lit ''application started'')),
      LOG st 0 DEBUG (printed (''debug value: '' @ dec_digits 42)),
      LOG st 0 INFO (printed (''hello '' @ ''world'' @ '', version '' @ ''1.0'')),
      LOG st 0 WARN (printed (''disk usage at '' @ dec_digits 85 @ ''%'')),
      LOG st 0 ERROR (printed (''connection failed: '' @ ''timeout'')),
      with_tag st 0 (c_lit ''module'') (c_lit ''network'') (run_all
        [LOG st 0 INFO (printed (''sending request to '' @ ''api.example.com'')),
         LOG st 0 INFO (printed (''received '' @ dec_digits 4096 @ '' bytes''))]),
      LOG st 0 INFO (PlainFmt (c_lit ''back to main context'')),
      app_LOG_IF st 0 ((404 :: int) \<noteq> 200) WARN (printed (''HTTP error: '' @ dec_digits 404)),
      app_LOG_IF st 0 ((404 :: int) \<ge> 500) ERROR (printed (''server error: '' @ dec_digits 404)),
      every_n_loop st 0 25 INFO (map (\<lambda>i. printed (''progress: iteration '' @ dec_digits i)) [0..<100]) 0,
      once_loop st 0 WARN (replicate 10 (PlainFmt (c_lit ''this warning only appears once''))) False]"

text \<open>The lambda \<open>worker\<close> after its call of \<open>snprintf\<close>, which fills the array \<open>name\<close>.\<close>

definition worker_body :: "'w setting \<Rightarrow> nat \<Rightarrow> bytes \<Rightarrow> ('w app \<Rightarrow> 'w app option) list" where
  "worker_body st wid name =
     [on_tls wid (SetThreadName (Some name)),
      on_tls wid (PushScopedTag (set_cfg st) (Some (c_lit ''worker_id'')) (Some name))] @
     map (\<lambda>i. LOG st wid INFO (printed (''task '' @ dec_digits wid @ '' processing step '' @ dec_digits i))) [0..<5] @
     [on_tls wid (PopScopedTag (set_cfg st) (Some (c_lit ''worker_id'')))]"

definition farewell :: "stdio \<Rightarrow> stdio" where
  "farewell io = io\<lparr>std_out := fwrite (''Example finished. Check /tmp/br_logger_example.log for JSON output.'' @ [CHR 0x0A]) (std_out io)\<rparr>"

text \<open>\<open>sched\<close> interleaves the two threads. \<open>junk\<close> is what the arrays contain before; \<open>k\<close> and \<open>idle\<close> are as for \<open>Stop\<close>.\<close>

definition basic_main ::
  "'w setting \<Rightarrow> bytes \<Rightarrow> bool \<Rightarrow> bool \<Rightarrow> (string \<Rightarrow> 'w \<Rightarrow> 'w) \<Rightarrow> bytes \<Rightarrow> bool list \<Rightarrow> nat \<Rightarrow> u32 \<Rightarrow> stdio \<times> 'w \<Rightarrow>
   ('w app \<times> stdio \<times> 'w) option" where
  "basic_main st fbuf out_tty err_tty print_err junk sched k idle w =
     (let (ss, w1) = basic_sinks st fbuf out_tty err_tty print_err (snd w);
          a0 = app_init (set_cfg st) (fst w, w1)
      in do { a1 \<leftarrow> run_all (map (\<lambda>s. on_logger (Logger_AddSink s)) ss) a0;
              a2 \<leftarrow> run_all (basic_configuration st) a1;
              a3 \<leftarrow> run_all (basic_logging st) a2;
              (name1, _) \<leftarrow> snprintf junk 16 (''worker-'' @ dec_digits 1);
              (name2, _) \<leftarrow> snprintf junk 16 (''worker-'' @ dec_digits 2);
              a4 \<leftarrow> run_all (weave sched (worker_body st 1 name1) (worker_body st 2 name2)) a3;
              a5 \<leftarrow> LOG st 0 INFO (PlainFmt (c_lit ''shutting down'')) a4;
              (lg, w2) \<leftarrow> Logger_Stop (log_sinks (set_env st)) k idle (app_logger a5) (app_world a5);
              Some (a5\<lparr>app_logger := lg\<rparr>, apfst farewell w2) })"

subsection \<open>What it logs\<close>

definition basic_lines :: "log_line list" where
  "basic_lines =
     (let main_line = (\<lambda>(l, m). (l, m, [(''env'', ''dev'')], ''main'')) in
      map main_line
        [(TRACE, ''application started''), (DEBUG, ''debug value: 42''), (INFO, ''hello world, version 1.0''),
         (WARN, ''disk usage at 85%''), (ERROR, ''connection failed: timeout'')] @
      [(INFO, ''sending request to api.example.com'', [(''env'', ''dev''), (''module'', ''network'')], ''main''),
       (INFO, ''received 4096 bytes'', [(''env'', ''dev''), (''module'', ''network'')], ''main'')] @
      map main_line
        [(INFO, ''back to main context''), (WARN, ''HTTP error: 404''), (INFO, ''progress: iteration 0''),
         (INFO, ''progress: iteration 25''), (INFO, ''progress: iteration 50''), (INFO, ''progress: iteration 75''),
         (WARN, ''this warning only appears once'')])"

definition worker_lines :: "nat \<Rightarrow> log_line list" where
  "worker_lines wid =
     map (\<lambda>i. (INFO, ''task '' @ dec_digits wid @ '' processing step '' @ dec_digits i,
            [(''env'', ''dev''), (''worker_id'', ''worker-'' @ dec_digits wid)], ''worker-'' @ dec_digits wid)) [0..<5]"

lemma nths_progress: "nths (map f [0..<100]) {j. (0 + j) mod 25 = 0} = map f [0, 25, 50, 75]"
  by (simp add: nths_map nths_Cons upt_rec, simp add: eval_nat_numeral)

subsection \<open>The parts of the program\<close>

lemma basic_sinks_inv: "length fbuf = 2048 \<Longrightarrow> list_all sink_inv (fst (basic_sinks st fbuf out_tty err_tty print_err w))"
  by (simp add: basic_sinks_def Let_def split_def sink_wf_def SetFormatter_def ConsoleSink_init_def RotatingFileSink_init_def
      Rotating_OpenFile_def split: option.split)

lemma add_sinks:
  "run_all (map (\<lambda>s. on_logger (Logger_AddSink s)) ss) a = Some (a\<lparr>app_logger := fold Logger_AddSink ss (app_logger a)\<rparr>)"
  by (induction ss arbitrary: a) (simp_all add: on_logger_def)

definition basic_view :: view where
  "basic_view = \<lparr>lines = [], globals = [(''env'', ''dev'')], threads = (\<lambda>_. ([], []))(0 := (''main'', [])), threshold = TRACE, live = True\<rparr>"

text \<open>Setting a new key, when there is room.\<close>

lemma set_tag_text_new: "k \<notin> fst ` set ts \<Longrightarrow> length ts < cap \<Longrightarrow> set_tag_text cap k sk v ts = ts @ [(sk, v)]"
  using find_none [of ts k] by (simp add: set_tag_text_def)

lemma basic_configuration_view:
  assumes "setting_ok st" "list_all sink_inv ss" "set_cfg st = platform_config False"
  shows "\<exists>g. refines st ss w (run_all (basic_configuration st)) g \<and> g (view_init (LogContext_init (platform_config False))) = basic_view"
proof -
  let ?env = "\<lambda>vw. vw\<lparr>globals := set_tag_text 16 (c_str (c_lit ''env'')) (stored_key (set_cfg st) (c_lit ''env''))
      (stored_value (set_cfg st) (c_lit ''dev'')) (globals vw)\<rparr>"
  let ?gs = "[\<lambda>v. v\<lparr>threshold := TRACE\<rparr>, id, id, view_thread 0 (\<lambda>_. take 31 (c_str (c_lit ''main''))) id, ?env, \<lambda>v. v\<lparr>live := True\<rparr>]"
  have "list_all2 (refines st ss w) (basic_configuration st) ?gs"
    unfolding basic_configuration_def list_all2_Cons list_all2_Nil
    by (intro conjI TrueI refl SetLevel_refines names_refine [OF terminated_c_lit] SetThreadName_refines [OF terminated_c_lit]
        SetGlobalTag_refines [OF assms(1) terminated_c_lit terminated_c_lit] Start_refines)
  moreover have "fold id ?gs (view_init (LogContext_init (platform_config False))) = basic_view"
    by (simp add: view_init_def init_view basic_view_def view_thread_def set_tag_text_def stored_key_def stored_value_def assms(3) c_str_c_lit)
  ultimately show ?thesis using run_all_refines by blast
qed

definition items1 :: "(LogLevel \<times> message) list" where
  "items1 = [(TRACE, PlainFmt (c_lit ''application started'')), (DEBUG, printed (''debug value: '' @ dec_digits 42)),
     (INFO, printed (''hello '' @ ''world'' @ '', version '' @ ''1.0'')), (WARN, printed (''disk usage at '' @ dec_digits 85 @ ''%'')),
     (ERROR, printed (''connection failed: '' @ ''timeout''))]"

definition items2 :: "(LogLevel \<times> message) list" where
  "items2 = [(INFO, printed (''sending request to '' @ ''api.example.com'')), (INFO, printed (''received '' @ dec_digits 4096 @ '' bytes''))]"

definition items3 :: "(LogLevel \<times> message) list" where
  "items3 = [(INFO, PlainFmt (c_lit ''back to main context'')), (WARN, printed (''HTTP error: '' @ dec_digits 404))] @
     map (\<lambda>i. (INFO, printed (''progress: iteration '' @ dec_digits i))) [0, 25, 50, 75] @
     [(WARN, PlainFmt (c_lit ''this warning only appears once''))]"

lemma item_texts:
  "map (\<lambda>(l, m). (l, message_text (platform_config False) m)) items1 =
     [(TRACE, ''application started''), (DEBUG, ''debug value: 42''), (INFO, ''hello world, version 1.0''),
      (WARN, ''disk usage at 85%''), (ERROR, ''connection failed: timeout'')]"
  "map (\<lambda>(l, m). (l, message_text (platform_config False) m)) items2 =
     [(INFO, ''sending request to api.example.com''), (INFO, ''received 4096 bytes'')]"
  "map (\<lambda>(l, m). (l, message_text (platform_config False) m)) items3 =
     [(INFO, ''back to main context''), (WARN, ''HTTP error: 404''), (INFO, ''progress: iteration 0''),
      (INFO, ''progress: iteration 25''), (INFO, ''progress: iteration 50''), (INFO, ''progress: iteration 75''),
      (WARN, ''this warning only appears once'')]"
  by (simp_all add: items1_def items2_def items3_def c_str_c_lit dec_eval)

lemma main_logs:
  assumes "set_cfg st = platform_config False" "threshold v = TRACE" "threads v 0 = (''main'', ts)" "length (globals v @ ts) \<le> 8"
  shows "fold (\<lambda>(l, m). view_log st 0 l m) items v =
    v\<lparr>lines := lines v @ shown st (map (\<lambda>(l, m). (l, m, globals v @ ts, ''main'')) (map (\<lambda>(l, m). (l, message_text (platform_config False) m)) items))\<rparr>"
  using view_logs [OF assms(2), of st 0 items] assms(1,3,4) by (simp add: comp_def split_def)

abbreviation module_tag :: "'w setting \<Rightarrow> (view \<Rightarrow> view) \<Rightarrow> view \<Rightarrow> view" where
  "module_tag st g \<equiv> view_thread 0 id (pop_text (c_lit ''module'')) \<circ> (g \<circ> view_thread 0 id (push_text (set_cfg st) (c_lit ''module'') (c_lit ''network'')))"

text \<open>The effect of the statements, one by one, and grouped.\<close>

lemma fits_short: "length t < 384 \<Longrightarrow> message_fits (platform_config False) (printed t)"
  by simp

lemma basic_logging_refines:
  assumes "setting_ok st" "list_all sink_inv ss" "set_cfg st = platform_config False"
  shows "refines st ss w (run_all (basic_logging st))
    (fold (\<lambda>(l, m). view_log st 0 l m) items3 \<circ> (module_tag st (fold (\<lambda>(l, m). view_log st 0 l m) items2) \<circ> fold (\<lambda>(l, m). view_log st 0 l m) items1))"
proof -
  have L: "refines st ss w (LOG st 0 l m) (view_log st 0 l m)" if "message_fits (platform_config False) m" for l m
    using LOG_refines [OF assms(1,2)] that assms(3) by simp
  have I: "refines st ss w (app_LOG_IF st 0 True l m) (view_log st 0 l m)" "refines st ss w (app_LOG_IF st 0 False l m) id"
    if "message_fits (platform_config False) m" for l m
    using LOG_IF_refines [OF assms(1,2), of m w 0 True l] LOG_IF_refines [OF assms(1,2), of m w 0 False l] that assms(3) by simp_all
  have fit: "message_fits (platform_config False) (printed (''progress: iteration '' @ dec_digits i))" if "i < 100" for i
    using dec_digits_length [of i 2] that by simp
  let ?ms = "map (\<lambda>i. printed (''progress: iteration '' @ dec_digits i)) [0..<100]" and ?once = "PlainFmt (c_lit ''this warning only appears once'')"
  have E: "refines st ss w (every_n_loop st 0 25 INFO ?ms 0) (fold (view_log st 0 INFO) (map (\<lambda>i. printed (''progress: iteration '' @ dec_digits i)) [0, 25, 50, 75]))"
    using every_n_loop_refines [OF assms(1,2), of 25 ?ms 0 w 0 INFO] fit assms(3) unfolding nths_progress by (simp add: list_all_iff)
  have O: "refines st ss w (once_loop st 0 WARN (replicate 10 ?once) False) (view_log st 0 WARN ?once)"
    using once_loop_refines [OF assms(1,2), of "replicate 10 ?once" w 0 WARN False] assms(3) by (simp add: list_all_iff numeral_eq_Suc)
  have M: "refines st ss w (with_tag st 0 (c_lit ''module'') (c_lit ''network'') (run_all
        [LOG st 0 INFO (printed (''sending request to '' @ ''api.example.com'')), LOG st 0 INFO (printed (''received '' @ dec_digits 4096 @ '' bytes''))]))
      (module_tag st (fold id [view_log st 0 INFO (printed (''sending request to '' @ ''api.example.com'')),
        view_log st 0 INFO (printed (''received '' @ dec_digits 4096 @ '' bytes''))]))"
    by (intro with_tag_refines assms(1) terminated_c_lit run_all_refines) (simp add: L dec_eval)
  let ?gs = "[view_log st 0 TRACE (PlainFmt (c_lit ''application started'')), view_log st 0 DEBUG (printed (''debug value: '' @ dec_digits 42)),
       view_log st 0 INFO (printed (''hello '' @ ''world'' @ '', version '' @ ''1.0'')),
       view_log st 0 WARN (printed (''disk usage at '' @ dec_digits 85 @ ''%'')), view_log st 0 ERROR (printed (''connection failed: '' @ ''timeout'')),
       module_tag st (fold id [view_log st 0 INFO (printed (''sending request to '' @ ''api.example.com'')),
        view_log st 0 INFO (printed (''received '' @ dec_digits 4096 @ '' bytes''))]),
       view_log st 0 INFO (PlainFmt (c_lit ''back to main context'')), view_log st 0 WARN (printed (''HTTP error: '' @ dec_digits 404)), id,
       fold (view_log st 0 INFO) (map (\<lambda>i. printed (''progress: iteration '' @ dec_digits i)) [0, 25, 50, 75]), view_log st 0 WARN ?once]"
  have "list_all2 (refines st ss w) (basic_logging st) ?gs"
    unfolding basic_logging_def list_all2_Cons list_all2_Nil
    by (intro conjI M E O refl) (simp_all add: L I dec_eval)
  then have "refines st ss w (run_all (basic_logging st)) (fold id ?gs)" by (rule run_all_refines)
  moreover have "fold id ?gs = fold (\<lambda>(l, m). view_log st 0 l m) items3 \<circ>
      (module_tag st (fold (\<lambda>(l, m). view_log st 0 l m) items2) \<circ> fold (\<lambda>(l, m). view_log st 0 l m) items1)"
    by (simp add: items1_def items2_def items3_def comp_def)
  ultimately show ?thesis by simp
qed

lemma basic_logging_view:
  assumes "set_cfg st = platform_config False"
  shows "(fold (\<lambda>(l, m). view_log st 0 l m) items3 \<circ> (module_tag st (fold (\<lambda>(l, m). view_log st 0 l m) items2) \<circ> fold (\<lambda>(l, m). view_log st 0 l m) items1)) basic_view =
    basic_view\<lparr>lines := shown st basic_lines\<rparr>"
proof -
  let ?main = "[(''env'', ''dev'')]" and ?net = "[(''env'', ''dev''), (''module'', ''network'')]"
  let ?f = "\<lambda>items. map (\<lambda>(l, m). (l, message_text (platform_config False) m)) items"
  let ?v1 = "basic_view\<lparr>lines := shown st (map (\<lambda>(l, m). (l, m, ?main, ''main'')) (?f items1))\<rparr>"
  have 1: "fold (\<lambda>(l, m). view_log st 0 l m) items1 basic_view = ?v1"
    using main_logs [OF assms, of basic_view "[]" items1] by (simp add: basic_view_def)
  let ?p = "view_thread 0 id (push_text (set_cfg st) (c_lit ''module'') (c_lit ''network'')) ?v1"
  have p: "threads ?p 0 = (''main'', [(''module'', ''network'')])" "threshold ?p = TRACE" "globals ?p = ?main" "lines ?p = lines ?v1"
    using assms by (simp_all add: view_thread_def basic_view_def push_text_def stored_key_def stored_value_def c_str_c_lit)
  let ?v2 = "?p\<lparr>lines := lines ?v1 @ shown st (map (\<lambda>(l, m). (l, m, ?net, ''main'')) (?f items2))\<rparr>"
  have 2: "fold (\<lambda>(l, m). view_log st 0 l m) items2 ?p = ?v2"
    using main_logs [OF assms p(2,1), of items2] p(3,4) by simp
  have "pop_text (c_lit ''module'') [(''module'', ''network'')] = []"
    using pop_text_last [of "c_lit ''module''" "[]"] by (simp add: c_str_c_lit)
  then have 3: "view_thread 0 id (pop_text (c_lit ''module'')) ?v2 = basic_view\<lparr>lines := lines ?v2\<rparr>" (is "_ = ?v3")
    using p(1) by (intro view.equality) (auto simp: view_thread_def basic_view_def)
  have 4: "fold (\<lambda>(l, m). view_log st 0 l m) items3 ?v3 =
      ?v3\<lparr>lines := lines ?v3 @ shown st (map (\<lambda>(l, m). (l, m, ?main, ''main'')) (?f items3))\<rparr>"
    using main_logs [OF assms, of ?v3 "[]" items3] by (simp add: basic_view_def)
  show ?thesis unfolding comp_apply 1 2 3 4
    by (simp only: basic_lines_def Let_def item_texts filter_append [symmetric] append_assoc view.simps list.map case_prod_conv)
      (simp add: basic_view_def)
qed

subsection \<open>The two threads\<close>

definition worker_ops :: "'w setting \<Rightarrow> nat \<Rightarrow> bytes \<Rightarrow> thread_op list" where
  "worker_ops st wid name =
     [Rename (take 31 (c_str name)), Retag (push_text (set_cfg st) (c_lit ''worker_id'') name)] @
     map (\<lambda>i. Line INFO (printed (''task '' @ dec_digits wid @ '' processing step '' @ dec_digits i))) [0..<5] @
     [Retag (pop_text (c_lit ''worker_id''))]"

lemma worker_body_refines:
  assumes "setting_ok st" "list_all sink_inv ss" "set_cfg st = platform_config False" "terminated name" "wid < 100"
  shows "list_all2 (refines st ss w) (worker_body st wid name) (map (op_view st wid) (worker_ops st wid name))"
proof -
  have op: "op_view st wid (Rename n) = view_thread wid (\<lambda>_. n) id" "op_view st wid (Retag g) = view_thread wid id g"
    "op_view st wid (Line l m) = view_log st wid l m" for n g l m by (simp_all add: fun_eq_iff)
  have fit: "message_fits (platform_config False) (printed (''task '' @ dec_digits wid @ '' processing step '' @ dec_digits i))" if "i < 5" for i
    using dec_digits_length [of wid 2] dec_digits_length [of i 1] assms(5) that by simp
  then have "list_all2 (refines st ss w)
      (map (\<lambda>i. LOG st wid INFO (printed (''task '' @ dec_digits wid @ '' processing step '' @ dec_digits i))) [0..<5])
      (map (\<lambda>i. view_log st wid INFO (printed (''task '' @ dec_digits wid @ '' processing step '' @ dec_digits i))) [0..<5])"
    using LOG_refines [OF assms(1,2)] assms(3) by (auto simp: list_all2_map1 list_all2_map2 list_all2_same)
  then show ?thesis unfolding worker_body_def worker_ops_def map_append list.map op map_map comp_def
    by (intro list_all2_appendI) (auto intro: SetThreadName_refines [OF assms(4)] PushScopedTag_refines [OF assms(1) terminated_c_lit assms(4)]
        PopScopedTag_refines [OF terminated_c_lit])
qed

lemma thread_lines_Lines:
  assumes "threshold v = TRACE" "length (globals v @ snd x) \<le> BR_LOG_MAX_TAGS (set_cfg st)"
  shows "thread_lines st v (map (\<lambda>i. Line INFO (printed (f i))) is @ os) x =
    (shown st (map (\<lambda>i. (INFO, f i, globals v @ snd x, fst x)) is) @ fst (thread_lines st v os x), snd (thread_lines st v os x))"
  using assms by (induction "is") (simp_all add: Let_def split_def less_eq_LogLevel_def)

lemma worker_ops_lines:
  assumes "set_cfg st = platform_config False" "threshold v = TRACE" "globals v = [(''env'', ''dev'')]"
    and "c_str name = ''worker-'' @ dec_digits wid" "wid < 100"
  shows "thread_lines st v (worker_ops st wid name) ([], []) = (shown st (worker_lines wid), ''worker-'' @ dec_digits wid, [])"
proof -
  have "length (dec_digits wid) \<le> 2" using dec_digits_length [of wid 2] assms(5) by simp
  then have t: "take 31 (c_str name) = ''worker-'' @ dec_digits wid" "take 63 (c_str name) = ''worker-'' @ dec_digits wid"
    unfolding assms(4) by simp_all
  have "pop_text (c_lit ''worker_id'') [(''worker_id'', ''worker-'' @ dec_digits wid)] = []"
    using pop_text_last [of "c_lit ''worker_id''" "[]"] by (simp add: c_str_c_lit)
  with t show ?thesis
    by (simp add: worker_ops_def push_text_def stored_key_def stored_value_def assms(1-3) c_str_c_lit thread_lines_Lines worker_lines_def
        del: upt_Suc upt_rec_numeral)
qed

lemma worker_name:
  assumes "length junk = 16" "wid < 100"
  shows "\<exists>b n. snprintf junk 16 (''worker-'' @ dec_digits wid) = Some (b, n) \<and> terminated b \<and> c_str b = ''worker-'' @ dec_digits wid"
proof -
  let ?t = "''worker-'' @ dec_digits wid"
  have l: "length ?t \<le> 15" using dec_digits_length [of wid 2] assms(2) by simp
  obtain b where b: "snprintf junk 16 ?t = Some (b, length ?t)" "holds_text 16 junk ?t b"
    using snprintf_holds [of 16 junk ?t] assms(1) l by auto
  have "NUL \<notin> set ?t" using dec_digits_NUL [of wid] by simp
  with b holds_text_c_str [OF b(2)] assms(1) show ?thesis by auto
qed

text \<open>Both threads, their statements in any order, after those of the main thread.\<close>

lemma basic_workers_view:
  assumes "setting_ok st" "list_all sink_inv ss" "set_cfg st = platform_config False"
    and "terminated n1" "c_str n1 = ''worker-'' @ dec_digits 1" "terminated n2" "c_str n2 = ''worker-'' @ dec_digits 2"
  shows "\<exists>g. refines st ss w (run_all (weave sched (worker_body st 1 n1) (worker_body st 2 n2))) g \<and>
    (\<exists>ls\<in>shuffles (worker_lines 1) (worker_lines 2). \<exists>th. th 0 = (''main'', []) \<and>
       g (basic_view\<lparr>lines := L\<rparr>) = basic_view\<lparr>lines := L @ shown st ls, threads := th\<rparr>)"
proof -
  let ?gs = "weave sched (map (op_view st 1) (worker_ops st 1 n1)) (map (op_view st 2) (worker_ops st 2 n2))" and ?v = "basic_view\<lparr>lines := L\<rparr>"
  have r: "refines st ss w (run_all (weave sched (worker_body st 1 n1) (worker_body st 2 n2))) (fold id ?gs)"
    using worker_body_refines [OF assms(1-3)] assms(4,6) by (intro run_all_refines weave_list_all2) simp_all
  have x: "threads ?v 1 = ([], [])" "threads ?v 2 = ([], [])" by (simp_all add: basic_view_def)
  have l: "thread_lines st ?v (worker_ops st 1 n1) ([], []) = (shown st (worker_lines 1), ''worker-'' @ dec_digits 1, [])"
    "thread_lines st ?v (worker_ops st 2 n2) ([], []) = (shown st (worker_lines 2), ''worker-'' @ dec_digits 2, [])"
    by (intro worker_ops_lines; simp add: assms basic_view_def)+
  obtain ls where ls: "ls \<in> shuffles (shown st (worker_lines 1)) (shown st (worker_lines 2))"
    "fold id ?gs ?v = ?v\<lparr>lines := lines ?v @ ls, threads := (threads ?v)(1 := (''worker-'' @ dec_digits 1, []), 2 := (''worker-'' @ dec_digits 2, []))\<rparr>"
    using ops_interleaved [of 1 2 st ?v "worker_ops st 1 n1" "worker_ops st 2 n2" sched] unfolding x l by auto
  from ls(1) obtain ls' where "ls' \<in> shuffles (worker_lines 1) (worker_lines 2)" "ls = shown st ls'"
    unfolding filter_shuffles [symmetric] by blast
  with r ls(2) show ?thesis
    by (intro exI [of _ "fold id ?gs"] conjI bexI [of _ ls'] exI [of _ "(threads ?v)(1 := (''worker-'' @ dec_digits 1, []), 2 := (''worker-'' @ dec_digits 2, []))"])
       (simp_all add: basic_view_def)
qed

subsection \<open>Properties\<close>

text \<open>
  C26: the example program, with its statements as atomic steps. Built for a host, whatever its sinks write to, however
  many entries the worker drains before each logging statement and however the statements of the two threads are
  interleaved, each statement running to its end before the next one, the program runs to its end. (Runs in which
  two \<open>LogImpl\<close> calls overlap are those of \<open>Logger_Concurrent\<close>.) It has then made exactly the
  entries of the following lines whose level the build keeps, with their messages, tags and thread names: first the
  fourteen of the main thread (the scoped tag on the two statements of its block only, the false condition not
  logged, four of the hundred iterations, one of the ten warnings), then those of the two threads, each under its own
  name and tag and in its own order, then the last one. Every sink has been given these entries in this order, all sinks
  are flushed, and the closing line is printed.
\<close>

theorem basic_example_correct:
  assumes "setting_ok st" and "set_cfg st = platform_config False" and "length fbuf = 2048" and "length junk = 16"
    and "basic_sinks st fbuf out_tty err_tty print_err (snd w) = (ss, w1)"
  shows "\<exists>ls\<in>shuffles (worker_lines 1) (worker_lines 2). \<exists>es ss1 w2 a'.
    basic_main st fbuf out_tty err_tty print_err junk sched k idle w =
      Some (a', apfst farewell (snd (flush_all (log_sinks (set_env st)) ss1 w2))) \<and>
    map entry_line es = shown st (basic_lines @ ls @ [(INFO, ''shutting down'', [(''env'', ''dev'')], ''main'')]) \<and>
    dispatch_list (log_sinks (set_env st)) es ss (fst w, w1) = Some (ss1, w2) \<and>
    sinks (backend (app_logger a')) = fst (flush_all (log_sinks (set_env st)) ss1 w2)"
proof -
  let ?w = "(fst w, w1)" and ?ctx = "LogContext_init (platform_config False)"
  have inv: "list_all sink_inv ss" using basic_sinks_inv [OF assms(3), of st out_tty err_tty print_err "snd w"] assms(5) by simp
  note ok = assms(1) inv assms(2)
  let ?a1 = "(app_init (set_cfg st) ?w)\<lparr>app_logger := fold Logger_AddSink ss (Logger_init (set_cfg st))\<rparr>"
  have a1: "run_all (map (\<lambda>s. on_logger (Logger_AddSink s)) ss) (app_init (set_cfg st) ?w) = Some ?a1"
    unfolding add_sinks by (simp add: app_init_def)
  have s1: "sim st ss ?w ?a1 (view_init ?ctx)"
    using sim_init [OF assms(1), of ?a1 ss ?w] ctx_init_wf(1) [OF valid_platform_config] assms(2) by (simp add: app_init_def)
  obtain g where g: "refines st ss ?w (run_all (basic_configuration st)) g" "g (view_init ?ctx) = basic_view"
    using basic_configuration_view [OF ok] by blast
  have l2: "length (lines basic_view) \<le> BR_LOG_RING_SIZE (set_cfg st)" by (simp add: basic_view_def)
  from refinesD(2) [OF g(1) s1, unfolded g(2), OF l2] obtain a2 where a2: "run_all (basic_configuration st) ?a1 = Some a2" "sim st ss ?w a2 basic_view"
    by blast
  have len: "length basic_lines = 14" "length (worker_lines i) = 5" for i by (simp_all add: basic_lines_def worker_lines_def)
  have l3: "length (lines (basic_view\<lparr>lines := shown st basic_lines\<rparr>)) \<le> BR_LOG_RING_SIZE (set_cfg st)"
    using shown_length [of st basic_lines] len(1) assms(2) by simp
  from refinesD(2) [OF basic_logging_refines [OF ok] a2(2), unfolded basic_logging_view [OF assms(2)], OF l3]
  obtain a3 where a3: "run_all (basic_logging st) a2 = Some a3" "sim st ss ?w a3 (basic_view\<lparr>lines := shown st basic_lines\<rparr>)"
    by blast
  obtain n1 i1 where n1: "snprintf junk 16 (''worker-'' @ dec_digits 1) = Some (n1, i1)" "terminated n1" "c_str n1 = ''worker-'' @ dec_digits 1"
    using worker_name [OF assms(4), of 1] by auto
  obtain n2 i2 where n2: "snprintf junk 16 (''worker-'' @ dec_digits 2) = Some (n2, i2)" "terminated n2" "c_str n2 = ''worker-'' @ dec_digits 2"
    using worker_name [OF assms(4), of 2] by auto
  obtain g' ls th where g': "refines st ss ?w (run_all (weave sched (worker_body st 1 n1) (worker_body st 2 n2))) g'"
    "ls \<in> shuffles (worker_lines 1) (worker_lines 2)" "th 0 = (''main'', [])"
    "g' (basic_view\<lparr>lines := shown st basic_lines\<rparr>) = basic_view\<lparr>lines := shown st basic_lines @ shown st ls, threads := th\<rparr>"
    using basic_workers_view [OF ok n1(2,3) n2(2,3), of ?w sched "shown st basic_lines"] by (elim exE conjE bexE) (rule that)
  have l: "length (shown st basic_lines @ shown st ls) \<le> 24"
    using shown_length [of st basic_lines] shown_length [of st ls] length_shuffles [OF g'(2)] len by simp
  have l4: "length (lines (basic_view\<lparr>lines := shown st basic_lines @ shown st ls, threads := th\<rparr>)) \<le> BR_LOG_RING_SIZE (set_cfg st)"
    using l assms(2) by simp
  from refinesD(2) [OF g'(1) a3(2), unfolded g'(4), OF l4] obtain a4 where
    a4: "run_all (weave sched (worker_body st 1 n1) (worker_body st 2 n2)) a3 = Some a4"
      "sim st ss ?w a4 (basic_view\<lparr>lines := shown st basic_lines @ shown st ls, threads := th\<rparr>)" by blast
  let ?all = "shown st (basic_lines @ ls @ [(INFO, ''shutting down'', [(''env'', ''dev'')], ''main'')])"
  have v5: "view_log st 0 INFO (PlainFmt (c_lit ''shutting down'')) (basic_view\<lparr>lines := shown st basic_lines @ shown st ls, threads := th\<rparr>) =
      basic_view\<lparr>lines := ?all, threads := th\<rparr>"
    using view_logs [of "basic_view\<lparr>lines := shown st basic_lines @ shown st ls, threads := th\<rparr>" st 0 "[(INFO, PlainFmt (c_lit ''shutting down''))]"]
      g'(3) assms(2) by (simp add: basic_view_def c_str_c_lit)
  have fit: "message_fits (set_cfg st) (PlainFmt (c_lit ''shutting down''))" by simp
  have l5: "length ?all \<le> 25" using shown_length [of st "basic_lines @ ls @ [(INFO, ''shutting down'', [(''env'', ''dev'')], ''main'')]"]
      length_shuffles [OF g'(2)] len by simp
  have l6: "length (lines (basic_view\<lparr>lines := ?all, threads := th\<rparr>)) \<le> BR_LOG_RING_SIZE (set_cfg st)" using l5 assms(2) by simp
  from refinesD(2) [OF LOG_refines [OF assms(1) inv fit] a4(2), of 0 INFO, unfolded v5, OF l6] obtain a5 where
    a5: "LOG st 0 INFO (PlainFmt (c_lit ''shutting down'')) a4 = Some a5" "sim st ss ?w a5 (basic_view\<lparr>lines := ?all, threads := th\<rparr>)" by blast
  have e: "length (lines (basic_view\<lparr>lines := ?all, threads := th\<rparr>)) < 2 ^ 64" "live (basic_view\<lparr>lines := ?all, threads := th\<rparr>)"
    using l5 by (simp_all add: basic_view_def)
  obtain es ss1 w2 lg' where d: "map entry_line es = ?all" "dispatch_list (log_sinks (set_env st)) es ss ?w = Some (ss1, w2)"
    "Logger_Stop (log_sinks (set_env st)) k idle (app_logger a5) (app_world a5) = Some (lg', snd (flush_all (log_sinks (set_env st)) ss1 w2))"
    "sinks (backend lg') = fst (flush_all (log_sinks (set_env st)) ss1 w2)"
    using sim_stop [OF assms(1) inv a5(2) e, of k idle] by auto
  have "basic_main st fbuf out_tty err_tty print_err junk sched k idle w =
      Some (a5\<lparr>app_logger := lg'\<rparr>, apfst farewell (snd (flush_all (log_sinks (set_env st)) ss1 w2)))"
    using a1 a2(1) a3(1) n1(1) n2(1) a4(1) a5(1) d(3)
    by (simp add: basic_main_def assms(5) Let_def split_def del: append.simps append_Cons)
  with d(1,2,4) g'(2) show ?thesis
    by (intro bexI [of _ ls] exI [of _ es, OF exI [of _ ss1, OF exI [of _ w2, OF exI [of _ "a5\<lparr>app_logger := lg'\<rparr>"]]]]) simp_all
qed


theorem basic_example_correct_witness:
  "\<exists>ls es a' w'. basic_main demo_setting (replicate 2048 NUL) True True (\<lambda>t w. w) (replicate 16 NUL) [True, False, True] 3 0 demo_world = Some (a', w') \<and>
    map entry_line es = basic_lines @ ls @ [(INFO, ''shutting down'', [(''env'', ''dev'')], ''main'')] \<and> length es = 25"
proof -
  obtain ss w1 where ss: "basic_sinks demo_setting (replicate 2048 NUL) True True (\<lambda>t w. w) (snd demo_world) = (ss, w1)" by fastforce
  obtain ls es a' w' where r: "ls \<in> shuffles (worker_lines 1) (worker_lines 2)"
    "basic_main demo_setting (replicate 2048 NUL) True True (\<lambda>t w. w) (replicate 16 NUL) [True, False, True] 3 0 demo_world = Some (a', w')"
    "map entry_line es = shown demo_setting (basic_lines @ ls @ [(INFO, ''shutting down'', [(''env'', ''dev'')], ''main'')])"
    using basic_example_correct [OF demo_setting_ok length_replicate length_replicate ss, of NUL "[True, False, True]" 3 0]
    by (elim exE conjE bexE) (rule that)
  have all: "shown demo_setting xs = xs" for xs by (simp add: demo_setting_def)
  have l: "length ls = 10" "length basic_lines = 14" using length_shuffles [OF r(1)] by (simp_all add: worker_lines_def basic_lines_def)
  have m: "map entry_line es = basic_lines @ ls @ [(INFO, ''shutting down'', [(''env'', ''dev'')], ''main'')]" using r(3) unfolding all .
  have "length (map entry_line es) = 25" unfolding m using l by simp
  then have "length es = 25" by simp
  with r(2) m show ?thesis by blast
qed

text \<open>
  The console pattern of the example separates the time and the microseconds with a dot, but the placeholder
  \<open>%e\<close> prints a dot of its own: the lines show two.
\<close>

lemma example_time_has_two_dots:
  "pattern_text (field_text lt color e) ''%T.%e'' = field_text lt color e Time @ ''..'' @ fmt_0u 6 (unat (wall_clock_ns e) div 10 ^ 3 mod 10 ^ 6)"
  by (simp add: pattern_letters_def)

end
