(* ===== verification/Example_Node.thy ===== *)
theory Example_Node
  imports Application Ros2_Bridge
begin

text \<open>
  The example node \<open>examples/ros2_node/example_node.cpp\<close>: set-up through the bridge, a subscription and a timer
  whose callbacks log under the callback macros, and the destructor that stops the logger. The executor runs the
  callbacks one at a time in the order in which messages and timer ticks arrive; that order is the list of events.
\<close>

subsection \<open>The program\<close>

definition node_config :: BridgeConfig where
  "node_config = BridgeConfig_default
     \<lparr>enable_ros2_sink := True, enable_console := True, enable_file := True, bridge_file_path := ''/tmp/robot_logs/''\<rparr>"

definition node_Setup ::
  "'w setting \<Rightarrow> bytes \<Rightarrow> bool \<Rightarrow> bool \<Rightarrow> node \<Rightarrow> stdio \<times> 'w \<Rightarrow> 'w app option" where
  "node_Setup st fbuf out_tty err_tty nd w =
     do { (ctx, lg, w1) \<leftarrow> ros2_init (set_cfg st) (env_px (set_env st)) fbuf out_tty err_tty nd node_config
            (LogContext_init (set_cfg st)) (Logger_init (set_cfg st)) (snd w);
          run_all
            [on_logger (Logger_SetLevel TRACE),
             LOG st 0 INFO (PlainFmt (c_lit ''node initialized, waiting for messages on /chatter''))]
            ((app_init (set_cfg st) (fst w, w1))\<lparr>app_logger := lg, app_ctx := ctx\<rparr>) }"

text \<open>
  The two tags of a callback macro. A message is a \<open>std::string\<close>, which may contain zero bytes; \<open>%s\<close> prints it up
  to the first one.
\<close>

definition in_callback ::
  "'w setting \<Rightarrow> string \<Rightarrow> string \<Rightarrow> string \<Rightarrow> ('w app \<Rightarrow> 'w app option) \<Rightarrow> 'w app \<Rightarrow> 'w app option" where
  "in_callback st key name cb_type body =
     with_tag st 0 (c_lit key) (c_lit name) (with_tag st 0 (c_lit ''ros.cb_type'') (c_lit cb_type) body)"

definition OnChatter :: "'w setting \<Rightarrow> string \<Rightarrow> 'w app \<Rightarrow> 'w app option" where
  "OnChatter st data = in_callback st ''ros.topic'' ''/chatter'' ''subscription'' (run_all
     (LOG st 0 DEBUG (printed (''received: '' @ c_str (c_lit data))) #
      (if data = [] then [LOG st 0 WARN (PlainFmt (c_lit ''empty message received''))] else [])))"

text \<open>\<open>ticks\<close> is the static variable \<open>count\<close> of the callback after its increment, \<open>cnt\<close> that of the logging statement.\<close>

definition OnTimer :: "'w setting \<Rightarrow> nat \<Rightarrow> u64 \<Rightarrow> 'w app \<Rightarrow> 'w app option" where
  "OnTimer st ticks cnt = in_callback st ''ros.timer'' ''heartbeat'' ''timer'' (run_all
     [LOG st 0 TRACE (PlainFmt (c_lit ''timer tick'')),
      (\<lambda>a. if ticks < 2 ^ 31
           then map_option snd (app_LOG_EVERY_N st 0 5 INFO (printed (''heartbeat count: '' @ dec_digits ticks)) cnt a) else None)])"

datatype node_event = Chatter string | Tick

fun node_spin :: "'w setting \<Rightarrow> node_event list \<Rightarrow> nat \<Rightarrow> u64 \<Rightarrow> 'w app \<Rightarrow> 'w app option" where
  "node_spin st [] ticks cnt a = Some a"
| "node_spin st (Chatter data # es) ticks cnt a = do { a1 \<leftarrow> OnChatter st data a; node_spin st es ticks cnt a1 }"
| "node_spin st (Tick # es) ticks cnt a = do { a1 \<leftarrow> OnTimer st (Suc ticks) cnt a; node_spin st es (Suc ticks) (cnt + 1) a1 }"

definition node_main ::
  "'w setting \<Rightarrow> bytes \<Rightarrow> bool \<Rightarrow> bool \<Rightarrow> node \<Rightarrow> node_event list \<Rightarrow> nat \<Rightarrow> u32 \<Rightarrow> stdio \<times> 'w \<Rightarrow> ('w app \<times> stdio \<times> 'w) option" where
  "node_main st fbuf out_tty err_tty nd events k idle w =
     do { a1 \<leftarrow> node_Setup st fbuf out_tty err_tty nd w;
          a2 \<leftarrow> node_spin st events 0 0 a1;
          (lg, w2) \<leftarrow> ros2_shutdown (log_sinks (set_env st)) k idle (app_logger a2) (app_world a2);
          Some (a2\<lparr>app_logger := lg\<rparr>, w2) }"

subsection \<open>What it logs\<close>

definition callback_line :: "(string \<times> string) list \<Rightarrow> string \<Rightarrow> string \<Rightarrow> string \<Rightarrow> LogLevel \<times> string \<Rightarrow> log_line" where
  "callback_line G key name cb_type = (\<lambda>(l, m). (l, m, G @ [(key, name), (''ros.cb_type'', cb_type)], []))"

fun event_lines :: "(string \<times> string) list \<Rightarrow> nat \<Rightarrow> node_event list \<Rightarrow> log_line list" where
  "event_lines G n [] = []"
| "event_lines G n (Chatter data # es) =
     map (callback_line G ''ros.topic'' ''/chatter'' ''subscription'')
       ((DEBUG, ''received: '' @ c_str (c_lit data)) # (if data = [] then [(WARN, ''empty message received'')] else [])) @
     event_lines G n es"
| "event_lines G n (Tick # es) =
     map (callback_line G ''ros.timer'' ''heartbeat'' ''timer'')
       ((TRACE, ''timer tick'') # (if n mod 5 = 0 then [(INFO, ''heartbeat count: '' @ dec_digits (Suc n))] else [])) @
     event_lines G (Suc n) es"

text \<open>A message that fits its entry.\<close>

fun event_fits :: "node_event \<Rightarrow> bool" where
  "event_fits (Chatter data) = (length (c_str (c_lit data)) < 374)"
| "event_fits Tick = True"

subsection \<open>Callbacks\<close>

definition node_view :: "(string \<times> string) list \<Rightarrow> log_line list \<Rightarrow> view" where
  "node_view G L = \<lparr>lines = L, globals = G, threads = (\<lambda>_. ([], [])), threshold = TRACE, live = True\<rparr>"

lemma node_view_fields [simp]: "lines (node_view G L) = L" "globals (node_view G L) = G" "threads (node_view G L) t = ([], [])"
  "threshold (node_view G L) = TRACE" "live (node_view G L)"
  by (simp_all add: node_view_def)

text \<open>A callback: the lines of its body carry its two tags, and the thread has no tags afterwards.\<close>

lemma in_callback_view:
  assumes "setting_ok st" "list_all sink_inv ss" "set_cfg st = platform_config False" "length G \<le> 6"
    and "NUL \<notin> set key" "length key < 32" "NUL \<notin> set name" "length name < 64" "NUL \<notin> set cb_type" "length cb_type < 64"
    and "refines st ss w body (fold (\<lambda>(l, m). view_log st 0 l m) items)"
  shows "\<exists>g. refines st ss w (in_callback st key name cb_type body) g \<and> (\<forall>L. g (node_view G L) =
    node_view G (L @ shown st (map (callback_line G key name cb_type) (map (\<lambda>(l, m). (l, message_text (platform_config False) m)) items))))"
proof -
  let ?push1 = "view_thread 0 id (push_text (set_cfg st) (c_lit key) (c_lit name))" and ?pop1 = "view_thread 0 id (pop_text (c_lit key))"
  let ?push2 = "view_thread 0 id (push_text (set_cfg st) (c_lit ''ros.cb_type'') (c_lit cb_type))"
  let ?pop2 = "view_thread 0 id (pop_text (c_lit ''ros.cb_type''))"
  let ?g = "?pop1 \<circ> ((?pop2 \<circ> (fold (\<lambda>(l, m). view_log st 0 l m) items \<circ> ?push2)) \<circ> ?push1)"
  have r: "refines st ss w (in_callback st key name cb_type body) ?g" unfolding in_callback_def
    by (intro with_tag_refines assms(1,11) terminated_c_lit)
  have "?g (node_view G L) = node_view G (L @ shown st (map (callback_line G key name cb_type) (map (\<lambda>(l, m). (l, message_text (platform_config False) m)) items)))" for L
  proof -
    let ?v2 = "?push2 (?push1 (node_view G L))"
    have v2: "threads ?v2 0 = ([], [(key, name), (''ros.cb_type'', cb_type)])" "threshold ?v2 = TRACE" "globals ?v2 = G" "lines ?v2 = L"
      using assms(3,5-10) by (simp_all add: view_thread_def push_text_def stored_key_def stored_value_def c_str_c_lit)
    let ?L = "L @ shown st (map (callback_line G key name cb_type) (map (\<lambda>(l, m). (l, message_text (platform_config False) m)) items))"
    have "fold (\<lambda>(l, m). view_log st 0 l m) items ?v2 = ?v2\<lparr>lines := ?L\<rparr>"
      using view_logs [OF v2(2), of st 0 items] v2 assms(3,4) by (simp add: callback_line_def comp_def split_def)
    moreover have "pop_text (c_lit ''ros.cb_type'') [(key, name), (''ros.cb_type'', cb_type)] = [(key, name)]" "pop_text (c_lit key) [(key, name)] = []"
      using pop_text_last [of "c_lit ''ros.cb_type''" "[(key, name)]" cb_type] pop_text_last [of "c_lit key" "[]" name] assms(5)
      by (simp_all add: c_str_c_lit)
    then have "?pop1 (?pop2 (?v2\<lparr>lines := ?L\<rparr>)) = node_view G ?L"
      using v2 by (intro view.equality) (auto simp: view_thread_def)
    ultimately show ?thesis by simp
  qed
  with r show ?thesis by blast
qed

lemma chatter_view:
  assumes "setting_ok st" "list_all sink_inv ss" "set_cfg st = platform_config False" "length G \<le> 6" "event_fits (Chatter data)"
  shows "\<exists>g. refines st ss w (OnChatter st data) g \<and>
    (\<forall>L. g (node_view G L) = node_view G (L @ shown st (event_lines G n [Chatter data])))"
proof -
  let ?items = "(DEBUG, printed (''received: '' @ c_str (c_lit data))) # (if data = [] then [(WARN, PlainFmt (c_lit ''empty message received''))] else [])"
  have L: "refines st ss w (LOG st 0 l m) (view_log st 0 l m)" if "message_fits (platform_config False) m" for l m
    using LOG_refines [OF assms(1,2)] that assms(3) by simp
  have "refines st ss w (run_all (LOG st 0 DEBUG (printed (''received: '' @ c_str (c_lit data))) #
      (if data = [] then [LOG st 0 WARN (PlainFmt (c_lit ''empty message received''))] else [])))
      (fold id (map (\<lambda>(l, m). view_log st 0 l m) ?items))"
    using assms(5) by (intro run_all_refines) (simp add: L)
  then have "refines st ss w (run_all (LOG st 0 DEBUG (printed (''received: '' @ c_str (c_lit data))) #
      (if data = [] then [LOG st 0 WARN (PlainFmt (c_lit ''empty message received''))] else []))) (fold (\<lambda>(l, m). view_log st 0 l m) ?items)"
    by (simp only: fold_map comp_def id_def)
  from in_callback_view [OF assms(1-4) _ _ _ _ _ _ this, of "''ros.topic''" "''/chatter''" "''subscription''"]
  show ?thesis unfolding OnChatter_def by (auto simp: c_str_c_lit)
qed

lemma every_5: "n < 2 ^ 31 \<Longrightarrow> (of_nat n :: u64) mod 5 = 0 \<longleftrightarrow> n mod 5 = 0"
  using unat_of_nat_small [of n, where 'w = 64] by (simp add: word_unat_eq_iff unat_mod)

lemma timer_view:
  assumes "setting_ok st" "list_all sink_inv ss" "set_cfg st = platform_config False" "length G \<le> 6" "Suc n < 2 ^ 31"
  shows "\<exists>g. refines st ss w (OnTimer st (Suc n) (of_nat n)) g \<and>
    (\<forall>L. g (node_view G L) = node_view G (L @ shown st (event_lines G n [Tick])))"
proof -
  let ?m = "printed (''heartbeat count: '' @ dec_digits (Suc n))"
  let ?items = "(TRACE, PlainFmt (c_lit ''timer tick'')) # (if n mod 5 = 0 then [(INFO, ?m)] else [])"
  let ?every = "\<lambda>a. if Suc n < 2 ^ 31 then map_option snd (app_LOG_EVERY_N st 0 5 INFO ?m (of_nat n) a) else None"
  let ?g = "if n mod 5 = 0 then view_log st 0 INFO ?m else id"
  have "message_fits (set_cfg st) ?m" using dec_digits_length [of "Suc n" 10] assms(3,5) by simp
  then have "refines st ss w (\<lambda>a. map_option snd (app_LOG_EVERY_N st 0 5 INFO ?m (of_nat n) a))
      (if (of_nat n :: u64) mod 5 = 0 then view_log st 0 INFO ?m else id)" by (rule LOG_EVERY_N_refines [OF assms(1,2)]) simp
  then have 1: "refines st ss w ?every ?g" using every_5 [of n] assms(5) by (simp only: if_True Suc_lessD)
  have 2: "refines st ss w (LOG st 0 TRACE (PlainFmt (c_lit ''timer tick''))) (view_log st 0 TRACE (PlainFmt (c_lit ''timer tick'')))"
    by (rule LOG_refines [OF assms(1,2)]) simp
  have "refines st ss w (run_all [LOG st 0 TRACE (PlainFmt (c_lit ''timer tick'')), ?every])
      (fold id [view_log st 0 TRACE (PlainFmt (c_lit ''timer tick'')), ?g])"
    by (rule run_all_refines) (simp only: list_all2_Cons list_all2_Nil 1 2 simp_thms)
  moreover have "fold id [view_log st 0 TRACE (PlainFmt (c_lit ''timer tick'')), ?g] = fold (\<lambda>(l, m). view_log st 0 l m) ?items" by simp
  ultimately have "refines st ss w (run_all [LOG st 0 TRACE (PlainFmt (c_lit ''timer tick'')), ?every]) (fold (\<lambda>(l, m). view_log st 0 l m) ?items)"
    by (simp only:)
  from in_callback_view [OF assms(1-4) _ _ _ _ _ _ this, of "''ros.timer''" "''heartbeat''" "''timer''"]
  show ?thesis unfolding OnTimer_def by (auto simp: c_str_c_lit)
qed

lemma event_lines_Cons: "event_lines G n (e # es) = event_lines G n [e] @ event_lines G (case e of Tick \<Rightarrow> Suc n | _ \<Rightarrow> n) es"
  by (cases e) simp_all

lemma node_spin_sim:
  assumes "setting_ok st" "list_all sink_inv ss" "set_cfg st = platform_config False" "length G \<le> 6"
  shows "sim st ss w a (node_view G L) \<Longrightarrow> list_all event_fits es \<Longrightarrow> n + length es < 2 ^ 31 \<Longrightarrow>
    length (L @ shown st (event_lines G n es)) \<le> 8192 \<Longrightarrow>
    \<exists>a'. node_spin st es n (of_nat n) a = Some a' \<and> sim st ss w a' (node_view G (L @ shown st (event_lines G n es)))"
proof (induction es arbitrary: a L n)
  case Nil
  then show ?case by simp
next
  case (Cons e es)
  let ?n = "case e of Tick \<Rightarrow> Suc n | _ \<Rightarrow> n" and ?L = "L @ shown st (event_lines G n [e])"
  let ?f = "case e of Chatter data \<Rightarrow> OnChatter st data | Tick \<Rightarrow> OnTimer st (Suc n) (of_nat n)"
  have L: "L @ shown st (event_lines G n (e # es)) = ?L @ shown st (event_lines G ?n es)"
    by (subst event_lines_Cons) (simp only: filter_append append_assoc)
  have "\<exists>g. refines st ss w ?f g \<and> g (node_view G L) = node_view G ?L"
  proof (cases e)
    case (Chatter data)
    have "event_fits (Chatter data)" using Cons.prems(2) Chatter by simp
    from chatter_view [OF assms this, of w n] show ?thesis unfolding Chatter node_event.case by blast
  next
    case Tick
    have "Suc n < 2 ^ 31" using Cons.prems(3) by simp
    from timer_view [OF assms this, of w] show ?thesis unfolding Tick node_event.case by blast
  qed
  then obtain g where g: "refines st ss w ?f g" "g (node_view G L) = node_view G ?L" by blast
  have len: "length (lines (node_view G ?L)) \<le> BR_LOG_RING_SIZE (set_cfg st)" using Cons.prems(4) unfolding L assms(3) by simp
  obtain a1 where a1: "?f a = Some a1" "sim st ss w a1 (node_view G ?L)"
    using refinesD(2) [OF g(1) Cons.prems(1), unfolded g(2), OF len] by blast
  have "?n + length es < 2 ^ 31" using Cons.prems(3) by (cases e) simp_all
  from Cons.IH [OF a1(2) _ this] Cons.prems(2,4) obtain a' where
    a': "node_spin st es ?n (of_nat ?n) a1 = Some a'" "sim st ss w a' (node_view G (?L @ shown st (event_lines G ?n es)))"
    unfolding L by auto
  have "node_spin st (e # es) n (of_nat n) a = Some a'" using a1(1) a'(1) by (cases e) (simp_all add: add.commute)
  with a'(2) show ?case unfolding L by blast
qed

text \<open>
  The six tags of the node and the two of a callback fill the eight places of an entry: a scoped tag that the body
  of a callback adds appears in none of its lines.
\<close>

lemma scoped_tag_in_callback_not_logged:
  assumes "set_cfg st = platform_config False" "length (globals v) = 6" "threads v 0 = (n, ts)" "length ts = 2"
  shows "lines (view_log st 0 l m (view_thread 0 id (push_text (set_cfg st) k x) v)) = lines (view_log st 0 l m v)"
  using assms by (simp add: view_log_def view_thread_def push_text_def)

subsection \<open>The tags of the node\<close>

text \<open>New keys, one after the other.\<close>

lemma set_tags_fresh:
  "valid_config cfg \<Longrightarrow> ctx_wf cfg ctx \<Longrightarrow> distinct (map fst (ctx_tags ctx) @ map fst kvs) \<Longrightarrow>
   list_all (\<lambda>(k, v). NUL \<notin> set k \<and> length k < BR_LOG_MAX_TAG_KEY_LEN cfg \<and> terminated v) kvs \<Longrightarrow>
   length (ctx_tags ctx) + length kvs \<le> 16 \<Longrightarrow>
   \<exists>ctx'. set_tags cfg kvs ctx = Some ctx' \<and> ctx_wf cfg ctx' \<and> ctx_tags ctx' = ctx_tags ctx @ map (\<lambda>(k, v). (k, stored_value cfg v)) kvs"
proof (induction kvs arbitrary: ctx)
  case Nil
  then show ?case by simp
next
  case (Cons kv kvs)
  obtain k v where kv: "kv = (k, v)" by force
  with Cons.prems(4) have k: "c_str (c_lit k) = k" "stored_key cfg (c_lit k) = k" "terminated v" by (auto simp: c_str_c_lit stored_key_def)
  have "k \<notin> fst ` set (ctx_tags ctx)" using Cons.prems(3) kv by (simp del: set_map add: set_map [symmetric])
  then have "set_tag_text 16 k k (stored_value cfg v) (ctx_tags ctx) = ctx_tags ctx @ [(k, stored_value cfg v)]"
    using find_none [of "ctx_tags ctx" k] Cons.prems(5) by (simp add: set_tag_text_def)
  with SetGlobalTag_ok [OF Cons.prems(1,2) terminated_c_lit k(3), of k] k obtain ctx1 where
    c: "SetGlobalTag cfg (Some (c_lit k)) (Some v) ctx = Some ctx1" "ctx_wf cfg ctx1" "ctx_tags ctx1 = ctx_tags ctx @ [(k, stored_value cfg v)]"
    by auto
  from Cons.IH [OF Cons.prems(1) c(2)] Cons.prems(3-5) c(1,3) show ?case by (auto simp: kv)
qed

lemma ROS2ContextProvider_tags:
  assumes "wf_node nd"
  shows "\<exists>ctx. ROS2ContextProvider (platform_config False) nd (LogContext_init (platform_config False)) = Some ctx \<and>
    ctx_wf (platform_config False) ctx \<and> ctx_tags ctx = node_tags (platform_config False) nd"
proof -
  let ?cfg = "platform_config False"
  obtain dom exe where p: "ROS2ContextProvider ?cfg nd (LogContext_init ?cfg) = set_tags ?cfg
     [(''ros.node'', node_name nd), (''ros.namespace'', node_namespace nd), (''ros.domain_id'', dom),
      (''ros.package'', node_package nd), (''ros.executable'', exe), (''ros.rmw'', node_rmw nd)] (LogContext_init ?cfg)"
    "terminated dom" "c_str dom = take 15 (dec_digits (unat (node_domain_id nd)))"
    "terminated exe" "c_str exe = exe_text (node_exe nd)" using ROS2ContextProvider_eq by blast
  let ?kvs = "[(''ros.node'', node_name nd), (''ros.namespace'', node_namespace nd), (''ros.domain_id'', dom),
      (''ros.package'', node_package nd), (''ros.executable'', exe), (''ros.rmw'', node_rmw nd)]"
  have "list_all (\<lambda>(k, v). NUL \<notin> set k \<and> length k < BR_LOG_MAX_TAG_KEY_LEN ?cfg \<and> terminated v) ?kvs"
    using assms p(2,4) by (simp add: wf_node_def)
  moreover have "map (\<lambda>(k, v). (k, stored_value ?cfg v)) ?kvs = node_tags ?cfg nd"
    using p(3,5) by (simp add: node_tags_def stored_value_def)
  ultimately show ?thesis using set_tags_fresh [OF valid_platform_config ctx_init_wf(1) [OF valid_platform_config], of False ?kvs] p(1)
    by (simp add: init_view)
qed

subsection \<open>Properties\<close>

abbreviation node_ready :: "(string \<times> string) list \<Rightarrow> log_line" where
  "node_ready G \<equiv> (INFO, ''node initialized, waiting for messages on /chatter'', G, [])"

text \<open>Set-up: the bridge's sinks, the node's tags, and the first line.\<close>

lemma node_Setup_sim:
  assumes "setting_ok st" "set_cfg st = platform_config False" "length fbuf = 2048" "wf_node nd"
    and "ss = bridge_sinks (env_px (set_env st)) fbuf out_tty err_tty nd node_config (snd w)" "G = node_tags (platform_config False) nd"
  shows "\<exists>a w1. node_Setup st fbuf out_tty err_tty nd w = Some a \<and> sim st ss (fst w, w1) a (node_view G (shown st [node_ready G]))"
proof -
  let ?cfg = "platform_config False"
  have inv: "list_all sink_inv ss" unfolding assms(5) by (rule bridge_sinks_inv [OF assms(3)])
  have G: "length G = 6" unfolding assms(6) by (simp add: node_tags_def)
  obtain ctx where ctx: "ROS2ContextProvider ?cfg nd (LogContext_init ?cfg) = Some ctx" "ctx_wf ?cfg ctx" "ctx_tags ctx = G"
    using ROS2ContextProvider_tags [OF assms(4)] unfolding assms(6) by blast
  obtain w1 where i: "ros2_init ?cfg (env_px (set_env st)) fbuf out_tty err_tty nd node_config (LogContext_init ?cfg) (Logger_init ?cfg) (snd w) =
      Some (ctx, Logger_Start ?cfg (fold Logger_AddSink ss (Logger_init ?cfg)), w1)"
    using ros2_init_eq [OF ctx(1), of "env_px (set_env st)" fbuf out_tty err_tty node_config "Logger_init ?cfg" "snd w"]
    unfolding assms(5) [symmetric] by (elim exE) (rule that)
  let ?a0 = "(app_init ?cfg (fst w, w1))\<lparr>app_logger := fold Logger_AddSink ss (Logger_init ?cfg), app_ctx := ctx\<rparr>"
  have 0: "sim st ss (fst w, w1) ?a0 (view_init ctx)"
    using sim_init [OF assms(1), of ?a0 ss "(fst w, w1)"] ctx(2) assms(2) by (simp add: app_init_def)
  let ?fs = "[on_logger (Logger_Start (set_cfg st)), on_logger (Logger_SetLevel TRACE),
      LOG st 0 INFO (PlainFmt (c_lit ''node initialized, waiting for messages on /chatter''))]"
  let ?gs = "[\<lambda>v. v\<lparr>live := True\<rparr>, \<lambda>v. v\<lparr>threshold := TRACE\<rparr>,
      view_log st 0 INFO (PlainFmt (c_lit ''node initialized, waiting for messages on /chatter''))]"
  have "list_all2 (refines st ss (fst w, w1)) ?fs ?gs" unfolding list_all2_Cons list_all2_Nil
    by (intro conjI TrueI refl Start_refines SetLevel_refines LOG_refines assms(1) inv) simp
  then have r: "refines st ss (fst w, w1) (run_all ?fs) (fold id ?gs)" by (rule run_all_refines)
  have "(view_init ctx)\<lparr>live := True, threshold := TRACE\<rparr> = node_view G []" by (simp add: view_init_def node_view_def ctx(3))
  then have g: "fold id ?gs (view_init ctx) = node_view G (shown st [node_ready G])"
    using view_logs [of "node_view G []" st 0 "[(INFO, PlainFmt (c_lit ''node initialized, waiting for messages on /chatter''))]"] G assms(2)
    by (simp add: c_str_c_lit) (simp add: node_view_def)
  have len: "length (lines (node_view G (shown st [node_ready G]))) \<le> BR_LOG_RING_SIZE (set_cfg st)" using assms(2) by simp
  obtain a where "run_all ?fs ?a0 = Some a" "sim st ss (fst w, w1) a (node_view G (shown st [node_ready G]))"
    using refinesD(2) [OF r 0, unfolded g, OF len] by blast
  moreover from this(1) have "node_Setup st fbuf out_tty err_tty nd w = Some a"
    using i assms(2) by (simp add: node_Setup_def on_logger_def)
  ultimately show ?thesis by blast
qed

text \<open>
  C27: the example node. For every sequence of messages and timer ticks in which the messages fit an entry and the
  lines fit the ring, however slow the worker is, the node runs to its end without undefined behaviour, and its log is
  the line of the set-up followed by the lines of the callbacks in the order of the events, those of each callback under
  the six tags of the node and the two of the callback; a heartbeat count is logged at the first tick and every fifth
  after it. When the node is destroyed every sink of the bridge has been given the entries of these lines whose level
  the build keeps, in this order, and is flushed.
\<close>

theorem node_example_correct:
  assumes "setting_ok st" and "set_cfg st = platform_config False" and "length fbuf = 2048" and "wf_node nd"
    and "list_all event_fits events" and "length events < 2 ^ 31"
    and "ls = shown st (node_ready (node_tags (platform_config False) nd) # event_lines (node_tags (platform_config False) nd) 0 events)"
    and "length ls \<le> 8192"
  shows "\<exists>es w1 ss1 w2 a'.
    node_main st fbuf out_tty err_tty nd events k idle w = Some (a', snd (flush_all (log_sinks (set_env st)) ss1 w2)) \<and>
    map entry_line es = ls \<and>
    dispatch_list (log_sinks (set_env st)) es (bridge_sinks (env_px (set_env st)) fbuf out_tty err_tty nd node_config (snd w)) (fst w, w1) =
      Some (ss1, w2) \<and>
    sinks (backend (app_logger a')) = fst (flush_all (log_sinks (set_env st)) ss1 w2)"
proof -
  let ?G = "node_tags (platform_config False) nd" and ?ss = "bridge_sinks (env_px (set_env st)) fbuf out_tty err_tty nd node_config (snd w)"
  have inv: "list_all sink_inv ?ss" by (rule bridge_sinks_inv [OF assms(3)])
  have G: "length ?G \<le> 6" by (simp add: node_tags_def)
  obtain a1 w1 where a1: "node_Setup st fbuf out_tty err_tty nd w = Some a1" "sim st ?ss (fst w, w1) a1 (node_view ?G (shown st [node_ready ?G]))"
    using node_Setup_sim [OF assms(1-4) refl refl] by blast
  have ls: "shown st [node_ready ?G] @ shown st (event_lines ?G 0 events) = ls" unfolding assms(7) by simp
  have len: "0 + length events < 2 ^ 31" "length (shown st [node_ready ?G] @ shown st (event_lines ?G 0 events)) \<le> 8192"
    using assms(6,8) unfolding ls by simp_all
  obtain a2 where a2: "node_spin st events 0 0 a1 = Some a2" "sim st ?ss (fst w, w1) a2 (node_view ?G ls)"
    using node_spin_sim [OF assms(1) inv assms(2) G a1(2) assms(5) len] unfolding ls by auto
  have "length (lines (node_view ?G ls)) < 2 ^ 64" "live (node_view ?G ls)" using assms(8) by simp_all
  from sim_stop [OF assms(1) inv a2(2) this, of k idle] obtain es ss1 w2 lg' where
    "map entry_line es = ls" "dispatch_list (log_sinks (set_env st)) es ?ss (fst w, w1) = Some (ss1, w2)"
    "Logger_Stop (log_sinks (set_env st)) k idle (app_logger a2) (app_world a2) = Some (lg', snd (flush_all (log_sinks (set_env st)) ss1 w2))"
    "sinks (backend lg') = fst (flush_all (log_sinks (set_env st)) ss1 w2)" by auto
  with a1(1) a2(1) show ?thesis
    by (intro exI [of _ es, OF exI [of _ w1, OF exI [of _ ss1, OF exI [of _ w2, OF exI [of _ "a2\<lparr>app_logger := lg'\<rparr>"]]]]])
       (simp add: node_main_def ros2_shutdown_def)
qed

theorem node_example_correct_witness:
  "\<exists>es a' w'. node_main demo_setting (replicate 2048 NUL) True True demo_node [Chatter ''hi'', Tick, Chatter []] 3 0 demo_world = Some (a', w') \<and>
    map (fst \<circ> snd \<circ> entry_line) es = [''node initialized, waiting for messages on /chatter'', ''received: hi'', ''timer tick'',
      ''heartbeat count: 1'', ''received: '', ''empty message received'']"
proof -
  let ?G = "node_tags (platform_config False) demo_node" and ?ev = "[Chatter ''hi'', Tick, Chatter []]"
  define ls where "ls = shown demo_setting (node_ready ?G # event_lines ?G 0 ?ev)"
  have t: "map (fst \<circ> snd) ls = [''node initialized, waiting for messages on /chatter'', ''received: hi'', ''timer tick'',
      ''heartbeat count: 1'', ''received: '', ''empty message received'']"
    by (simp add: ls_def callback_line_def demo_setting_def c_str_c_lit dec_eval)
  have len: "length ls \<le> 8192" using arg_cong [OF t, of length] by simp
  have 1: "length (replicate 2048 NUL) = 2048" "wf_node demo_node" "list_all event_fits ?ev" "length ?ev < 2 ^ 31"
    by (simp_all add: wf_node_def demo_node_def c_str_c_lit)
  obtain es a' w' where r: "node_main demo_setting (replicate 2048 NUL) True True demo_node ?ev 3 0 demo_world = Some (a', w')" "map entry_line es = ls"
    using node_example_correct [OF demo_setting_ok 1 ls_def len, of True True 3 0 demo_world] by (elim exE conjE) (rule that)
  have "map (fst \<circ> snd \<circ> entry_line) es = map (fst \<circ> snd) (map entry_line es)" by simp
  with r t show ?thesis by (intro exI conjI) (simp_all only:)
qed

end
