(* ===== verification/Spec2Isabelle.thy ===== *)
theory Spec2Isabelle
  imports Prelude Log_Level Fixed_Vector Log_Entry Ring_Buffer Ring_Concurrent Ring_Memory_Order Ring_Calls
    Timestamp Formatter Pattern_Formatter Json_Formatter Log_Context Context_Concurrent Sink_Interface
    Posix Ring_Memory_Sink Rotating_File_Sink Daily_File_Sink Console_Sink Ros2_Sink
    Backend Sinks Logger Ros2_Bridge Logger_Concurrent Logger_Progress Delivery Delivery_Concurrent
    Application Example_Basic Example_Node
begin

text \<open>
  A verification development of \<open>br_logger\<close>, a C++17 logging library for robots (\<open>src/br_logger_core\<close>) with
  an integration for ROS 2 (\<open>src/br_logger_ros2\<close>).

  \<^bold>\<open>The program.\<close> A logging macro (\<open>logger.hpp\<close>) checks two levels and calls \<open>Logger::LogImpl\<close>, which builds
  a fixed-size \<open>LogEntry\<close> from the clocks (\<open>timestamp.cpp\<close>), the source location, the global and thread-local
  tags (\<open>log_context.cpp\<close>) and the message, and pushes it into a lock-free ring with many producers and one
  consumer (\<open>ring_buffer.hpp\<close>). A worker thread, or a manual \<open>Drain\<close>, takes entries out of the ring and hands
  each to every sink (\<open>backend.cpp\<close>). Sinks (\<open>sinks/\<close>) format entries with one of two formatters
  (\<open>formatters/\<close>) into a line buffer and write to the console, to files that rotate by size or by day, to
  memory, to a callback, or to the logging of ROS 2.

  \<^bold>\<open>The theories\<close>, in the order of the code's layers:

  \<^item> \<open>Prelude\<close>: bytes, C strings, \<open>memcpy\<close>, \<open>snprintf\<close>, decimal conversions, shared lemmas. Every access
    outside an array is \<open>None\<close>, so a theorem that an operation returns \<open>Some\<close> also says it is memory safe.
  \<^item> \<open>Log_Level\<close> (\<open>platform.hpp\<close>, \<open>log_level.hpp\<close>): the build configuration as a record, the levels as a
    linear order. \<open>Log_Entry\<close> (\<open>log_entry.hpp\<close>, \<open>source_location.hpp\<close>): the records of the program and what a
    well-formed entry is. \<open>Fixed_Vector\<close> (\<open>fixed_vector.hpp\<close>): the bounded array as an instance of the locale
    \<open>bounded_stack\<close>.
  \<^item> \<open>Ring_Buffer\<close> (\<open>ring_buffer.hpp\<close>): the ring with 32-bit positions, one method call at a time. It is an
    instance of the locale \<open>bounded_fifo\<close> and refines a bounded list; the endless loop of a push on a full ring
    whose position has wrapped is part of the model. \<open>Ring_Concurrent\<close>: the same two methods as a step
    relation with one step per access to shared memory, any number of producers, and an invariant over all
    interleavings: order, no loss, no races. Between method calls its state is a well-formed ring of
    \<open>Ring_Buffer\<close>. \<open>Ring_Memory_Order\<close>: the same accesses
    under the memory orders of the source, with stale loads, release/acquire views and a check that no access to
    an entry races; the interleaved executions are among these, weaker orders lead to a race, a stale load can make a
    push give up early, and a thread ordered after the stores to its slot gets the right answer. \<open>Ring_Calls\<close>: the
    steps of \<open>Ring_Concurrent\<close> labelled with the call a thread begins and the result it returns, so that larger programs
    can be composed with them; a call that is not interrupted is the call of \<open>Ring_Buffer\<close>, whatever it returns.
  \<^item> \<open>Timestamp\<close> (\<open>timestamp.cpp\<close>), \<open>Formatter\<close> (the locale \<open>formatter\<close>: what \<open>IFormatter\<close> promises),
    \<open>Pattern_Formatter\<close>, \<open>Json_Formatter\<close>: the formatters on every buffer size, against a direct reading of the
    pattern and against a JSON parser.
  \<^item> \<open>Log_Context\<close> (\<open>log_context.cpp\<close>): tags, names and thread information, with an invariant over all calls.
    \<open>Context_Concurrent\<close>: the statements of the calls on the global tags interleaved under the shared mutex; the
    calls are atomic and a reader copies the tags of one moment.
  \<^item> \<open>Sink_Interface\<close> (\<open>sink_interface.hpp\<close>), \<open>Posix\<close> (the system calls as a record with laws, and a system in
    memory that satisfies them), and a theory per sink: \<open>Ring_Memory_Sink\<close>, \<open>Rotating_File_Sink\<close>,
    \<open>Daily_File_Sink\<close>, \<open>Console_Sink\<close> (with the callback sink), \<open>Ros2_Sink\<close>.
  \<^item> \<open>Backend\<close> (\<open>backend.cpp\<close>): draining, the worker, start and stop, over any sinks that satisfy the locale
    \<open>log_sink\<close>. \<open>Sinks\<close>: the virtual calls as a case distinction over the sinks of the library, which
    interpret that locale, and delivery in every history of the backend.
  \<^item> \<open>Logger\<close> (\<open>logger.hpp\<close>, \<open>logger.cpp\<close>): \<open>LogImpl\<close> for \<open>snprintf\<close> and for the fmt library, the logger's
    operations and destructor, the macros, and every history of a logger. \<open>Ros2_Bridge\<close>
    (\<open>ros2_context.cpp\<close>, \<open>ros2_bridge.cpp\<close>, \<open>ros2_macros.hpp\<close>): set-up of a node and its callbacks.
  \<^item> \<open>Logger_Concurrent\<close> (\<open>logger.hpp\<close>, \<open>backend.cpp\<close>): any number of threads inside \<open>LogImpl\<close>, the worker and the
    owner of the logger (who starts, drains and stops it), interleaved at every access to the ring, the counters,
    the flag and the sinks; the invariants of delivery, numbering and accounting. \<open>Logger_Progress\<close>: what holds in
    every run of that system: entries reach the sinks in claim order and none is lost or written twice, every number
    is an accepted entry or a counted drop, no thread is stuck, and \<open>Stop\<close> can complete and then everything that was
    ready, published with all that was claimed before it, has been written.
  \<^item> \<open>Application\<close>: programs that use the library, as statements on the logger, the context and the threads; a
    view of what was logged, and a refinement calculus that gives the effect of every statement, sequence, block and
    loop on it. \<open>Example_Basic\<close> (\<open>examples/basic_cpp/main.cpp\<close>) and \<open>Example_Node\<close>
    (\<open>examples/ros2_node/example_node.cpp\<close>): the example programs, and exactly what they log in
    every interleaving of their whole statements, with drains of the worker between them.
  \<^item> \<open>Delivery\<close> and this theory: what a memory, a console and a rotating sink contain after a complete session.
    \<open>Delivery_Concurrent\<close>: what they contain when \<open>Stop\<close> has returned while any number of threads were logging.

  \<^bold>\<open>Conventions.\<close> A C++ class is a record, a method a function on it with the source's name, prefixed by the
  class where names clash. Integers that wrap in the program are words; sizes that cannot reach their limit
  (\<open>size_t\<close> lengths, file sizes) are natural numbers. \<open>double\<close> products of day counts are exact and are
  integers here. \<open>None\<close> is undefined behaviour or, for the loops that are \<open>partial_function\<close>s (\<open>TryPush_loop\<close>,
  \<open>drain_all\<close>), a run that never ends; that they return is proved where it holds. No fuel is used, except as
  the nesting depth of the reference JSON parser, where 15 plus the number of tags is shown to be enough. The
  ring theorems that speak of every run bound the number of pushes by \<open>2 ^ 32\<close>, where positions wrap;
  \<open>TryPush_every_branch\<close> and \<open>TryPop_every_branch\<close> have no such bound; the theorems of \<open>Logger_Progress\<close> assume
  in addition fewer than \<open>2 ^ 64\<close> calls, where sequence numbers wrap. History variables (what was claimed, popped,
  dropped, released) are written by the steps and read by none. Code outside the repository is a
  parameter: \<open>localtime_r\<close>, the system calls, the fmt library, \<open>rcutils_log\<close>, the ROS node, \<open>isatty\<close>.

  \<^bold>\<open>Not modelled.\<close> Memory orders outside the ring (\<open>Context_Concurrent\<close> and
  \<open>Logger_Concurrent\<close> interleave whole accesses, the latter also those to the ring: that \<open>Stop\<close> finds the ring empty only when it is
  needs the logging threads to be ordered before it, as by joining them, see \<open>ordered_reports_right\<close>), executions in which relaxed
  accesses depend on themselves, fairness of the scheduler (progress is the existence of a step, and
  of a run in which \<open>Stop\<close> returns), \<open>uart_sink.hpp\<close> (empty), the platform detection macros and the build strings, interruption of the
  file system by other processes. The example programs are followed up to the stop of the logger; their worker acts
  between statements (the finer interleaving is that of \<open>Logger_Concurrent\<close>).
\<close>

subsection \<open>Sessions\<close>

text \<open>
  A memory sink after a session. Take any history of a started logger with any sinks, one of them a memory
  sink. After \<open>Stop\<close> that sink holds exactly the last \<open>capacity\<close> of its earlier entries followed by the queued
  entries that pass its level, in the order of the calls that made them.
\<close>

lemma memory_sink_session:
  assumes "logger_reach cfg env active ss w cs lg w'" and "valid_config cfg" and "list_all sink_inv ss"
    and "localtime_ok (fst (env_tz env))" and "length (env_junk env) = 128" and "started lg"
    and "i < length ss" and "ss ! i = RingMemory m"
  shows "\<exists>es acc lg' w'' m'. entries_of_calls cfg 0 cs es \<and> subseq acc es \<and>
    DropCount lg = of_nat (length cs - length acc) \<and>
    Logger_Stop (log_sinks env) k idle lg w' = Some (lg', w'') \<and> sinks (backend lg') ! i = RingMemory m' \<and>
    mem_list m' = last_n (mem_capacity m) (mem_list m @ filter (\<lambda>e. ShouldLog m (level e)) acc)"
proof -
  obtain es acc ss1 w1 lg' where s: "entries_of_calls cfg 0 cs es" "subseq acc es" "DropCount lg = of_nat (length cs - length acc)"
    "dispatch_list (log_sinks env) acc ss w = Some (ss1, w1)"
    "Logger_Stop (log_sinks env) k idle lg w' = Some (lg', snd (flush_all (log_sinks env) ss1 w1))"
    "sinks (backend lg') = fst (flush_all (log_sinks env) ss1 w1)"
    using logger_stop_delivers [OF assms(1-6), of k idle] by blast
  obtain m' where m': "mem_writes acc m = Some m'" "ss1 ! i = RingMemory m'" "length ss1 = length ss"
    using dispatch_list_memory [OF s(4) assms(7,8)] by blast
  have "mem_wf m" using assms(3,7,8) by (metis list_all_length sink_inv.simps(3))
  from mem_writes_list [OF this, of acc] m'(1)
  have "mem_list m' = last_n (mem_capacity m) (mem_list m @ filter (\<lambda>e. ShouldLog m (level e)) acc)" by auto
  moreover have "sinks (backend lg') ! i = RingMemory m'" using flush_all_memory [of i ss1 m'] m'(2,3) assms(7) s(6) by simp
  ultimately show ?thesis using s(1-3,5) by blast
qed

lemma memory_sink_session_witness:
  "\<exists>lg lg' w'' m'. logger_reach (platform_config False) demo_env 0 [demo_memory] demo_world [(demo_ctx, demo_tls, demo_call)] lg demo_world \<and>
     Logger_Stop (log_sinks demo_env) 3 0 lg demo_world = Some (lg', w'') \<and> sinks (backend lg') ! 0 = RingMemory m'"
  using demo_logger_reach [of "[demo_memory]" demo_world]
    memory_sink_session [OF _ valid_platform_config demo_memory_inv demo_env_ok, of False 0 demo_world "[(demo_ctx, demo_tls, demo_call)]" _ demo_world 0]
  by (fastforce simp: demo_memory_def)

text \<open>
  C11: the console after a session. With one console sink among sinks of other kinds, the standard output has
  after \<open>Stop\<close> received exactly the lines of the queued entries below \<open>WARN\<close> and the standard error those from
  \<open>WARN\<close> on, each in the order of the calls, and both streams are flushed to the end.
\<close>

theorem console_session:
  assumes "logger_reach cfg env active (pre @ Console c # post) w cs lg w'" and "valid_config cfg"
    and "list_all sink_inv (pre @ Console c # post)" and "list_all (\<lambda>s. \<not> is_console s) pre" and "list_all (\<lambda>s. \<not> is_console s) post"
    and "localtime_ok (fst (env_tz env))" and "length (env_junk env) = 128" and "started lg"
  shows "\<exists>es acc lg' io w''. entries_of_calls cfg 0 cs es \<and> subseq acc es \<and> DropCount lg = of_nat (length cs - length acc) \<and>
    Logger_Stop (log_sinks env) k idle lg w' = Some (lg', io, w'') \<and>
    stream_text (std_out io) = stream_text (std_out (fst w)) @
      concat (map (console_text (fst (env_tz env)) c) (filter (\<lambda>e. level e < WARN) acc)) \<and>
    stream_text (std_err io) = stream_text (std_err (fst w)) @
      concat (map (console_text (fst (env_tz env)) c) (filter (\<lambda>e. \<not> level e < WARN) acc)) \<and>
    stream_flushed (std_out io) = length (stream_text (std_out io)) \<and> stream_flushed (std_err io) = length (stream_text (std_err io))"
proof -
  let ?lt = "fst (env_tz env)"
  obtain es acc ss1 w1 lg' where s: "entries_of_calls cfg 0 cs es" "subseq acc es" "DropCount lg = of_nat (length cs - length acc)"
    "dispatch_list (log_sinks env) acc (pre @ Console c # post) w = Some (ss1, w1)"
    "Logger_Stop (log_sinks env) k idle lg w' = Some (lg', snd (flush_all (log_sinks env) ss1 w1))" "list_all (good_entry cfg env) acc"
    using logger_stop_delivers [OF assms(1-3,6-8), of k idle] by blast
  obtain pre' c' post' where c': "ss1 = pre' @ Console c' # post'" "list_all (\<lambda>s. \<not> is_console s) pre'" "list_all (\<lambda>s. \<not> is_console s) post'"
    "console_writes ?lt (env_junk env) acc c (fst w) = Some (c', fst w1)"
    using dispatch_list_console [OF s(4) assms(4,5)] by blast
  have "list_all (entry_ok cfg ?lt (env_junk env)) acc" using s(6) by (auto simp: list_all_iff good_entry_def)
  moreover have "sink_wf c" using assms(3) by simp
  ultimately have t: "stream_text (std_out (fst w1)) = stream_text (std_out (fst w)) @ concat (map (console_text ?lt c) (filter (\<lambda>e. level e < WARN) acc))"
    "stream_text (std_err (fst w1)) = stream_text (std_err (fst w)) @ concat (map (console_text ?lt c) (filter (\<lambda>e. \<not> level e < WARN) acc))"
    using console_writes_text [OF _ _ c'(4)] by blast+
  obtain io w'' where f: "snd (flush_all (log_sinks env) ss1 w1) = (io, w'')" by fastforce
  have "io = ConsoleSink_Flush c' (fst w1)" using flush_console [OF c'(2,3), of env c' w1] f c'(1) by simp
  then show ?thesis using s(1-3,5) f t
    by (intro exI [of _ es, OF exI [of _ acc, OF exI [of _ lg', OF exI [of _ io, OF exI [of _ w'']]]]])
       (simp add: ConsoleSink_Flush_def fflush_def)
qed

definition demo_console :: "mem_os sink" where
  "demo_console = Console (ConsoleSink_init (replicate 2048 NUL) False False None)"

lemma demo_console_inv: "list_all sink_inv ([] @ demo_console # [])"
  by (simp add: demo_console_def ConsoleSink_init_def sink_wf_def)

theorem console_session_witness:
  "\<exists>lg lg' io w''. logger_reach (platform_config False) demo_env 0 [demo_console] demo_world [(demo_ctx, demo_tls, demo_call)] lg demo_world \<and>
     Logger_Stop (log_sinks demo_env) 3 0 lg demo_world = Some (lg', io, w'') \<and> stream_flushed (std_out io) = length (stream_text (std_out io))"
  using demo_logger_reach [of "[] @ demo_console # []" demo_world]
    console_session [OF _ valid_platform_config demo_console_inv [unfolded demo_console_def] _ _ demo_env_ok, of False 0 demo_world
      "[(demo_ctx, demo_tls, demo_call)]" _ demo_world 3 0]
  unfolding demo_console_def by fastforce

text \<open>
  C10: the rotated files after a session. With a rotating sink as the only sink on a file system that obeys the documented laws, the
  files are after \<open>Stop\<close> exactly those that the rotation scheme makes of the earlier ones and the lines, one after the
  other, of the queued entries in the order of the calls: a line that does not fit the live file moves every file up
  by one name, the oldest one out, and starts a new live file. No other file has changed.
\<close>

theorem rotating_session:
  assumes "logger_reach cfg env active [Rotating s] w cs lg w'" and "valid_config cfg" and "sink_wf s"
    and "localtime_ok (fst (env_tz env))" and "length (env_junk env) = 128" and "started lg"
    and "fs_laws (env_px env) (files, fds)" and "rot_ok (files, fds) s (snd w)"
  shows "\<exists>es acc lg' io w''. entries_of_calls cfg 0 cs es \<and> subseq acc es \<and> DropCount lg = of_nat (length cs - length acc) \<and>
    Logger_Stop (log_sinks env) k idle lg w' = Some (lg', io, w'') \<and>
    log_files (files w'') (base_path s) (max_files s) =
      fold (rotated_write (max_file_size s)) (sink_lines (fst (env_tz env)) rotating_pattern False s acc)
        (log_files (files (snd w)) (base_path s) (max_files s)) \<and>
    (\<forall>p. p \<notin> rot_name (base_path s) ` {..max_files s} \<longrightarrow> files w'' p = files (snd w) p)"
proof -
  have inv: "list_all sink_inv [Rotating s]" using assms(3) by simp
  obtain es acc ss1 w1 lg' where d: "entries_of_calls cfg 0 cs es" "subseq acc es" "DropCount lg = of_nat (length cs - length acc)"
    "dispatch_list (log_sinks env) acc [Rotating s] w = Some (ss1, w1)"
    "Logger_Stop (log_sinks env) k idle lg w' = Some (lg', snd (flush_all (log_sinks env) ss1 w1))" "list_all (good_entry cfg env) acc"
    using logger_stop_delivers [OF assms(1,2) inv assms(4-6), of k idle] by blast
  have "list_all (entry_ok cfg (fst (env_tz env)) (env_junk env)) acc" using d(6) by (auto simp: list_all_iff good_entry_def)
  from rot_writes_files [OF assms(7,8) this] obtain s' v where
    r: "rot_writes (fst (env_tz env)) (env_junk env) (env_px env) acc s (snd w) = Some (s', v)"
      "files_after (base_path s) (max_files s) (max_file_size s) (sink_lines (fst (env_tz env)) rotating_pattern False s acc)
        (files (snd w)) (files v)" by blast
  from dispatch_list_rotating [OF r(1), of "fst w"] d(4) have "ss1 = [Rotating s']" "w1 = (fst w, v)" by simp_all
  then have "snd (flush_all (log_sinks env) ss1 w1) = (fst w, RotatingFileSink_Flush (env_px env) s' v)" by simp
  moreover have "files (RotatingFileSink_Flush (env_px env) s' v) = files v"
    using fs_close(5) [OF assms(7)] by (simp add: RotatingFileSink_Flush_def)
  ultimately show ?thesis using d(1-3,5) r(2)
    by (intro exI [of _ es, OF exI [of _ acc, OF exI [of _ lg', OF exI [of _ "fst w",
          OF exI [of _ "RotatingFileSink_Flush (env_px env) s' v"]]]]]) (simp add: files_after_def)
qed

theorem rotating_session_witness:
  "\<exists>s v lg lg' io w'' acc. demo_sink 10 3 = (s, v) \<and>
     logger_reach (platform_config False) demo_env 0 [Rotating s] (fst demo_world, v) [(demo_ctx, demo_tls, demo_call)] lg (fst demo_world, v) \<and>
     Logger_Stop (log_sinks demo_env) 3 0 lg (fst demo_world, v) = Some (lg', io, w'') \<and>
     log_files (mem_files w'') (base_path s) 3 =
       fold (rotated_write 10) (sink_lines (fst (env_tz demo_env)) rotating_pattern False s acc) (log_files (mem_files v) (base_path s) 3)"
proof -
  obtain s v where d: "demo_sink 10 3 = (s, v)" "rot_ok (mem_files, mem_fds) s v" "max_files s = 3" "max_file_size s = 10" by (rule demo_sink_ok)
  obtain lg where lg: "logger_reach (platform_config False) demo_env 0 [Rotating s] (fst demo_world, v) [(demo_ctx, demo_tls, demo_call)] lg (fst demo_world, v)"
    "started lg" using demo_logger_reach by blast
  have "sink_wf s" using d(2) by (simp add: rot_ok_def)
  moreover have "fs_laws (env_px demo_env) (mem_files, mem_fds)" using mem_posix_laws by (simp add: demo_env_def)
  ultimately show ?thesis
    using rotating_session [OF lg(1) valid_platform_config _ demo_env_ok lg(2), of mem_files mem_fds 3 0] d lg(1) by fastforce
qed

end
